(* ===== verification/Ews_Prelude.thy ===== *)
theory Ews_Prelude
  imports Main "HOL-Library.Word"
begin

text \<open>
  The shared layer of the development: the byte and word types, the byte orders of
  \<^verbatim>\<open>encoding/binary\<close> as folds over byte lists with their round trips, overwriting a
  range of a fixed array (\<open>copy\<close> and \<open>PutUint\<close> into a slice), and small facts on
  words that the components share.
\<close>

unbundle bit_operations_syntax

text \<open>
  The collections of the development: \<open>wire_simps\<close> holds what the wire format says of
  header fields, \<open>bit_simps_ews\<close> the bit masks of the source as \<open>take_bit\<close> and single
  bits, \<open>inv_intros\<close> the facts that an operation keeps its component's invariant.
\<close>

named_theorems wire_simps
named_theorems bit_simps_ews
named_theorems inv_intros

type_synonym byte = "8 word"
type_synonym bytes = "byte list"
type_synonym u16 = "16 word"
type_synonym u32 = "32 word"
type_synonym u64 = "64 word"

section \<open>Little- and big-endian encodings\<close>

text \<open>
  \<open>le_get bs\<close> is \<open>binary.LittleEndian.Uint\<close> on the bytes \<open>bs\<close> at any width, and
  \<open>le_put n\<close> is \<open>PutUint\<close> of \<open>n\<close> bytes; the big-endian forms read the bytes in
  reverse.
\<close>

primrec le_get :: "bytes \<Rightarrow> 'a::len word" where
  "le_get [] = 0"
| "le_get (b # bs) = ucast b OR push_bit 8 (le_get bs)"

primrec le_put :: "nat \<Rightarrow> 'a::len word \<Rightarrow> bytes" where
  "le_put 0 w = []"
| "le_put (Suc n) w = ucast w # le_put n (drop_bit 8 w)"

definition be_get :: "bytes \<Rightarrow> 'a::len word" where
  "be_get bs = le_get (rev bs)"

definition be_put :: "nat \<Rightarrow> 'a::len word \<Rightarrow> bytes" where
  "be_put n w = rev (le_put n w)"

lemma length_le_put [simp]: "length (le_put n w) = n"
  by (induction n arbitrary: w) auto

lemma length_be_put [simp]: "length (be_put n w) = n"
  by (simp add: be_put_def)

lemma nth_le_put: "i < n \<Longrightarrow> le_put n w ! i = ucast (drop_bit (8 * i) w)"
  by (induction n arbitrary: w i) (auto simp: nth_Cons drop_bit_drop_bit add.commute split: nat.split)

lemma bit_le_get:
  "bit (le_get bs :: 'a::len word) n \<longleftrightarrow>
     n < LENGTH('a) \<and> n div 8 < length bs \<and> bit (bs ! (n div 8)) (n mod 8)"
proof (induction bs arbitrary: n)
  case Nil
  then show ?case by simp
next
  case (Cons b bs)
  show ?case
  proof (cases "n < 8")
    case True
    then show ?thesis
      by (auto simp: bit_simps)
  next
    case False
    then obtain m where m: "n = m + 8"
      by (metis add.commute le_Suc_ex not_less)
    then have "n div 8 = Suc (m div 8)" "n mod 8 = m mod 8" by simp_all
    with m show ?thesis
      by (auto simp: bit_simps Cons.IH dest: bit_imp_le_length)
  qed
qed

lemma le_put_get:
  assumes "8 * length bs \<le> LENGTH('a::len)"
  shows "le_put (length bs) (le_get bs :: 'a word) = bs"
proof (rule nth_equalityI)
  fix i assume "i < length (le_put (length bs) (le_get bs :: 'a word))"
  then have i: "i < length bs" by simp
  show "le_put (length bs) (le_get bs :: 'a word) ! i = bs ! i"
  proof (rule bit_word_eqI)
    fix j assume "j < LENGTH(8)"
    then have j: "j < 8" by simp
    have "8 * i + j < LENGTH('a)" using i j assms by linarith
    moreover have "(8 * i + j) div 8 = i" "(8 * i + j) mod 8 = j" using j by auto
    ultimately show "bit (le_put (length bs) (le_get bs :: 'a word) ! i) j = bit (bs ! i) j"
      using i j by (simp add: nth_le_put bit_simps bit_le_get)
  qed
qed simp

lemma le_get_put:
  "LENGTH('a::len) \<le> 8 * n \<Longrightarrow> le_get (le_put n (w :: 'a word)) = w"
proof (rule bit_word_eqI)
  fix k assume n: "LENGTH('a) \<le> 8 * n" and k: "k < LENGTH('a)"
  then have "k div 8 < n" by auto
  moreover have "8 * (k div 8) + k mod 8 = k" by simp
  ultimately show "bit (le_get (le_put n w) :: 'a word) k = bit w k"
    using k by (simp add: bit_le_get nth_le_put bit_simps)
qed

lemma le_put_xor: "le_put n (v XOR w) = map2 (XOR) (le_put n v) (le_put n w)"
  by (induction n arbitrary: v w) (auto simp: unsigned_xor_eq)

lemma be_put_get:
  "8 * length bs \<le> LENGTH('a::len) \<Longrightarrow> be_put (length bs) (be_get bs :: 'a word) = bs"
  using le_put_get [of "rev bs", where 'a = 'a] by (simp add: be_put_def be_get_def)

lemma be_get_put:
  "LENGTH('a::len) \<le> 8 * n \<Longrightarrow> be_get (be_put n (w :: 'a word)) = w"
  by (simp add: be_get_def be_put_def le_get_put)

section \<open>Overwriting a range of an array\<close>

definition put_at :: "nat \<Rightarrow> 'a list \<Rightarrow> 'a list \<Rightarrow> 'a list" where
  "put_at i bs xs = take i xs @ bs @ drop (i + length bs) xs"

lemma length_put_at [simp]:
  "i + length bs \<le> length xs \<Longrightarrow> length (put_at i bs xs) = length xs"
  by (simp add: put_at_def)

lemma nth_put_at:
  "i + length bs \<le> length xs \<Longrightarrow> j < length xs \<Longrightarrow>
     put_at i bs xs ! j = (if i \<le> j \<and> j < i + length bs then bs ! (j - i) else xs ! j)"
  by (auto simp: put_at_def nth_append min_def)

lemma put_at_Nil [simp]: "put_at i [] xs = xs"
  by (simp add: put_at_def)

lemma put_at_put_at:
  "i + length bs + length cs \<le> length xs \<Longrightarrow>
     put_at (i + length bs) cs (put_at i bs xs) = put_at i (bs @ cs) xs"
  by (rule nth_equalityI) (auto simp: nth_put_at nth_append)

lemma put_at_0: "length bs = length xs \<Longrightarrow> put_at 0 bs xs = bs"
  by (simp add: put_at_def)

section \<open>Slicing\<close>

text \<open>The slice expression \<open>xs[i:j]\<close>.\<close>

definition go_slice :: "nat \<Rightarrow> nat \<Rightarrow> 'a list \<Rightarrow> 'a list" where
  "go_slice i j xs = take (j - i) (drop i xs)"

lemma length_go_slice [simp]: "j \<le> length xs \<Longrightarrow> length (go_slice i j xs) = j - i"
  by (auto simp: go_slice_def min_def)

section \<open>Words of small naturals\<close>

lemma unat_of_nat_small [simp]: "n < 2 ^ LENGTH('a::len) \<Longrightarrow> unat (of_nat n :: 'a word) = n"
  by (simp add: unat_of_nat)

lemma drop_bit_small: "unat w < 2 ^ n \<Longrightarrow> drop_bit n (w :: 'a::len word) = 0"
  by (metis unat_drop_bit_eq drop_bit_eq_div div_less unat_eq_zero)

lemma unat_ucast_up:
  "LENGTH('a::len) \<le> LENGTH('b::len) \<Longrightarrow> unat (ucast (w :: 'a word) :: 'b word) = unat w"
proof -
  assume "LENGTH('a) \<le> LENGTH('b)"
  then have "unat w < 2 ^ LENGTH('b)"
    by (intro less_le_trans [OF unsigned_less]) simp
  then show ?thesis by (simp add: unsigned_ucast_eq take_bit_nat_eq_self)
qed

end
