(* ===== verification/Header.thy ===== *)
theory Header
  imports Ews_Prelude
begin

text \<open>
  Frame headers: \<^verbatim>\<open>src/codec/opcode.go\<close> and \<^verbatim>\<open>src/codec/header.go\<close>. A header is its
  fixed 14-byte array and the number of bytes in use; the accessors read the array.
  \<open>wire_header\<close> is the encoding RFC 6455 5.2 prescribes (minimal length form), and the
  lemmas evaluate every accessor on it.
\<close>

section \<open>codec/opcode.go\<close>

type_synonym opcode = "8 word"

definition Continuation :: opcode where [simp]: "Continuation = 0"
definition Text :: opcode where [simp]: "Text = 1"
definition Binary :: opcode where [simp]: "Binary = 2"
definition Close :: opcode where [simp]: "Close = 8"
definition Ping :: opcode where [simp]: "Ping = 9"
definition Pong :: opcode where [simp]: "Pong = 10"

section \<open>codec/header.go\<close>

definition MaxHeaderSize :: nat where "MaxHeaderSize = 14"

record header =
  raw :: bytes
  hlen :: byte

definition zero_header :: header where
  "zero_header = \<lparr>raw = replicate MaxHeaderSize 0, hlen = 0\<rparr>"

definition Bytes :: "header \<Rightarrow> bytes" where
  "Bytes h = take (unat (hlen h)) (raw h)"

definition Len :: "header \<Rightarrow> int" where
  "Len h = uint (hlen h)"

definition PayloadLen :: "header \<Rightarrow> u64" where
  "PayloadLen h =
    (let n = raw h ! 1 AND 0x7f in
     if n = 126 then ucast (be_get (go_slice 2 4 (raw h)) :: u16)
     else if n = 127 then be_get (go_slice 2 10 (raw h))
     else ucast n)"

definition Final :: "header \<Rightarrow> bool" where
  "Final h \<longleftrightarrow> raw h ! 0 AND 0x80 \<noteq> 0"

definition RSV1 :: "header \<Rightarrow> bool" where
  "RSV1 h \<longleftrightarrow> raw h ! 0 AND 0x40 \<noteq> 0"

definition RSV2 :: "header \<Rightarrow> bool" where
  "RSV2 h \<longleftrightarrow> raw h ! 0 AND 0x20 \<noteq> 0"

definition RSV3 :: "header \<Rightarrow> bool" where
  "RSV3 h \<longleftrightarrow> raw h ! 0 AND 0x10 \<noteq> 0"

definition Opcode :: "header \<Rightarrow> opcode" where
  "Opcode h = raw h ! 0 AND 0x0f"

definition Masked :: "header \<Rightarrow> bool" where
  "Masked h \<longleftrightarrow> raw h ! 1 AND 0x80 \<noteq> 0"

definition MaskKey :: "header \<Rightarrow> bytes" where
  "MaskKey h = (if \<not> Masked h then [] else go_slice (unat (hlen h - 4)) (unat (hlen h)) (raw h))"

section \<open>The wire format\<close>

definition len_code :: "nat \<Rightarrow> byte" where
  "len_code n = (if n \<le> 125 then of_nat n else if n \<le> 65535 then 126 else 127)"

definition len_ext :: "nat \<Rightarrow> bytes" where
  "len_ext n = (if n \<le> 125 then [] else if n \<le> 65535 then be_put 2 (of_nat n :: u16)
                else be_put 8 (of_nat n :: u64))"

definition mask_bit :: "bytes option \<Rightarrow> byte" where
  "mask_bit key = (if key = None then 0 else 0x80)"

definition key_bytes :: "bytes option \<Rightarrow> bytes" where
  "key_bytes key = (case key of None \<Rightarrow> [] | Some k \<Rightarrow> k)"

definition key_ok :: "bytes option \<Rightarrow> bool" where
  "key_ok key \<longleftrightarrow> (case key of None \<Rightarrow> True | Some k \<Rightarrow> length k = 4)"

definition wire_header :: "byte \<Rightarrow> nat \<Rightarrow> bytes option \<Rightarrow> bytes" where
  "wire_header b0 n key = b0 # (len_code n OR mask_bit key) # len_ext n @ key_bytes key"

definition header_of :: "byte \<Rightarrow> nat \<Rightarrow> bytes option \<Rightarrow> header \<Rightarrow> bool" where
  "header_of b0 n key h \<longleftrightarrow>
     (\<exists>junk. raw h = wire_header b0 n key @ junk) \<and> hlen h = of_nat (length (wire_header b0 n key))"

lemma key_ok_simps [simp]: "key_ok None" "key_ok (Some k) \<longleftrightarrow> length k = 4"
  by (simp_all add: key_ok_def)

lemma key_bytes_simps [simp]: "key_bytes None = []" "key_bytes (Some k) = k"
  by (simp_all add: key_bytes_def)

lemma and_7f: "x AND 0x7f = take_bit 7 (x :: byte)"
  by (simp add: take_bit_eq_mask mask_eq_exp_minus_1)

lemma and_80: "x AND 0x80 \<noteq> 0 \<longleftrightarrow> bit (x :: byte) 7"
proof -
  have "(0x80 :: byte) = 2 ^ 7" by simp
  then show ?thesis by (metis and_exp_eq_0_iff_not_bit)
qed

lemma len_code_less: "len_code n < 2 ^ 7"
proof (cases "n \<le> 125")
  case True
  then have "unat (of_nat n :: byte) = n" by simp
  with True show ?thesis by (simp add: len_code_def word_less_nat_alt)
qed (simp add: len_code_def)

lemma take_bit_len_code [simp]: "take_bit 7 (len_code n) = len_code n"
  using less_mask_eq [OF len_code_less [of n]] by (simp only: take_bit_eq_mask)

lemma not_bit_len_code [simp]: "\<not> bit (len_code n) 7"
  by (metis take_bit_len_code bit_take_bit_iff less_irrefl)

lemma take_bit_mask_bit [simp]: "take_bit 7 (mask_bit key) = 0"
  by (simp add: mask_bit_def)

lemma len_byte_and_7f: "(len_code n OR mask_bit key) AND 0x7f = len_code n"
  by (simp add: and_7f)

lemma len_byte_and_80: "(len_code n OR mask_bit key) AND 0x80 \<noteq> 0 \<longleftrightarrow> key \<noteq> None"
  by (simp add: and_80 bit_or_iff mask_bit_def bit_numeral_rec)

lemma len_code_eq [simp]:
  "len_code n = 126 \<longleftrightarrow> 125 < n \<and> n \<le> 65535"
  "len_code n = 127 \<longleftrightarrow> 65535 < n"
proof -
  have "unat (of_nat n :: byte) \<noteq> unat (126 :: byte) \<and> unat (of_nat n :: byte) \<noteq> unat (127 :: byte)"
    if "n \<le> 125" using that by simp
  then have "(of_nat n :: byte) \<noteq> 126 \<and> (of_nat n :: byte) \<noteq> 127" if "n \<le> 125"
    using that by metis
  then show "len_code n = 126 \<longleftrightarrow> 125 < n \<and> n \<le> 65535"  "len_code n = 127 \<longleftrightarrow> 65535 < n"
    by (auto simp: len_code_def)
qed

lemma length_len_ext:
  "length (len_ext n) = (if n \<le> 125 then 0 else if n \<le> 65535 then 2 else 8)"
  by (simp add: len_ext_def)

lemma length_wire_header:
  "key_ok key \<Longrightarrow> length (wire_header b0 n key)
     = 2 + (if n \<le> 125 then 0 else if n \<le> 65535 then 2 else 8) + (if key = None then 0 else 4)"
  by (cases key) (auto simp: wire_header_def length_len_ext)

lemma header_of_nth:
  assumes "header_of b0 n key h"
  shows "raw h ! 0 = b0" "raw h ! Suc 0 = len_code n OR mask_bit key"
  using assms by (auto simp: header_of_def wire_header_def)

lemma header_of_Bytes:
  assumes "header_of b0 n key h" "key_ok key"
  shows "Bytes h = wire_header b0 n key"
  using assms by (auto simp: header_of_def Bytes_def length_wire_header)

lemma header_of_len:
  assumes "header_of b0 n key h" "key_ok key"
  shows "unat (hlen h) = length (wire_header b0 n key)"
  using assms by (auto simp: header_of_def length_wire_header)

lemma header_of_Masked [simp]: "header_of b0 n key h \<Longrightarrow> Masked h \<longleftrightarrow> key \<noteq> None"
  using len_byte_and_80 [of n key] by (simp add: Masked_def header_of_nth)

lemma header_of_slice:
  "header_of b0 n key h \<Longrightarrow> go_slice 2 (2 + length (len_ext n)) (raw h) = len_ext n"
  by (auto simp: header_of_def wire_header_def go_slice_def)

lemma header_of_PayloadLen:
  assumes h: "header_of b0 n key h" and n: "n < 2 ^ 64"
  shows "PayloadLen h = of_nat n"
proof -
  note sl = header_of_slice [OF h]
  consider "n \<le> 125" | "125 < n" "n \<le> 65535" | "65535 < n" by linarith
  then show ?thesis
  proof cases
    case 1
    then have "ucast (len_code n) = (of_nat n :: u64)"
      by (intro word_unat_eq_iff [THEN iffD2]) (simp add: len_code_def unsigned_ucast_eq take_bit_nat_eq_self)
    with 1 show ?thesis by (simp add: PayloadLen_def Let_def header_of_nth [OF h] len_byte_and_7f)
  next
    case 2
    then have "go_slice 2 4 (raw h) = be_put 2 (of_nat n :: u16)"
      using sl by (simp add: len_ext_def)
    moreover have "ucast (of_nat n :: u16) = (of_nat n :: u64)"
      using 2 by (intro word_unat_eq_iff [THEN iffD2]) (simp add: unsigned_ucast_eq take_bit_nat_eq_self)
    ultimately show ?thesis
      using 2 by (simp add: PayloadLen_def header_of_nth [OF h] len_byte_and_7f be_get_put)
  next
    case 3
    then have "go_slice 2 10 (raw h) = be_put 8 (of_nat n :: u64)"
      using sl by (simp add: len_ext_def)
    with 3 show ?thesis
      by (simp add: PayloadLen_def header_of_nth [OF h] len_byte_and_7f be_get_put)
  qed
qed

lemma header_of_MaskKey:
  assumes h: "header_of b0 n key h" and k: "key_ok key"
  shows "MaskKey h = key_bytes key"
proof (cases key)
  case None
  with h show ?thesis by (simp add: MaskKey_def)
next
  case (Some k4)
  obtain junk where raw: "raw h = (b0 # (len_code n OR mask_bit key) # len_ext n) @ k4 @ junk"
    using h Some by (auto simp: header_of_def wire_header_def)
  have "hlen h - 4 = of_nat (length (b0 # (len_code n OR mask_bit key) # len_ext n))"
    using h k Some by (auto simp: header_of_def wire_header_def)
  then have "unat (hlen h - 4) = length (b0 # (len_code n OR mask_bit key) # len_ext n)"
    by (simp add: length_len_ext)
  moreover have "unat (hlen h) = length (b0 # (len_code n OR mask_bit key) # len_ext n) + 4"
    using header_of_len [OF h k] Some k by (simp add: wire_header_def)
  ultimately show ?thesis
    using h k Some by (simp add: MaskKey_def go_slice_def raw)
qed

end
