(* ===== verification/Mask.thy ===== *)
theory Mask
  imports Ews_Prelude
begin

text \<open>
  Payload masking: \<^verbatim>\<open>src/codec/mask.go\<close> and its three build-tagged kernels,
  \<^verbatim>\<open>mask_swar_generic.go\<close> (slices), \<^verbatim>\<open>mask_swar.go\<close> (unsafe pointers) and
  \<^verbatim>\<open>mask_simd.go\<close> (16-byte vectors). The reference \<open>mask_ref\<close> is RFC 6455 5.3:
  byte \<open>i\<close> is combined with key byte \<open>i mod 4\<close>. Each kernel is modelled at its own
  width and proved equal to the reference; the contract they share is the locale
  \<open>mask_impl\<close>, which all three interpret. The two unsafe kernels run on an explicit
  byte memory in which a load or a store outside the memory yields \<open>None\<close>, so that
  their correctness includes the absence of out-of-range accesses and, for a
  destination that is the source or disjoint from it, of aliasing faults.
\<close>

section \<open>Reference masking\<close>

primrec mask_ref :: "bytes \<Rightarrow> nat \<Rightarrow> bytes \<Rightarrow> bytes" where
  "mask_ref key p [] = []"
| "mask_ref key p (x # xs) = (x XOR key ! (p mod 4)) # mask_ref key (Suc p) xs"

lemma length_mask_ref [simp]: "length (mask_ref key p xs) = length xs"
  by (induction xs arbitrary: p) auto

lemma mask_ref_append:
  "mask_ref key p (xs @ ys) = mask_ref key p xs @ mask_ref key (p + length xs) ys"
  by (induction xs arbitrary: p) auto

lemma nth_mask_ref:
  "i < length xs \<Longrightarrow> mask_ref key p xs ! i = xs ! i XOR key ! ((p + i) mod 4)"
  by (induction xs arbitrary: p i) (auto simp: nth_Cons split: nat.split)

lemma mask_ref_mod: "p mod 4 = q mod 4 \<Longrightarrow> mask_ref key p xs = mask_ref key q xs"
  by (rule nth_equalityI) (simp, metis length_mask_ref mod_add_left_eq nth_mask_ref)

lemma mask_ref_mask_ref [simp]: "mask_ref key p (mask_ref key p xs) = xs"
  by (rule nth_equalityI) (auto simp: nth_mask_ref xor.assoc)

lemma mask_ref_append4:
  "4 dvd length xs \<Longrightarrow> mask_ref key 0 (xs @ ys) = mask_ref key 0 xs @ mask_ref key 0 ys"
  by (simp add: mask_ref_append mask_ref_mod [of "length xs" 0])

lemma take_mask_ref: "take n (mask_ref key p xs) = mask_ref key p (take n xs)"
  by (rule nth_equalityI) (auto simp: nth_mask_ref)

section \<open>codec/mask.go: key rotation and the derived word keys\<close>

definition rotateMaskKey :: "bytes \<Rightarrow> byte \<Rightarrow> bytes" where
  "rotateMaskKey key offset =
    (let offset = offset AND 3 in
     if offset \<noteq> 0
     then [key ! unat offset, key ! unat ((offset + 1) AND 3),
           key ! unat ((offset + 2) AND 3), key ! unat ((offset + 3) AND 3)]
     else key)"

lemma unat_and_3: "unat ((x :: byte) AND 3) = unat x mod 4"
proof -
  have "x AND 3 = take_bit 2 x"
    by (simp add: take_bit_eq_mask mask_eq_exp_minus_1)
  then show ?thesis
    by (simp add: take_bit_eq_mod unat_mod_distrib)
qed

lemma unat_plus_and_3: "unat (((x :: byte) + y) AND 3) = (unat x + unat y) mod 4"
proof -
  have "unat (x + y) mod 4 = (unat x + unat y) mod 256 mod 4"
    by (simp add: unat_word_ariths)
  also have "\<dots> = (unat x + unat y) mod 4"
    by (rule mod_mod_cancel) simp
  finally show ?thesis by (simp add: unat_and_3)
qed

lemma length_rotateMaskKey [simp]: "length key = 4 \<Longrightarrow> length (rotateMaskKey key offset) = 4"
  by (simp add: rotateMaskKey_def Let_def)

lemma rotateMaskKey_nth:
  assumes "length key = 4" "i < 4"
  shows "rotateMaskKey key offset ! i = key ! ((unat offset + i) mod 4)"
proof -
  have r: "unat ((offset AND 3) + k AND 3) = (unat offset + unat k) mod 4" for k
    by (subst unat_plus_and_3) (simp add: unat_and_3 mod_add_left_eq)
  have z: "offset AND 3 = 0 \<longleftrightarrow> unat offset mod 4 = 0"
    using unat_and_3 [of offset] by (metis unat_eq_zero)
  show ?thesis
  proof (cases "offset AND 3 = 0")
    case True
    with z have "(unat offset + i) mod 4 = i mod 4" by presburger
    with True assms show ?thesis by (simp add: rotateMaskKey_def)
  next
    case False
    moreover have "i = 0 \<or> i = 1 \<or> i = 2 \<or> i = 3" using assms(2) by auto
    ultimately show ?thesis using assms(1)
      by (auto simp: rotateMaskKey_def Let_def r unat_and_3 [of offset])
  qed
qed

lemma mask_ref_rotate:
  "length key = 4 \<Longrightarrow> mask_ref (rotateMaskKey key offset) 0 xs = mask_ref key (unat offset) xs"
  by (rule nth_equalityI) (auto simp: nth_mask_ref rotateMaskKey_nth mod_simps)

text \<open>
  The word keys every kernel derives from the rotated key: \<open>k32\<close>, and \<open>k64\<close> with
  \<open>k32\<close> in both halves. The unsafe kernels read the key in native order; their build
  tags admit little-endian targets only.
\<close>

definition key32 :: "bytes \<Rightarrow> u32" where "key32 key = le_get key"
definition key64 :: "bytes \<Rightarrow> u64" where
  "key64 key = ucast (key32 key) OR push_bit 32 (ucast (key32 key))"

lemma key32_put: "length key = 4 \<Longrightarrow> le_put 4 (key32 key) = key"
  using le_put_get [of key, where 'a = 32] by (simp add: key32_def)

lemma key64_get: "length key = 4 \<Longrightarrow> key64 key = le_get (key @ key)"
proof (rule bit_word_eqI)
  fix n assume k: "length key = 4" and "n < LENGTH(64)"
  then have n: "n < 64" by simp
  show "bit (key64 key) n = bit (le_get (key @ key) :: u64) n"
  proof (cases "n < 32")
    case True
    then have "n div 8 < 4" by auto
    with True k show ?thesis
      by (auto simp: key64_def key32_def bit_simps bit_le_get nth_append)
  next
    case False
    then obtain m where m: "n = m + 32" by (metis add.commute le_Suc_ex not_less)
    with n have "m div 8 < 4" "n div 8 = m div 8 + 4" by auto
    moreover have "(m + 8 * 4) mod 8 = m mod 8" by (rule mod_mult_self2)
    then have "n mod 8 = m mod 8" using m by simp
    ultimately show ?thesis using m n k
      by (auto simp: key64_def key32_def bit_simps bit_le_get nth_append dest: bit_imp_le_length)
  qed
qed

lemma key64_put: "length key = 4 \<Longrightarrow> le_put 8 (key64 key) = key @ key"
  using le_put_get [of "key @ key", where 'a = 64] by (simp add: key64_get)

lemma map2_xor_mask_ref:
  assumes "length key = 4" "length bs \<le> length ks" "\<And>i. i < length bs \<Longrightarrow> ks ! i = key ! (i mod 4)"
  shows "map2 (XOR) bs ks = mask_ref key 0 bs"
  using assms by (intro nth_equalityI) (auto simp: nth_mask_ref)

lemma nth_dup_key: "length key = 4 \<Longrightarrow> i < 8 \<Longrightarrow> (key @ key) ! i = key ! (i mod 4)"
  by (cases "i < 4") (auto simp: nth_append mod_if)

lemma xor64_mask:
  assumes "length key = 4" "length bs = 8"
  shows "le_put 8 (le_get bs XOR key64 key) = mask_ref key 0 bs"
  using assms le_put_get [of bs, where 'a = 64]
  by (simp add: le_put_xor key64_put map2_xor_mask_ref nth_dup_key)

lemma xor32_mask:
  assumes "length key = 4" "length bs = 4"
  shows "le_put 4 (le_get bs XOR key32 key) = mask_ref key 0 bs"
  using assms le_put_get [of bs, where 'a = 32]
  by (simp add: le_put_xor key32_put map2_xor_mask_ref)

section \<open>codec/mask_swar_generic.go\<close>

text \<open>
  The kernel consumes \<open>src\<close> from the front. \<open>xor_words\<close> is a run of unrolled eight-byte
  statements; a state is the output so far and the rest of the source.
\<close>

primrec xor_words :: "u64 \<Rightarrow> nat \<Rightarrow> bytes \<Rightarrow> bytes" where
  "xor_words k64 0 src = []"
| "xor_words k64 (Suc c) src = le_put 8 (le_get (take 8 src) XOR k64) @ xor_words k64 c (drop 8 src)"

function generic_blocks :: "u64 \<Rightarrow> bytes \<Rightarrow> bytes \<times> bytes" where
  "generic_blocks k64 src =
    (if length src \<ge> 64
     then (let (dst, rest) = generic_blocks k64 (drop 64 src)
           in (xor_words k64 8 src @ dst, rest))
     else ([], src))"
  by pat_completeness auto
termination
  by (relation "measure (length \<circ> snd)") auto

declare generic_blocks.simps [simp del]

definition generic_step :: "nat \<Rightarrow> u64 \<Rightarrow> bytes \<times> bytes \<Rightarrow> bytes \<times> bytes" where
  "generic_step c k64 = (\<lambda>(dst, src).
    if length src \<ge> 8 * c then (dst @ xor_words k64 c src, drop (8 * c) src) else (dst, src))"

definition generic_step4 :: "u32 \<Rightarrow> bytes \<times> bytes \<Rightarrow> bytes \<times> bytes" where
  "generic_step4 k32 = (\<lambda>(dst, src).
    if length src \<ge> 4 then (dst @ le_put 4 (le_get (take 4 src) XOR k32), drop 4 src) else (dst, src))"

definition mask_generic :: "bytes \<Rightarrow> bytes \<Rightarrow> byte \<Rightarrow> bytes" where
  "mask_generic src key0 offset =
    (let key = rotateMaskKey key0 offset;
         k32 = key32 key;
         k64 = key64 key;
         st = generic_blocks k64 src;
         st = generic_step 4 k64 st;
         st = generic_step 2 k64 st;
         st = generic_step 1 k64 st;
         (dst, rest) = generic_step4 k32 st
     in dst @ map (\<lambda>(i, v). v XOR key ! i) (enumerate 0 rest))"

lemma xor_words_mask:
  "length key = 4 \<Longrightarrow> 8 * c \<le> length src \<Longrightarrow>
     xor_words (key64 key) c src = mask_ref key 0 (take (8 * c) src)"
proof (induction c arbitrary: src)
  case 0
  then show ?case by simp
next
  case (Suc c)
  have "take (8 * Suc c) src = take 8 src @ take (8 * c) (drop 8 src)"
    using take_add [of 8 "8 * c" src] by simp
  then show ?case
    using Suc by (simp add: xor64_mask mask_ref_append4)
qed

text \<open>The loop invariant: the output is the masked prefix, and the prefix is whole words.\<close>

definition masked_split :: "bytes \<Rightarrow> bytes \<Rightarrow> bytes \<times> bytes \<Rightarrow> bool" where
  "masked_split key src = (\<lambda>(dst, rest).
     \<exists>p. src = p @ rest \<and> dst = mask_ref key 0 p \<and> 4 dvd length p)"

lemma masked_split_step:
  assumes "masked_split key src (dst, rest)" "n \<le> length rest" "4 dvd n"
    "bs = mask_ref key 0 (take n rest)"
  shows "masked_split key src (dst @ bs, drop n rest)"
proof -
  from assms(1) obtain p where p: "src = p @ rest" "dst = mask_ref key 0 p" "4 dvd length p"
    by (auto simp: masked_split_def)
  then have "dst @ bs = mask_ref key 0 (p @ take n rest)"
    using assms(4) by (simp add: mask_ref_append4)
  with p assms(2,3) show ?thesis
    unfolding masked_split_def by (auto intro!: exI [of _ "p @ take n rest"])
qed

lemma generic_blocks_split:
  "length key = 4 \<Longrightarrow> masked_split key src (generic_blocks (key64 key) src)"
proof (induction "key64 key" src rule: generic_blocks.induct)
  case (1 src)
  show ?case
  proof (cases "length src \<ge> 64")
    case True
    obtain dst rest where r: "generic_blocks (key64 key) (drop 64 src) = (dst, rest)"
      by (cases "generic_blocks (key64 key) (drop 64 src)")
    with "1.hyps" [OF True] "1.prems" obtain p where
      p: "drop 64 src = p @ rest" "dst = mask_ref key 0 p" "4 dvd length p"
      by (auto simp: masked_split_def)
    have "src = (take 64 src @ p) @ rest"
      using p(1) append_take_drop_id [of 64 src] by simp
    moreover have "xor_words (key64 key) 8 src @ dst = mask_ref key 0 (take 64 src @ p)"
      using xor_words_mask [of key 8 src] True "1.prems" p(2) by (simp add: mask_ref_append4)
    moreover have "4 dvd length (take 64 src @ p)" using True p(3) by simp
    ultimately have "masked_split key src (xor_words (key64 key) 8 src @ dst, rest)"
      unfolding masked_split_def by blast
    then show ?thesis
      using True r by (subst generic_blocks.simps) simp
  next
    case False
    then show ?thesis
      by (subst generic_blocks.simps) (simp add: masked_split_def)
  qed
qed

lemma generic_step_split:
  "length key = 4 \<Longrightarrow> masked_split key src st \<Longrightarrow> masked_split key src (generic_step c (key64 key) st)"
  by (cases st) (auto simp: generic_step_def xor_words_mask intro: masked_split_step)

lemma generic_step4_split:
  "length key = 4 \<Longrightarrow> masked_split key src st \<Longrightarrow> masked_split key src (generic_step4 (key32 key) st)"
  by (cases st) (auto simp: generic_step4_def xor32_mask intro: masked_split_step)

lemma generic_step_rest:
  "c > 0 \<Longrightarrow> length (snd st) < 16 * c \<Longrightarrow> length (snd (generic_step c k64 st)) < 8 * c"
  by (cases st) (auto simp: generic_step_def)

lemma generic_blocks_rest: "length (snd (generic_blocks k64 src)) < 64"
  by (induction k64 src rule: generic_blocks.induct)
     (subst generic_blocks.simps, auto split: prod.split)

lemma generic_step4_rest:
  "length (snd st) < 8 \<Longrightarrow> length (snd (generic_step4 k32 st)) < 4"
  by (cases st) (auto simp: generic_step4_def)

lemma mask_tail:
  "length rest \<le> 4 \<Longrightarrow> map (\<lambda>(i, v). v XOR key ! i) (enumerate 0 rest) = mask_ref key 0 rest"
  by (rule nth_equalityI) (auto simp: nth_mask_ref nth_enumerate_eq)

lemma mask_generic_ref:
  assumes "length key = 4"
  shows "mask_generic src key offset = mask_ref key (unat offset) src"
proof -
  let ?k = "rotateMaskKey key offset"
  define st where "st = generic_step 1 (key64 ?k) (generic_step 2 (key64 ?k)
     (generic_step 4 (key64 ?k) (generic_blocks (key64 ?k) src)))"
  have k: "length ?k = 4" using assms by simp
  obtain dst rest where dr: "generic_step4 (key32 ?k) st = (dst, rest)"
    by (cases "generic_step4 (key32 ?k) st")
  have "masked_split ?k src (dst, rest)"
    unfolding dr [symmetric] st_def
    by (intro generic_step4_split generic_step_split generic_blocks_split k)
  then obtain p where p: "src = p @ rest" "dst = mask_ref ?k 0 p" "4 dvd length p"
    by (auto simp: masked_split_def)
  have "length (snd st) < 8 * 1"
    unfolding st_def using generic_blocks_rest [of "key64 ?k" src]
      generic_step_rest [of 4 "generic_blocks (key64 ?k) src" "key64 ?k"]
      generic_step_rest [of 2 "generic_step 4 (key64 ?k) (generic_blocks (key64 ?k) src)" "key64 ?k"]
    by (intro generic_step_rest) simp_all
  then have "length rest < 4" using generic_step4_rest [of st "key32 ?k"] dr by simp
  then have "map (\<lambda>(i, v). v XOR ?k ! i) (enumerate 0 rest) = mask_ref ?k 0 rest"
    by (simp add: mask_tail)
  then have "mask_generic src key offset = mask_ref ?k 0 src"
    using p dr by (simp add: mask_generic_def Let_def st_def mask_ref_append4)
  then show ?thesis using assms by (simp add: mask_ref_rotate)
qed

section \<open>codec/mask_swar.go and codec/mask_simd.go\<close>

text \<open>
  The memory is one byte list, \<open>s\<close> and \<open>d\<close> the addresses of \<open>src[0]\<close> and \<open>dst[0]\<close>.
  \<open>xor_at\<close> is one load-xor-store statement of width \<open>w\<close> at index \<open>i\<close>,
  \<open>xor_run\<close> an unrolled sequence of them, \<open>loop64\<close> the 64-byte loop (eight words,
  or four vectors), \<open>step_if\<close> one of the guarded single steps that follow it.
\<close>

definition load :: "bytes \<Rightarrow> nat \<Rightarrow> nat \<Rightarrow> bytes option" where
  "load mem a w = (if a + w \<le> length mem then Some (take w (drop a mem)) else None)"

definition store :: "bytes \<Rightarrow> nat \<Rightarrow> bytes \<Rightarrow> bytes option" where
  "store mem a bs = (if a + length bs \<le> length mem then Some (put_at a bs mem) else None)"

definition xor_at :: "nat \<Rightarrow> (bytes \<Rightarrow> bytes) \<Rightarrow> nat \<Rightarrow> nat \<Rightarrow> nat \<Rightarrow> bytes \<Rightarrow> bytes option" where
  "xor_at w f s d i mem = Option.bind (load mem (s + i) w) (\<lambda>b. store mem (d + i) (f b))"

primrec xor_run :: "nat \<Rightarrow> (bytes \<Rightarrow> bytes) \<Rightarrow> nat \<Rightarrow> nat \<Rightarrow> nat \<Rightarrow> nat \<Rightarrow> bytes \<Rightarrow> bytes option" where
  "xor_run w f s d 0 i mem = Some mem"
| "xor_run w f s d (Suc c) i mem = Option.bind (xor_at w f s d i mem) (xor_run w f s d c (i + w))"

definition xor_u64 :: "u64 \<Rightarrow> bytes \<Rightarrow> bytes" where
  "xor_u64 k b = le_put 8 (le_get b XOR k)"

definition xor_u32 :: "u32 \<Rightarrow> bytes \<Rightarrow> bytes" where
  "xor_u32 k b = le_put 4 (le_get b XOR k)"

function loop64 :: "nat \<Rightarrow> (bytes \<Rightarrow> bytes) \<Rightarrow> nat \<Rightarrow> nat \<Rightarrow> nat \<Rightarrow> nat \<Rightarrow> nat \<Rightarrow> bytes \<Rightarrow> (nat \<times> bytes) option" where
  "loop64 w f c s d n i mem =
    (if i + 64 \<le> n
     then Option.bind (xor_run w f s d c i mem) (loop64 w f c s d n (i + 64))
     else Some (i, mem))"
  by pat_completeness auto
termination
  by (relation "measure (\<lambda>(w, f, c, s, d, n, i, mem). n - i)") auto

declare loop64.simps [simp del]

definition step_if :: "nat \<Rightarrow> (bytes \<Rightarrow> bytes) \<Rightarrow> nat \<Rightarrow> nat \<Rightarrow> nat \<Rightarrow> nat \<Rightarrow> nat \<times> bytes \<Rightarrow> (nat \<times> bytes) option" where
  "step_if w f c s d n = (\<lambda>(i, mem).
    if i + w * c \<le> n
    then map_option (\<lambda>m. (i + w * c, m)) (xor_run w f s d c i mem)
    else Some (i, mem))"

function byte_tail :: "bytes \<Rightarrow> nat \<Rightarrow> nat \<Rightarrow> nat \<Rightarrow> nat \<Rightarrow> bytes \<Rightarrow> bytes option" where
  "byte_tail key s d n i mem =
    (if i < n
     then Option.bind (xor_at 1 (\<lambda>b. [b ! 0 XOR key ! (i mod 4)]) s d i mem) (byte_tail key s d n (i + 1))
     else Some mem)"
  by pat_completeness auto
termination
  by (relation "measure (\<lambda>(key, s, d, n, i, mem). n - i)") auto

declare byte_tail.simps [simp del]

definition swar_finish :: "bytes \<Rightarrow> nat \<Rightarrow> nat \<Rightarrow> nat \<Rightarrow> nat \<times> bytes \<Rightarrow> bytes option" where
  "swar_finish key s d n st =
    Option.bind (step_if 8 (xor_u64 (key64 key)) 4 s d n st) (\<lambda>st.
    Option.bind (step_if 8 (xor_u64 (key64 key)) 2 s d n st) (\<lambda>st.
    Option.bind (step_if 8 (xor_u64 (key64 key)) 1 s d n st) (\<lambda>st.
    Option.bind (step_if 4 (xor_u32 (key32 key)) 1 s d n st) (\<lambda>(i, mem).
      byte_tail key s d n i mem))))"

definition mask_swar :: "bytes \<Rightarrow> byte \<Rightarrow> nat \<Rightarrow> nat \<Rightarrow> nat \<Rightarrow> bytes \<Rightarrow> bytes option" where
  "mask_swar key0 offset d s n mem =
    (let key = rotateMaskKey key0 offset
     in Option.bind (loop64 8 (xor_u64 (key64 key)) 8 s d n 0 mem) (swar_finish key s d n))"

definition simdMin :: nat where "simdMin = 1024"

definition xor_u8x16 :: "bytes \<Rightarrow> bytes \<Rightarrow> bytes" where
  "xor_u8x16 vkey b = map2 (XOR) b vkey"

definition mask_simd :: "bytes \<Rightarrow> byte \<Rightarrow> nat \<Rightarrow> nat \<Rightarrow> nat \<Rightarrow> bytes \<Rightarrow> bytes option" where
  "mask_simd key0 offset d s n mem =
    (let key = rotateMaskKey key0 offset;
         vkey = le_put 8 (key64 key) @ le_put 8 (key64 key)
     in Option.bind (if n \<ge> simdMin then loop64 16 (xor_u8x16 vkey) 4 s d n 0 mem else Some (0, mem)) (\<lambda>(i, mem).
        Option.bind (loop64 8 (xor_u64 (key64 key)) 8 s d n i mem) (swar_finish key s d n)))"

text \<open>
  Both regions lie inside the memory, and they are the same region or disjoint ones:
  \<open>Mask\<close> masks in place, the encoder masks into its scratch.
\<close>

definition regions_ok :: "nat \<Rightarrow> nat \<Rightarrow> nat \<Rightarrow> bytes \<Rightarrow> bool" where
  "regions_ok d s n mem \<longleftrightarrow> s + n \<le> length mem \<and> d + n \<le> length mem \<and>
     (s = d \<or> s + n \<le> d \<or> d + n \<le> s)"

definition masked_upto :: "bytes \<Rightarrow> nat \<Rightarrow> nat \<Rightarrow> nat \<Rightarrow> bytes \<Rightarrow> bytes" where
  "masked_upto key d s i mem = put_at d (mask_ref key 0 (take i (drop s mem))) mem"

lemma regions_okD:
  assumes "regions_ok d s n mem"
  shows "s + n \<le> length mem" "d + n \<le> length mem" "s = d \<or> s + n \<le> d \<or> d + n \<le> s"
  using assms by (auto simp: regions_ok_def)

lemma regions_take [simp]:
  "regions_ok d s n mem \<Longrightarrow> i \<le> n \<Longrightarrow> min (length mem - s) i = i"
  "regions_ok d s n mem \<Longrightarrow> i + w \<le> n \<Longrightarrow> min (length mem - (s + i)) w = w"
  by (auto simp: regions_ok_def min_def)

lemma regions_put [simp]:
  "regions_ok d s n mem \<Longrightarrow> i \<le> n \<Longrightarrow> d + i \<le> length mem"
  by (auto simp: regions_ok_def)

lemma length_masked_upto [simp]:
  "regions_ok d s n mem \<Longrightarrow> i \<le> n \<Longrightarrow> length (masked_upto key d s i mem) = length mem"
  by (simp add: masked_upto_def)

lemma nth_masked_upto:
  "regions_ok d s n mem \<Longrightarrow> i \<le> n \<Longrightarrow> j < length mem \<Longrightarrow> j < d \<or> d + i \<le> j \<Longrightarrow>
     masked_upto key d s i mem ! j = mem ! j"
  by (auto simp: masked_upto_def nth_put_at)

lemma masked_upto_0 [simp]: "masked_upto key d s 0 mem = mem"
  by (simp add: masked_upto_def)

lemma load_masked_upto:
  assumes ok: "regions_ok d s n mem" and i: "i + w \<le> n"
  shows "load (masked_upto key d s i mem) (s + i) w = Some (take w (drop (s + i) mem))"
proof -
  have len: "length (masked_upto key d s i mem) = length mem" using ok i by simp
  have bound: "s + i + w \<le> length mem" using regions_okD(1) [OF ok] i by simp
  have "take w (drop (s + i) (masked_upto key d s i mem)) ! j = take w (drop (s + i) mem) ! j"
    if "j < w" for j
  proof -
    have "s + i + j < d \<or> d + i \<le> s + i + j" using regions_okD(3) [OF ok] i that by auto
    then show ?thesis
      using that bound i nth_masked_upto [OF ok, of i "s + i + j" key] by (simp add: len)
  qed
  then have "take w (drop (s + i) (masked_upto key d s i mem)) = take w (drop (s + i) mem)"
    using bound by (intro nth_equalityI) (auto simp: len)
  then show ?thesis
    using bound by (simp add: load_def len)
qed

lemma xor_at_masked:
  assumes ok: "regions_ok d s n mem" and i: "i + w \<le> n"
    and f: "\<And>b. length b = w \<Longrightarrow> f b = mask_ref key i b"
  shows "xor_at w f s d i (masked_upto key d s i mem) = Some (masked_upto key d s (i + w) mem)"
proof -
  let ?b = "take w (drop (s + i) mem)"
  have b: "length ?b = w" using ok i by simp
  have len: "length (mask_ref key 0 (take i (drop s mem))) = i" using ok i by simp
  have "mask_ref key 0 (take (i + w) (drop s mem))
      = mask_ref key 0 (take i (drop s mem)) @ mask_ref key i ?b"
    using ok i by (simp add: take_add mask_ref_append add.commute)
  moreover have "put_at (d + i) (mask_ref key i ?b) (masked_upto key d s i mem)
      = put_at d (mask_ref key 0 (take i (drop s mem)) @ mask_ref key i ?b) mem"
    unfolding masked_upto_def using ok i
      put_at_put_at [of d "mask_ref key 0 (take i (drop s mem))" "mask_ref key i ?b" mem]
    by (auto simp: len dest: regions_okD)
  ultimately have "put_at (d + i) (f ?b) (masked_upto key d s i mem) = masked_upto key d s (i + w) mem"
    using f [OF b] by (simp add: masked_upto_def)
  moreover have "d + i + w \<le> length mem" using regions_okD [OF ok] i by simp
  ultimately show ?thesis
    using ok i f [OF b] b by (simp add: xor_at_def load_masked_upto store_def)
qed

lemma xor_run_masked:
  assumes ok: "regions_ok d s n mem" and w: "4 dvd w"
    and f: "\<And>b. length b = w \<Longrightarrow> f b = mask_ref key 0 b"
  shows "4 dvd i \<Longrightarrow> i + w * c \<le> n \<Longrightarrow>
    xor_run w f s d c i (masked_upto key d s i mem) = Some (masked_upto key d s (i + w * c) mem)"
proof (induction c arbitrary: i)
  case 0
  then show ?case by simp
next
  case (Suc c)
  have "mask_ref key i b = mask_ref key 0 b" for b
    using Suc.prems(1) by (intro mask_ref_mod) auto
  then have "xor_at w f s d i (masked_upto key d s i mem) = Some (masked_upto key d s (i + w) mem)"
    using Suc.prems f by (intro xor_at_masked [OF ok]) auto
  with Suc w show ?case by (simp add: algebra_simps)
qed

lemma loop64_masked:
  assumes ok: "regions_ok d s n mem" and w: "4 dvd w" "w * c = 64"
    and f: "\<And>b. length b = w \<Longrightarrow> f b = mask_ref key 0 b"
  shows "4 dvd i \<Longrightarrow> i \<le> n \<Longrightarrow>
    \<exists>j. loop64 w f c s d n i (masked_upto key d s i mem) = Some (j, masked_upto key d s j mem)
      \<and> 4 dvd j \<and> j \<le> n"
proof (induction "n - i" arbitrary: i rule: less_induct)
  case less
  show ?case
  proof (cases "i + 64 \<le> n")
    case True
    then have "xor_run w f s d c i (masked_upto key d s i mem) = Some (masked_upto key d s (i + 64) mem)"
      using xor_run_masked [OF ok w(1) f less.prems(1), of c] w(2) by simp
    moreover have "4 dvd i + 64" using less.prems(1) by simp
    ultimately show ?thesis
      using True less.hyps [of "i + 64"] by (subst loop64.simps) auto
  next
    case False
    with less.prems show ?thesis by (subst loop64.simps) auto
  qed
qed

lemma step_if_masked:
  assumes ok: "regions_ok d s n mem" and w: "4 dvd w"
    and f: "\<And>b. length b = w \<Longrightarrow> f b = mask_ref key 0 b" and i: "4 dvd i" "i \<le> n"
  shows "\<exists>j. step_if w f c s d n (i, masked_upto key d s i mem) = Some (j, masked_upto key d s j mem)
      \<and> 4 dvd j \<and> j \<le> n"
  using xor_run_masked [OF ok w f i(1), of c] i w by (auto simp: step_if_def)

lemma byte_tail_masked:
  assumes ok: "regions_ok d s n mem"
  shows "i \<le> n \<Longrightarrow> byte_tail key s d n i (masked_upto key d s i mem) = Some (masked_upto key d s n mem)"
proof (induction "n - i" arbitrary: i rule: less_induct)
  case less
  show ?case
  proof (cases "i < n")
    case True
    have "[b ! 0 XOR key ! (i mod 4)] = mask_ref key i b" if "length b = 1" for b
      using that by (cases b) auto
    then have "xor_at 1 (\<lambda>b. [b ! 0 XOR key ! (i mod 4)]) s d i (masked_upto key d s i mem)
        = Some (masked_upto key d s (i + 1) mem)"
      using True by (intro xor_at_masked [OF ok]) auto
    with True less.hyps [of "i + 1"] show ?thesis by (subst byte_tail.simps) simp
  next
    case False
    with less.prems show ?thesis by (subst byte_tail.simps) simp
  qed
qed

lemma xor_u64_mask: "length key = 4 \<Longrightarrow> length b = 8 \<Longrightarrow> xor_u64 (key64 key) b = mask_ref key 0 b"
  by (simp add: xor_u64_def xor64_mask)

lemma xor_u32_mask: "length key = 4 \<Longrightarrow> length b = 4 \<Longrightarrow> xor_u32 (key32 key) b = mask_ref key 0 b"
  by (simp add: xor_u32_def xor32_mask)

lemma xor_u8x16_mask:
  assumes "length key = 4" "length b = 16"
  shows "xor_u8x16 (le_put 8 (key64 key) @ le_put 8 (key64 key)) b = mask_ref key 0 b"
proof -
  have "(((key @ key) @ (key @ key)) ! i) = key ! (i mod 4)" if "i < 16" for i
    using assms(1) that nth_dup_key [of key i] nth_dup_key [of key "i - 8"]
    by (cases "i < 8") (auto simp: nth_append mod_if)
  then show ?thesis
    using assms by (simp add: xor_u8x16_def key64_put map2_xor_mask_ref)
qed

lemma swar_finish_masked:
  assumes ok: "regions_ok d s n mem" and k: "length key = 4" and i: "4 dvd i" "i \<le> n"
  shows "swar_finish key s d n (i, masked_upto key d s i mem) = Some (masked_upto key d s n mem)"
proof -
  have 8: "4 dvd (8::nat)" "4 dvd (4::nat)" by simp_all
  note step64 = step_if_masked [OF ok 8(1) xor_u64_mask [OF k]]
  obtain i1 where 1: "step_if 8 (xor_u64 (key64 key)) 4 s d n (i, masked_upto key d s i mem)
      = Some (i1, masked_upto key d s i1 mem)" "4 dvd i1" "i1 \<le> n"
    using step64 [OF _ i] by blast
  obtain i2 where 2: "step_if 8 (xor_u64 (key64 key)) 2 s d n (i1, masked_upto key d s i1 mem)
      = Some (i2, masked_upto key d s i2 mem)" "4 dvd i2" "i2 \<le> n"
    using step64 [OF _ 1(2,3)] by blast
  obtain i3 where 3: "step_if 8 (xor_u64 (key64 key)) 1 s d n (i2, masked_upto key d s i2 mem)
      = Some (i3, masked_upto key d s i3 mem)" "4 dvd i3" "i3 \<le> n"
    using step64 [OF _ 2(2,3)] by blast
  obtain i4 where 4: "step_if 4 (xor_u32 (key32 key)) 1 s d n (i3, masked_upto key d s i3 mem)
      = Some (i4, masked_upto key d s i4 mem)" "i4 \<le> n"
    using step_if_masked [OF ok 8(2) xor_u32_mask [OF k] 3(2,3)] by blast
  show ?thesis
    using 1 2 3 4 byte_tail_masked [OF ok 4(2), of key] by (simp add: swar_finish_def)
qed

lemma loop64_u64_masked:
  assumes "regions_ok d s n mem" "length key = 4" "4 dvd i" "i \<le> n"
  shows "\<exists>j. loop64 8 (xor_u64 (key64 key)) 8 s d n i (masked_upto key d s i mem)
      = Some (j, masked_upto key d s j mem) \<and> 4 dvd j \<and> j \<le> n"
  using assms by (intro loop64_masked) (auto simp: xor_u64_mask)

lemma mask_swar_ref:
  assumes ok: "regions_ok d s n mem" and k: "length key = 4"
  shows "mask_swar key offset d s n mem
    = Some (put_at d (mask_ref key (unat offset) (take n (drop s mem))) mem)"
proof -
  let ?k = "rotateMaskKey key offset"
  have k': "length ?k = 4" using k by simp
  obtain j where "loop64 8 (xor_u64 (key64 ?k)) 8 s d n 0 mem = Some (j, masked_upto ?k d s j mem)"
      "4 dvd j" "j \<le> n"
    using loop64_u64_masked [OF ok k', of 0] by auto
  then show ?thesis
    using swar_finish_masked [OF ok k', of j] k
    by (simp add: mask_swar_def Let_def masked_upto_def mask_ref_rotate)
qed

lemma mask_simd_ref:
  assumes ok: "regions_ok d s n mem" and k: "length key = 4"
  shows "mask_simd key offset d s n mem
    = Some (put_at d (mask_ref key (unat offset) (take n (drop s mem))) mem)"
proof -
  let ?k = "rotateMaskKey key offset"
  let ?v = "le_put 8 (key64 ?k) @ le_put 8 (key64 ?k)"
  let ?first = "if n \<ge> simdMin then loop64 16 (xor_u8x16 ?v) 4 s d n 0 mem else Some (0, mem)"
  have k': "length ?k = 4" using k by simp
  have "\<exists>i. loop64 16 (xor_u8x16 ?v) 4 s d n 0 (masked_upto ?k d s 0 mem)
      = Some (i, masked_upto ?k d s i mem) \<and> 4 dvd i \<and> i \<le> n"
    using ok k' by (intro loop64_masked) (auto simp: xor_u8x16_mask)
  then obtain i where i: "?first = Some (i, masked_upto ?k d s i mem)" "4 dvd i" "i \<le> n"
    by (cases "n \<ge> simdMin") auto
  then obtain j where
    "loop64 8 (xor_u64 (key64 ?k)) 8 s d n i (masked_upto ?k d s i mem) = Some (j, masked_upto ?k d s j mem)"
    "4 dvd j" "j \<le> n"
    using loop64_u64_masked [OF ok k' i(2,3)] by auto
  then show ?thesis
    using swar_finish_masked [OF ok k', of j] k i(1)
    by (simp add: mask_simd_def Let_def masked_upto_def mask_ref_rotate)
qed

section \<open>The contract of the three kernels\<close>

text \<open>What \<open>codec\<close> relies on: an in-place kernel never faults and computes the reference.\<close>

locale mask_impl =
  fixes mask :: "bytes \<Rightarrow> bytes \<Rightarrow> byte \<Rightarrow> bytes option"
  assumes mask_correct:
    "length key = 4 \<Longrightarrow> mask src key offset = Some (mask_ref key (unat offset) src)"
begin

lemma mask_involution:
  "length key = 4 \<Longrightarrow> mask src key offset = Some dst \<Longrightarrow> mask dst key offset = Some src"
  by (auto simp: mask_correct)

lemma mask_chunks:
  assumes "length key = 4" "unat offset' mod 4 = (unat offset + length xs) mod 4"
    and "mask xs key offset = Some dx" "mask ys key offset' = Some dy"
  shows "mask (xs @ ys) key offset = Some (dx @ dy)"
  using assms by (auto simp: mask_correct mask_ref_append intro: mask_ref_mod)

end

interpretation generic: mask_impl "\<lambda>src key offset. Some (mask_generic src key offset)"
  by unfold_locales (simp add: mask_generic_ref)

lemma in_place_ok: "regions_ok 0 0 (length src) src"
  by (simp add: regions_ok_def)

interpretation swar: mask_impl "\<lambda>src key offset. mask_swar key offset 0 0 (length src) src"
  by unfold_locales (simp add: mask_swar_ref [OF in_place_ok] put_at_0)

interpretation simd: mask_impl "\<lambda>src key offset. mask_simd key offset 0 0 (length src) src"
  by unfold_locales (simp add: mask_simd_ref [OF in_place_ok] put_at_0)

section \<open>codec.Mask\<close>

text \<open>The masked payload and the next offset modulo four.\<close>

definition Mask :: "bytes \<Rightarrow> bytes \<Rightarrow> byte \<Rightarrow> bytes \<times> byte" where
  "Mask payload key offset =
    (mask_generic payload key offset, (offset + of_nat (length payload mod 4)) AND 3)"

lemma Mask_ref:
  "length key = 4 \<Longrightarrow> fst (Mask payload key offset) = mask_ref key (unat offset) payload"
  by (simp add: Mask_def mask_generic_ref)

lemma Mask_offset: "unat (snd (Mask payload key offset)) = (unat offset + length payload) mod 4"
proof -
  have "unat (of_nat (length payload mod 4) :: byte) = length payload mod 4"
    by (rule unat_of_nat_small) (simp add: less_trans [of _ 4])
  then show ?thesis
    by (simp add: Mask_def unat_plus_and_3 mod_simps)
qed

section \<open>Properties\<close>

text \<open>C34: Every byte of a masked payload is the source byte combined with the key byte at
  the same stream position modulo four, counted from the offset (RFC 6455 5.3), and nothing
  is added or lost, whatever the mix of 64-, 32-, 16-, 8-, 4- and 1-byte steps.\<close>

theorem mask_bytes:
  assumes "length key = 4"
  shows "length (mask_generic src key offset) = length src
    \<and> (\<forall>i < length src. mask_generic src key offset ! i = src ! i XOR key ! ((unat offset + i) mod 4))"
  using assms by (simp_all add: mask_generic_ref nth_mask_ref)

theorem mask_bytes_witness:
  "mask_generic [1, 2, 3, 4, 5] [0x10, 0x20, 0x30, 0x40] 1 ! 3 = 4 XOR 0x10"
  using mask_bytes [of "[0x10, 0x20, 0x30, 0x40]" "[1, 2, 3, 4, 5]" 1] by simp

text \<open>C22: The two pointer kernels compute what the portable kernel computes: masking
  \<open>n\<close> bytes at address \<open>s\<close> into address \<open>d\<close> never touches memory outside the two
  regions' memory, writes exactly the masked bytes at \<open>d\<close>, and leaves every other byte
  alone, both in place and into a disjoint destination.\<close>

theorem mask_kernels_agree:
  assumes "regions_ok d s n mem" "length key = 4"
  shows "mask_swar key offset d s n mem = Some (put_at d (mask_generic (take n (drop s mem)) key offset) mem)
    \<and> mask_simd key offset d s n mem = Some (put_at d (mask_generic (take n (drop s mem)) key offset) mem)"
  using assms by (simp add: mask_swar_ref mask_simd_ref mask_generic_ref)

theorem mask_kernels_agree_witness:
  "mask_swar [1, 2, 3, 4] 0 0 0 5 [9, 9, 9, 9, 9, 7]
     = Some (put_at 0 (mask_generic [9, 9, 9, 9, 9] [1, 2, 3, 4] 0) [9, 9, 9, 9, 9, 7])"
  using mask_kernels_agree [of 0 0 5 "[9, 9, 9, 9, 9, 7]" "[1, 2, 3, 4]" 0]
  by (simp add: regions_ok_def)

text \<open>C33: Masking a stream in pieces, carrying the offset \<open>Mask\<close> returns from one piece to
  the next, is masking the concatenation, and masking again with the same offsets gives the
  stream back.\<close>

theorem Mask_stream:
  assumes "length key = 4" "Mask xs key offset = (mx, o1)" "Mask ys key o1 = (my, o2)"
  shows "Mask (xs @ ys) key offset = (mx @ my, o2) \<and> fst (Mask mx key offset) = xs"
proof -
  have o1: "unat o1 = (unat offset + length xs) mod 4" and o2: "unat o2 = (unat o1 + length ys) mod 4"
    using Mask_offset [of xs key offset] Mask_offset [of ys key o1] assms by auto
  have m: "mx = mask_ref key (unat offset) xs" "my = mask_ref key (unat o1) ys"
    using Mask_ref [of key xs offset] Mask_ref [of key ys o1] assms by auto
  have "fst (Mask (xs @ ys) key offset) = mx @ my"
    using m o1 mask_ref_mod [of "unat o1" "unat offset + length xs" key ys] assms(1)
    by (simp add: Mask_ref mask_ref_append)
  moreover have "snd (Mask (xs @ ys) key offset) = o2"
    using o1 o2 by (simp add: word_unat_eq_iff Mask_offset mod_simps add.assoc)
  moreover have "fst (Mask mx key offset) = xs"
    using m assms(1) by (simp add: Mask_ref)
  ultimately show ?thesis by (simp add: prod_eq_iff)
qed

theorem Mask_stream_witness:
  "Mask ([1, 2, 3] @ [4, 5]) [7, 7, 8, 9] 2
     = (fst (Mask [1, 2, 3] [7, 7, 8, 9] 2) @ fst (Mask [4, 5] [7, 7, 8, 9] 1), 3)"
proof -
  let ?key = "[7, 7, 8, 9] :: bytes"
  have "Mask [1, 2, 3] ?key 2 = (fst (Mask [1, 2, 3] ?key 2), 1)"
    and "Mask [4, 5] ?key 1 = (fst (Mask [4, 5] ?key 1), 3)"
    by (simp_all add: Mask_def)
  from Mask_stream [OF _ this] show ?thesis by simp
qed

end
