(* ===== verification/Encoder.thy ===== *)
theory Encoder
  imports Header Mask
begin

text \<open>
  The frame encoder, \<^verbatim>\<open>src/codec/encoder.go\<close>. An encoder keeps the last frame (header and
  payload) and the scratch it masks into; \<open>Encode\<close> and \<open>EncodeCompressed\<close> return the
  error, if any, with the encoder after the call. The capacity the runtime gives a grown
  scratch is the parameter \<open>gc\<close> (old capacity and needed length to new capacity): the
  language only promises that it is large enough.
\<close>

datatype codec_error =
    ErrInvalidOpcode
  | ErrInvalidControlFrame
  | ErrInvalidCompressedFrame
  | ErrPayloadPending
  | ErrInvalidPayloadLength

record encoder =
  ScratchKeep :: int
  enc_h :: header
  enc_payload :: bytes
  enc_scratch :: bytes
  enc_cap :: nat

definition zero_encoder :: encoder where
  "zero_encoder = \<lparr>ScratchKeep = 0, enc_h = zero_header, enc_payload = [], enc_scratch = [], enc_cap = 0\<rparr>"

definition enc_Reset :: "encoder \<Rightarrow> encoder" where
  "enc_Reset e = e\<lparr>enc_h := zero_header, enc_payload := [], enc_scratch := []\<rparr>"

definition HeaderBytes :: "encoder \<Rightarrow> bytes" where
  "HeaderBytes e = Bytes (enc_h e)"

definition PayloadBytes :: "encoder \<Rightarrow> bytes" where
  "PayloadBytes e = enc_payload e"

definition check_frame :: "bool \<Rightarrow> opcode \<Rightarrow> bytes \<Rightarrow> codec_error option" where
  "check_frame final opcode payload =
    (if opcode = Continuation \<or> opcode = Text \<or> opcode = Binary then None
     else if opcode = Close \<or> opcode = Ping \<or> opcode = Pong then
       (if \<not> final \<or> length payload > 125 \<or> opcode = Close \<and> length payload = 1
        then Some ErrInvalidControlFrame else None)
     else Some ErrInvalidOpcode)"

definition encode_header :: "bool \<Rightarrow> opcode \<Rightarrow> nat \<Rightarrow> bytes option \<Rightarrow> header" where
  "encode_header final opcode n key =
    (let r0 = (replicate MaxHeaderSize 0)[0 := opcode];
         r1 = (if final then r0[0 := r0 ! 0 OR 0x80] else r0);
         (r2, l) =
           (if n \<le> 125 then (r1[1 := of_nat n], 2)
            else if n \<le> 65535 then (put_at 2 (be_put 2 (of_nat n :: u16)) (r1[1 := 126]), 4)
            else (put_at 2 (be_put 8 (of_nat n :: u64)) (r1[1 := 127]), 10))
     in case key of
          None \<Rightarrow> \<lparr>raw = r2, hlen = l\<rparr>
        | Some k \<Rightarrow>
            (let r3 = put_at (unat l) k r2
             in \<lparr>raw = r3[1 := r3 ! 1 OR 0x80], hlen = l + 4\<rparr>))"

definition Encode ::
    "(nat \<Rightarrow> nat \<Rightarrow> nat) \<Rightarrow> bool \<Rightarrow> opcode \<Rightarrow> bytes \<Rightarrow> bytes option \<Rightarrow> encoder
     \<Rightarrow> codec_error option \<times> encoder" where
  "Encode gc final opcode payload key e =
    (case check_frame final opcode payload of
       Some err \<Rightarrow> (Some err, e)
     | None \<Rightarrow>
        (let h = encode_header final opcode (length payload) key
         in case key of
              None \<Rightarrow> (None, e\<lparr>enc_payload := payload, enc_h := h\<rparr>)
            | Some k \<Rightarrow>
               (let keep = ScratchKeep e;
                    cap = (if keep \<noteq> 0 \<and> int (enc_cap e) > keep \<and> int (length payload) \<le> keep
                           then 0 else enc_cap e);
                    cap' = (if length payload \<le> cap then cap else gc cap (length payload));
                    s = mask_generic payload k 0
                in (None, e\<lparr>enc_scratch := s, enc_cap := cap', enc_payload := s, enc_h := h\<rparr>))))"

definition EncodeCompressed ::
    "(nat \<Rightarrow> nat \<Rightarrow> nat) \<Rightarrow> bool \<Rightarrow> opcode \<Rightarrow> bytes \<Rightarrow> bytes option \<Rightarrow> encoder
     \<Rightarrow> codec_error option \<times> encoder" where
  "EncodeCompressed gc final opcode payload key e =
    (if opcode \<noteq> Text \<and> opcode \<noteq> Binary \<and> opcode \<noteq> Continuation
     then (Some ErrInvalidCompressedFrame, e)
     else case Encode gc final opcode payload key e of
            (Some err, e') \<Rightarrow> (Some err, e')
          | (None, e') \<Rightarrow>
              (None, if opcode \<noteq> Continuation
                     then e'\<lparr>enc_h := (enc_h e')\<lparr>raw := (raw (enc_h e'))[0 := raw (enc_h e') ! 0 OR 0x40]\<rparr>\<rparr>
                     else e'))"

section \<open>Encoded headers follow the wire format\<close>

definition fin_bit :: "bool \<Rightarrow> byte" where
  "fin_bit final = (if final then 0x80 else 0)"

lemma replicate_14: "replicate 14 x = x # x # replicate 12 x"
  by (simp add: numeral_eq_Suc)

lemma encode_header_wire:
  assumes "key_ok key"
  shows "header_of (opcode OR fin_bit final) n key (encode_header final opcode n key)"
proof -
  let ?b0 = "opcode OR fin_bit final"
  let ?h = "encode_header final opcode n key"
  let ?j = "12 - length (len_ext n) - length (key_bytes key)"
  have "raw ?h = wire_header ?b0 n key @ replicate ?j 0"
    using assms
    by (cases key)
       (auto simp: encode_header_def MaxHeaderSize_def replicate_14 fin_bit_def put_at_def
          wire_header_def len_code_def len_ext_def mask_bit_def Let_def)
  moreover have "hlen ?h = of_nat (length (wire_header ?b0 n key))"
    using assms
    by (cases key) (auto simp: encode_header_def wire_header_def length_len_ext Let_def)
  ultimately show ?thesis unfolding header_of_def by blast
qed

lemma Encode_ok:
  assumes "check_frame final opcode payload = None" "key_ok key"
  shows "fst (Encode gc final opcode payload key e) = None"
    "header_of (opcode OR fin_bit final) (length payload) key (enc_h (snd (Encode gc final opcode payload key e)))"
    "PayloadBytes (snd (Encode gc final opcode payload key e))
       = (case key of None \<Rightarrow> payload | Some k \<Rightarrow> mask_ref k 0 payload)"
  using assms encode_header_wire [OF assms(2)]
  by (cases key; simp add: Encode_def PayloadBytes_def Let_def mask_generic_ref)+

lemma Encode_error:
  "check_frame final opcode payload = Some err \<Longrightarrow> Encode gc final opcode payload key e = (Some err, e)"
  by (simp add: Encode_def)

definition rsv1_bit :: "opcode \<Rightarrow> byte" where
  "rsv1_bit opcode = (if opcode = Continuation then 0 else 0x40)"

lemma EncodeCompressed_ok:
  assumes "opcode = Text \<or> opcode = Binary \<or> opcode = Continuation" "key_ok key"
    and r_def: "r = EncodeCompressed gc final opcode payload key e"
  shows "fst r = None"
    "header_of (opcode OR fin_bit final OR rsv1_bit opcode) (length payload) key (enc_h (snd r))"
    "PayloadBytes (snd r) = (case key of None \<Rightarrow> payload | Some k \<Rightarrow> mask_ref k 0 payload)"
proof -
  have c: "check_frame final opcode payload = None" using assms(1) by (auto simp: check_frame_def)
  let ?p = "Encode gc final opcode payload key e"
  note ok = Encode_ok [OF c assms(2), of gc e]
  have p: "?p = (None, snd ?p)" using ok(1) by (metis prod.collapse)
  have r: "r = (None, if opcode \<noteq> Continuation
       then (snd ?p)\<lparr>enc_h := (enc_h (snd ?p))\<lparr>raw := (raw (enc_h (snd ?p)))[0 := raw (enc_h (snd ?p)) ! 0 OR 0x40]\<rparr>\<rparr>
       else snd ?p)"
    using assms(1) unfolding r_def EncodeCompressed_def by (subst p) auto
  show "fst r = None" by (simp add: r)
  show "PayloadBytes (snd r) = (case key of None \<Rightarrow> payload | Some k \<Rightarrow> mask_ref k 0 payload)"
    using ok(3) by (auto simp: r PayloadBytes_def)
  show "header_of (opcode OR fin_bit final OR rsv1_bit opcode) (length payload) key (enc_h (snd r))"
    using ok(2) by (auto simp: r rsv1_bit_def header_of_def wire_header_def or.assoc)
qed

end
