(* ===== verification/Decoder.thy ===== *)
theory Decoder
  imports Encoder
begin

text \<open>
  The incremental frame decoder, \<^verbatim>\<open>src/codec/decoder.go\<close>: fed bytes accumulate in
  \<open>pending\<close>, \<open>NextHeaderInto\<close> cuts a header off the front once it is complete, and
  \<open>PayloadN\<close> hands out the announced payload. Slices are values here: the decoder never
  writes to bytes it has handed out, and a fed buffer is borrowed only until \<open>Preserve\<close>.
\<close>

record decoder =
  pending :: bytes
  dec_scratch :: bytes
  remaining :: u64

definition zero_decoder :: decoder where
  "zero_decoder = \<lparr>pending = [], dec_scratch = [], remaining = 0\<rparr>"

definition dec_Reset :: "decoder \<Rightarrow> decoder" where
  "dec_Reset d = \<lparr>pending = [], dec_scratch = [], remaining = 0\<rparr>"

definition Buffered :: "decoder \<Rightarrow> nat" where
  "Buffered d = length (pending d)"

definition Feed :: "bytes \<Rightarrow> decoder \<Rightarrow> decoder" where
  "Feed b d =
    (if length b = 0 then d
     else if length (pending d) = 0 then d\<lparr>pending := b\<rparr>
     else (let s = pending d @ b in d\<lparr>dec_scratch := s, pending := s\<rparr>))"

definition Preserve :: "decoder \<Rightarrow> decoder" where
  "Preserve d =
    (if length (pending d) = 0 then d
     else d\<lparr>dec_scratch := pending d, pending := pending d\<rparr>)"

definition header_size :: "byte \<Rightarrow> nat" where
  "header_size b1 =
    2 + (let lengthCode = b1 AND 0x7f in if lengthCode = 126 then 2 else if lengthCode = 127 then 8 else 0)
      + (if b1 AND 0x80 \<noteq> 0 then 4 else 0)"

definition NextHeaderInto :: "header \<Rightarrow> decoder \<Rightarrow> (codec_error + bool) \<times> header \<times> decoder" where
  "NextHeaderInto h d =
    (if remaining d \<noteq> 0 then (Inl ErrPayloadPending, h, d)
     else if length (pending d) < 2 then (Inr False, h, d)
     else
       (let lengthCode = pending d ! 1 AND 0x7f;
            n = header_size (pending d ! 1)
        in if length (pending d) < n then (Inr False, h, d)
           else
             (let h' = \<lparr>raw = put_at 0 (take n (pending d)) (raw h), hlen = of_nat n\<rparr>;
                  rem = PayloadLen h'
              in if lengthCode = 126 \<and> rem < 126
                    \<or> lengthCode = 127 \<and> (rem < 65536 \<or> drop_bit 63 rem \<noteq> 0)
                 then (Inl ErrInvalidPayloadLength, zero_header, d)
                 else (Inr True, h', d\<lparr>pending := drop n (pending d), remaining := rem\<rparr>))))"

definition NextHeader :: "decoder \<Rightarrow> (codec_error + bool) \<times> header \<times> decoder" where
  "NextHeader d = NextHeaderInto zero_header d"

definition PayloadN :: "int \<Rightarrow> decoder \<Rightarrow> (bytes \<times> bool) \<times> decoder" where
  "PayloadN n d =
    (if remaining d = 0 then (([], True), d)
     else if n \<le> 0 \<or> length (pending d) = 0 then (([], False), d)
     else
       (let m = min (min (nat n) (length (pending d))) (unat (remaining d));
            rem = remaining d - of_nat m
        in ((take m (pending d), rem = 0), d\<lparr>pending := drop m (pending d), remaining := rem\<rparr>)))"

definition Payload :: "decoder \<Rightarrow> (bytes \<times> bool) \<times> decoder" where
  "Payload d = PayloadN (int (length (pending d))) d"

section \<open>Headers\<close>

lemma pending_Feed [simp]: "pending (Feed b d) = pending d @ b"
  by (auto simp: Feed_def Let_def)

lemma remaining_Feed [simp]: "remaining (Feed b d) = remaining d"
  by (auto simp: Feed_def Let_def)

lemma pending_Preserve [simp]: "pending (Preserve d) = pending d"
  by (simp add: Preserve_def)

lemma remaining_Preserve [simp]: "remaining (Preserve d) = remaining d"
  by (simp add: Preserve_def)

lemma header_size_wire:
  "key_ok key \<Longrightarrow> header_size (len_code n OR mask_bit key) = length (wire_header b0 n key)"
  using len_byte_and_80 [of n key]
  by (simp add: header_size_def len_byte_and_7f length_wire_header)

lemma header_size_bound: "header_size b1 \<le> 14"
  by (simp add: header_size_def Let_def)

text \<open>A complete header of the wire format is decoded and consumed exactly.\<close>

lemma NextHeaderInto_wire:
  assumes d: "remaining d = 0" "pending d = wire_header b0 n key @ rest"
    and k: "key_ok key" and n: "n < 2 ^ 63"
  shows "\<exists>h'. NextHeaderInto h d = (Inr True, h', d\<lparr>pending := rest, remaining := of_nat n\<rparr>)
     \<and> header_of b0 n key h'"
proof -
  let ?w = "wire_header b0 n key"
  let ?h = "\<lparr>raw = put_at 0 ?w (raw h), hlen = of_nat (length ?w)\<rparr>"
  have b1: "(?w @ rest) ! Suc 0 = len_code n OR mask_bit key"
    by (simp add: wire_header_def)
  have sz: "header_size (len_code n OR mask_bit key) = length ?w"
    by (rule header_size_wire [OF k])
  have h: "header_of b0 n key ?h"
    by (auto simp: header_of_def put_at_def)
  have rem: "PayloadLen ?h = of_nat n"
    using n by (intro header_of_PayloadLen [OF h]) simp
  have u: "unat (of_nat n :: u64) = n" using n by simp
  have "drop_bit 63 (of_nat n :: u64) = 0"
    using n by (simp only: drop_bit_small u)
  moreover have "125 < n \<Longrightarrow> \<not> (of_nat n :: u64) < 126" "65535 < n \<Longrightarrow> \<not> (of_nat n :: u64) < 65536"
    by (simp_all add: word_less_nat_alt u)
  moreover have "2 \<le> length ?w" by (simp add: wire_header_def)
  ultimately have "NextHeaderInto h d = (Inr True, ?h, d\<lparr>pending := rest, remaining := of_nat n\<rparr>)"
    using d sz rem
    by (auto simp: NextHeaderInto_def Let_def b1 len_byte_and_7f)
  with h show ?thesis by blast
qed

text \<open>Conversely, a header is only accepted in the wire format, with a minimal length.\<close>

lemma bit_0x80: "bit (0x80 :: byte) n \<longleftrightarrow> n = 7"
proof -
  have "bit (2 ^ 7 :: byte) n \<longleftrightarrow> n = 7"
    by (auto simp only: bit_exp_iff possible_bit_word) simp
  then show ?thesis by simp
qed

lemma len_byte_split:
  "(b1 :: byte) = (b1 AND 0x7f) OR (if b1 AND 0x80 \<noteq> 0 then 0x80 else 0)"
proof (rule bit_word_eqI)
  fix n assume "n < LENGTH(8)"
  then have "n < 7 \<or> n = 7" by auto
  then show "bit b1 n = bit ((b1 AND 0x7f) OR (if b1 AND 0x80 \<noteq> 0 then 0x80 else 0)) n"
    using bit_0x80 [of n] by (auto simp: and_80 and_7f bit_or_iff bit_take_bit_iff)
qed

lemma unat_and_7f: "unat ((b1 :: byte) AND 0x7f) < 128"
proof -
  have "(b1 AND 0x7f) \<le> 0x7f" by (rule word_and_le1)
  then show ?thesis by (simp add: word_le_nat_alt)
qed

text \<open>The length fields a decoded header may have, read back as the encoder writes them.\<close>

lemma decoded_length:
  assumes "length (raw h) = MaxHeaderSize" "raw h ! Suc 0 = b1"
    and ext: "ext = take (header_size b1 - 2 - (if b1 AND 0x80 \<noteq> 0 then 4 else 0)) (drop 2 (raw h))"
    and ok: "\<not> (b1 AND 0x7f = 126 \<and> PayloadLen h < 126
       \<or> b1 AND 0x7f = 127 \<and> (PayloadLen h < 65536 \<or> drop_bit 63 (PayloadLen h) \<noteq> 0))"
  shows "len_code (unat (PayloadLen h)) = b1 AND 0x7f" "len_ext (unat (PayloadLen h)) = ext"
    "unat (PayloadLen h) < 2 ^ 63"
proof -
  let ?c = "b1 AND 0x7f"
  have c128: "unat ?c < 128" by (rule unat_and_7f)
  have "len_code (unat (PayloadLen h)) = ?c \<and> len_ext (unat (PayloadLen h)) = ext
      \<and> unat (PayloadLen h) < 2 ^ 63"
  proof (cases "?c = 126")
    case True
    then have e: "ext = go_slice 2 4 (raw h)" "length ext = 2"
      using ext assms(1) by (auto simp: header_size_def go_slice_def MaxHeaderSize_def)
    have p: "PayloadLen h = ucast (be_get ext :: u16)"
      using True assms(2) e by (simp add: PayloadLen_def)
    then have n: "unat (PayloadLen h) = unat (be_get ext :: u16)"
      by (simp add: unat_ucast_up)
    have "unat (be_get ext :: u16) < 65536" using unsigned_less [of "be_get ext :: u16"] by simp
    moreover have "126 \<le> unat (PayloadLen h)" using ok True by (simp add: word_less_nat_alt)
    moreover have "be_put 2 (be_get ext :: u16) = ext" using be_put_get [of ext, where 'a = 16] e by simp
    ultimately show ?thesis using True n by (simp add: len_ext_def)
  next
    case F: False
    show ?thesis
    proof (cases "?c = 127")
      case True
      then have e: "ext = go_slice 2 10 (raw h)" "length ext = 8"
        using ext assms(1) by (auto simp: header_size_def go_slice_def MaxHeaderSize_def)
      have p: "PayloadLen h = be_get ext"
        using True assms(2) e by (simp add: PayloadLen_def)
      have "65536 \<le> unat (PayloadLen h)" using ok True by (simp add: word_less_nat_alt)
      moreover have "unat (PayloadLen h) div 2 ^ 63 = 0"
        using ok True by (metis drop_bit_eq_div unat_drop_bit_eq unat_0)
      then have "unat (PayloadLen h) < 2 ^ 63" by (simp add: div_eq_0_iff)
      moreover have "be_put 8 (be_get ext :: u64) = ext" using be_put_get [of ext, where 'a = 64] e by simp
      ultimately show ?thesis using True p by (simp add: len_ext_def)
    next
      case False
      have "unat ?c \<noteq> unat (126 :: byte)" "unat ?c \<noteq> unat (127 :: byte)"
        using F False by (metis word_unat_eq_iff)+
      then have c: "unat ?c \<le> 125" using c128 by simp
      have n: "unat (PayloadLen h) = unat ?c"
        using F False assms(2)
        by (simp add: PayloadLen_def unat_ucast_up)
      have "ext = []" using ext F False by (simp add: header_size_def)
      with n c show ?thesis by (simp add: len_code_def len_ext_def)
    qed
  qed
  then show "len_code (unat (PayloadLen h)) = ?c" "len_ext (unat (PayloadLen h)) = ext"
    "unat (PayloadLen h) < 2 ^ 63" by auto
qed

lemma NextHeaderInto_sound:
  assumes nh: "NextHeaderInto h d = (Inr True, h', d')" and raw: "length (raw h) = MaxHeaderSize"
  shows "\<exists>b0 n key. remaining d = 0 \<and> pending d = wire_header b0 n key @ pending d' \<and> key_ok key
     \<and> n < 2 ^ 63 \<and> header_of b0 n key h' \<and> remaining d' = of_nat n"
proof -
  let ?p = "pending d"
  define b1 where "b1 = ?p ! Suc 0"
  define sz where "sz = header_size b1"
  let ?h = "\<lparr>raw = put_at 0 (take sz ?p) (raw h), hlen = of_nat sz\<rparr>"
  define n where "n = unat (PayloadLen ?h)"
  let ?bad = "b1 AND 0x7f = 126 \<and> PayloadLen ?h < 126
       \<or> b1 AND 0x7f = 127 \<and> (PayloadLen ?h < 65536 \<or> drop_bit 63 (PayloadLen ?h) \<noteq> 0)"
  have r0: "remaining d = 0" and len: "2 \<le> length ?p" "sz \<le> length ?p" and ok: "\<not> ?bad"
    and h': "h' = ?h" and d': "d' = d\<lparr>pending := drop sz ?p, remaining := PayloadLen ?h\<rparr>"
    using nh unfolding NextHeaderInto_def b1_def sz_def
    by (auto simp: Let_def split: if_splits)
  have szb: "sz \<le> 14" "2 \<le> sz" unfolding sz_def by (rule header_size_bound) (simp add: header_size_def)
  define m where "m = (if b1 AND 0x80 \<noteq> 0 then 4 else 0 :: nat)"
  define e where "e = sz - 2 - m"
  define key where "key = (if b1 AND 0x80 \<noteq> 0 then Some (drop (sz - 4) (take sz ?p)) else None)"
  have e: "sz = 2 + e + m" by (simp add: e_def m_def sz_def header_size_def)
  have "take sz ?p = take 2 ?p @ take (sz - 2) (drop 2 ?p)"
    using take_add [of 2 "e + m" ?p] e by (simp add: add.assoc)
  moreover have "take 2 ?p = [?p ! 0, b1]"
    using len(1) by (cases ?p; cases "tl ?p") (auto simp: b1_def)
  ultimately have hd: "take sz ?p = ?p ! 0 # b1 # take (sz - 2) (drop 2 ?p)" by simp
  have rawh: "length (raw ?h) = MaxHeaderSize"
    using raw len szb by (simp add: MaxHeaderSize_def)
  have h1: "raw ?h ! Suc 0 = b1"
    using hd by (simp add: put_at_def)
  have ext: "take e (drop 2 ?p) = take (header_size b1 - 2 - (if b1 AND 0x80 \<noteq> 0 then 4 else 0)) (drop 2 (raw ?h))"
    using len e hd unfolding sz_def [symmetric] m_def [symmetric] by (simp add: put_at_def)
  note dl = decoded_length [OF rawh h1 ext ok, folded n_def]
  have "take (sz - 2) (drop 2 ?p) = take e (drop 2 ?p) @ take m (drop (2 + e) ?p)"
    using take_add [of e m "drop 2 ?p"] e by (simp add: add.commute)
  moreover have "take m (drop (2 + e) ?p) = key_bytes key"
    using e by (auto simp: drop_take m_def key_def)
  moreover have "len_code n OR mask_bit key = b1"
    unfolding dl(1) mask_bit_def using len_byte_split [of b1, symmetric]
    by (cases "b1 AND 0x80 = 0") (simp_all add: key_def)
  ultimately have w: "take sz ?p = wire_header (?p ! 0) n key"
    using hd dl(2) by (simp add: wire_header_def)
  have k: "key_ok key" using len e by (auto simp: m_def key_def)
  have "length (wire_header (?p ! 0) n key) = sz"
    using len unfolding w [symmetric] by simp
  then have "header_of (?p ! 0) n key h'"
    unfolding header_of_def h' w by (auto simp: put_at_def)
  moreover have "?p = wire_header (?p ! 0) n key @ pending d'"
    using append_take_drop_id [of sz ?p] unfolding w d' by simp
  moreover have "remaining d' = of_nat n" unfolding d' n_def by simp
  ultimately show ?thesis using r0 k dl(3) by blast
qed

section \<open>Payload and incremental input\<close>

lemma PayloadN_all:
  assumes "unat (remaining d) = length p" "pending d = p @ rest"
  shows "PayloadN (int (length (pending d))) d
    = ((p, True), d\<lparr>pending := rest, remaining := 0\<rparr>)"
proof (cases "p = []")
  case True
  with assms have "remaining d = 0" by (simp add: unat_eq_zero)
  with True assms show ?thesis by (simp add: PayloadN_def)
next
  case False
  then have "remaining d \<noteq> 0" using assms(1) by auto
  moreover have "remaining d - of_nat (length p) = 0"
    unfolding assms(1) [symmetric] by simp
  moreover have "min (min (nat (int (length (pending d)))) (length (pending d))) (unat (remaining d)) = length p"
    using assms by simp
  moreover have "\<not> int (length (pending d)) \<le> 0" "length (pending d) \<noteq> 0"
    using assms(2) length_greater_0_conv [of p] False by (simp_all del: length_greater_0_conv)
  ultimately show ?thesis
    using assms(2) unfolding PayloadN_def Let_def by simp
qed

text \<open>The bytes handed out and the bytes kept are the bytes fed, and the count goes down by what was handed out.\<close>

lemma PayloadN_split:
  assumes "PayloadN n d = ((chunk, done), d')"
  shows "pending d = chunk @ pending d'" "unat (remaining d) = length chunk + unat (remaining d')"
    "done \<longleftrightarrow> remaining d' = 0"
proof -
  define m where "m = min (min (nat n) (length (pending d))) (unat (remaining d))"
  have m: "m \<le> length (pending d)" "m \<le> unat (remaining d)" by (auto simp: m_def)
  have "unat (remaining d) < 2 ^ LENGTH(64)" by (rule unsigned_less)
  with m(2) have "m < 2 ^ LENGTH(64)" by (rule le_less_trans)
  then have "unat (of_nat m :: u64) = m" by (rule unat_of_nat_small)
  with m(2) have u: "unat (remaining d - of_nat m) = unat (remaining d) - m"
    by (simp add: unat_sub word_le_nat_alt)
  show "pending d = chunk @ pending d'" "unat (remaining d) = length chunk + unat (remaining d')"
    "done \<longleftrightarrow> remaining d' = 0"
    using assms u m by (auto simp: PayloadN_def Let_def m_def [symmetric] split: if_splits)
qed

text \<open>An incomplete header leaves everything as it was; more input never changes a complete one.\<close>

lemma NextHeaderInto_incomplete:
  "NextHeaderInto h d = (Inr False, h', d') \<Longrightarrow> h' = h \<and> d' = d"
  by (auto simp: NextHeaderInto_def Let_def split: if_splits)

lemma NextHeaderInto_error:
  "NextHeaderInto h d = (Inl err, h', d') \<Longrightarrow> d' = d"
  by (auto simp: NextHeaderInto_def Let_def split: if_splits)

lemma NextHeaderInto_more:
  assumes "NextHeaderInto h d = (r, h', d')" "r \<noteq> Inr False"
  shows "\<exists>d''. NextHeaderInto h (Feed b d) = (r, h', d'')
     \<and> pending d'' = pending d' @ b \<and> remaining d'' = remaining d'"
proof -
  have nth: "2 \<le> length (pending d) \<Longrightarrow> (pending d @ b) ! Suc 0 = pending d ! Suc 0"
    by (simp add: nth_append)
  show ?thesis
    using assms by (auto simp: NextHeaderInto_def Let_def nth split: if_splits)
qed

section \<open>Properties\<close>

lemma check_frame_opcode:
  "check_frame final opcode payload = None \<Longrightarrow> opcode \<in> {Continuation, Text, Binary, Close, Ping, Pong}"
  by (auto simp: check_frame_def split: if_splits)

lemma header_of_flags:
  assumes "header_of (opcode OR fin_bit final) n key h" "opcode \<in> {Continuation, Text, Binary, Close, Ping, Pong}"
  shows "Opcode h = opcode" "Final h = final" "\<not> RSV1 h" "\<not> RSV2 h" "\<not> RSV3 h"
  using assms(2)
  by (auto simp: Opcode_def Final_def RSV1_def RSV2_def RSV3_def header_of_nth [OF assms(1)] fin_bit_def)

definition unmask :: "header \<Rightarrow> bytes \<Rightarrow> bytes" where
  "unmask h p = (if Masked h then fst (Mask p (MaskKey h) 0) else p)"

text \<open>C9: Whatever frame \<open>Encode\<close> produces, a decoder fed its header and payload bytes
  reads back: the header has the same opcode, FIN bit, length and key and no reserved bit,
  the payload is complete and unmasks to the payload that was encoded, and the bytes after
  the frame stay in the decoder. Payloads are below 2^63 bytes, the protocol's limit.\<close>

theorem frame_roundtrip:
  assumes enc: "Encode gc final opcode payload key e = (None, e')" and k: "key_ok key"
    and n: "length payload < 2 ^ 63" and d: "pending d = []" "remaining d = 0"
  shows "\<exists>h d1 d2. NextHeader (Feed (HeaderBytes e' @ PayloadBytes e' @ rest) d) = (Inr True, h, d1)
    \<and> Opcode h = opcode \<and> Final h = final \<and> \<not> RSV1 h \<and> \<not> RSV2 h \<and> \<not> RSV3 h
    \<and> unat (PayloadLen h) = length payload \<and> MaskKey h = key_bytes key
    \<and> Payload d1 = ((PayloadBytes e', True), d2) \<and> unmask h (PayloadBytes e') = payload
    \<and> pending d2 = rest \<and> remaining d2 = 0"
proof -
  have chk: "check_frame final opcode payload = None"
    using enc Encode_error [of final opcode payload _ gc key e] by (cases "check_frame final opcode payload") auto
  let ?b0 = "opcode OR fin_bit final" and ?n = "length payload"
  let ?d = "Feed (HeaderBytes e' @ PayloadBytes e' @ rest) d"
  have ok: "header_of ?b0 ?n key (enc_h e')"
      "PayloadBytes e' = (case key of None \<Rightarrow> payload | Some k \<Rightarrow> mask_ref k 0 payload)"
    using Encode_ok(2,3) [OF chk k, of gc e] enc by auto
  have lp: "length (PayloadBytes e') = ?n" using ok(2) by (auto split: option.split)
  have "pending ?d = wire_header ?b0 ?n key @ PayloadBytes e' @ rest" "remaining ?d = 0"
    using d header_of_Bytes [OF ok(1) k] by (simp_all add: HeaderBytes_def)
  from NextHeaderInto_wire [OF this(2,1) k n] obtain h where
    h: "NextHeader ?d = (Inr True, h, ?d\<lparr>pending := PayloadBytes e' @ rest, remaining := of_nat ?n\<rparr>)"
      "header_of ?b0 ?n key h"
    unfolding NextHeader_def by blast
  let ?d1 = "?d\<lparr>pending := PayloadBytes e' @ rest, remaining := of_nat ?n\<rparr>"
  have "unat (remaining ?d1) = length (PayloadBytes e')" using n lp by simp
  from PayloadN_all [OF this, of rest]
  have p: "Payload ?d1 = ((PayloadBytes e', True), ?d1\<lparr>pending := rest, remaining := 0\<rparr>)"
    by (simp add: Payload_def)
  have l: "unat (PayloadLen h) = ?n"
    using n header_of_PayloadLen [OF h(2)] by simp
  have u: "unmask h (PayloadBytes e') = payload"
    using k ok(2) h(2) header_of_MaskKey [OF h(2) k]
    by (auto simp: unmask_def Mask_ref split: option.splits)
  show ?thesis
    using h(1) p l u header_of_flags [OF h(2) check_frame_opcode [OF chk]] header_of_MaskKey [OF h(2) k]
    by (intro exI [of _ h] exI [of _ ?d1] exI [of _ "?d1\<lparr>pending := rest, remaining := 0\<rparr>"]) simp
qed

theorem frame_roundtrip_witness:
  "\<exists>h d1 d2. NextHeader (Feed (HeaderBytes (snd (Encode (\<lambda>c n. n) True Text [104, 105] (Some [1, 2, 3, 4]) zero_encoder))
        @ PayloadBytes (snd (Encode (\<lambda>c n. n) True Text [104, 105] (Some [1, 2, 3, 4]) zero_encoder)) @ [0x81]) zero_decoder)
      = (Inr True, h, d1) \<and> Opcode h = Text \<and> d2 = snd (Payload d1) \<and> pending d2 = [0x81]
      \<and> unmask h (PayloadBytes (snd (Encode (\<lambda>c n. n) True Text [104, 105] (Some [1, 2, 3, 4]) zero_encoder))) = [104, 105]"
proof -
  let ?r = "Encode (\<lambda>c n. n) True Text [104, 105] (Some [1, 2, 3, 4]) zero_encoder"
  have "?r = (None, snd ?r)" by (simp add: Encode_def check_frame_def Let_def)
  from frame_roundtrip [OF this, of zero_decoder "[0x81]"] show ?thesis
    by (auto simp: zero_decoder_def)
qed

text \<open>C29: The decoder accepts only the wire format: a header it reports came from bytes that
  are the minimal encoding of its length (below 2^63), and exactly those bytes are consumed.\<close>

theorem decoder_canonical:
  assumes "NextHeader d = (Inr True, h, d')"
  shows "\<exists>b0 n key. key_ok key \<and> n < 2 ^ 63 \<and> pending d = wire_header b0 n key @ pending d'
    \<and> Bytes h = wire_header b0 n key \<and> unat (PayloadLen h) = n \<and> unat (remaining d') = n"
proof -
  have z: "length (raw zero_header) = MaxHeaderSize" by (simp add: zero_header_def)
  from NextHeaderInto_sound [OF assms [unfolded NextHeader_def] z] obtain b0 n key where
    w: "pending d = wire_header b0 n key @ pending d'" "key_ok key" "n < 2 ^ 63" "header_of b0 n key h"
      "remaining d' = of_nat n" by blast
  moreover have "unat (of_nat n :: u64) = n" using w(3) by simp
  moreover have "PayloadLen h = of_nat n" using w(3,4) by (intro header_of_PayloadLen) auto
  ultimately show ?thesis
    by (intro exI [of _ b0] exI [of _ n] exI [of _ key]) (simp add: header_of_Bytes)
qed

theorem decoder_canonical_witness:
  "\<exists>b0 n key. pending (Feed [0x81, 2, 104, 105] zero_decoder) = wire_header b0 n key @ [104, 105]"
proof -
  have "NextHeader (Feed [0x81, 2, 104, 105] zero_decoder)
      = (Inr True, \<lparr>raw = [0x81, 2] @ replicate 12 0, hlen = 2\<rparr>,
         \<lparr>pending = [104, 105], dec_scratch = [], remaining = 2\<rparr>)"
    by code_simp
  from decoder_canonical [OF this] show ?thesis by auto
qed

end
