(* ===== verification/Utf8.thy ===== *)
theory Utf8
  imports Ews_Prelude
begin

text \<open>
  The UTF-8 validator of text messages, \<^verbatim>\<open>src/internal/utf8/ascii.go\<close> and
  \<^verbatim>\<open>valid_swar.go\<close>. The specification is RFC 3629: a string is valid when it is the
  concatenation of the encodings of Unicode scalar values (\<open>is_utf8\<close>). The standard
  library's \<open>utf8.Valid\<close>, which \<open>Valid\<close> calls for short remainders, is \<open>std_Valid\<close>; it
  is proved equivalent to the specification and so is the packed 64-bit shift automaton.
\<close>

section \<open>The standard library's validator and the RFC 3629 encoding\<close>

definition in_range :: "byte \<Rightarrow> byte \<Rightarrow> byte \<Rightarrow> bool" where
  "in_range lo hi b \<longleftrightarrow> lo \<le> b \<and> b \<le> hi"

definition accept_lo :: "byte \<Rightarrow> byte" where
  "accept_lo b = (if b = 0xe0 then 0xa0 else if b = 0xf0 then 0x90 else 0x80)"

definition accept_hi :: "byte \<Rightarrow> byte" where
  "accept_hi b = (if b = 0xed then 0x9f else if b = 0xf4 then 0x8f else 0xbf)"

fun std_Valid :: "bytes \<Rightarrow> bool" where
  "std_Valid [] \<longleftrightarrow> True"
| "std_Valid (b # bs) \<longleftrightarrow>
    (if b < 0x80 then std_Valid bs
     else if in_range 0xc2 0xdf b then
       (case bs of c1 # r \<Rightarrow> in_range 0x80 0xbf c1 \<and> std_Valid r | _ \<Rightarrow> False)
     else if in_range 0xe0 0xef b then
       (case bs of c1 # c2 # r \<Rightarrow> in_range (accept_lo b) (accept_hi b) c1 \<and> in_range 0x80 0xbf c2 \<and> std_Valid r
        | _ \<Rightarrow> False)
     else if in_range 0xf0 0xf4 b then
       (case bs of c1 # c2 # c3 # r \<Rightarrow>
          in_range (accept_lo b) (accept_hi b) c1 \<and> in_range 0x80 0xbf c2 \<and> in_range 0x80 0xbf c3 \<and> std_Valid r
        | _ \<Rightarrow> False)
     else False)"

definition scalar :: "nat \<Rightarrow> bool" where
  "scalar c \<longleftrightarrow> c < 0xD800 \<or> 0xE000 \<le> c \<and> c < 0x110000"

definition utf8_encode :: "nat \<Rightarrow> bytes" where
  "utf8_encode c =
    map of_nat (if c < 0x80 then [c]
     else if c < 0x800 then [0xC0 + c div 64, 0x80 + c mod 64]
     else if c < 0x10000 then [0xE0 + c div 4096, 0x80 + c div 64 mod 64, 0x80 + c mod 64]
     else [0xF0 + c div 262144, 0x80 + c div 4096 mod 64, 0x80 + c div 64 mod 64, 0x80 + c mod 64])"

lemmas unat_range = in_range_def accept_lo_def accept_hi_def word_le_nat_alt word_less_nat_alt
  word_unat_eq_iff

lemma unat_byte: "n < 256 \<Longrightarrow> unat (of_nat n :: byte) = n"
  by simp

lemma of_nat_byte: "n = unat b \<Longrightarrow> (of_nat n :: byte) = b"
  by simp

lemma std_Valid_seq:
  "unat b < 0x80 \<Longrightarrow> std_Valid (b # r) \<longleftrightarrow> std_Valid r"
  "0xc2 \<le> unat b \<Longrightarrow> unat b \<le> 0xdf \<Longrightarrow> 0x80 \<le> unat c1 \<Longrightarrow> unat c1 \<le> 0xbf \<Longrightarrow>
     std_Valid (b # c1 # r) \<longleftrightarrow> std_Valid r"
  "0xe0 \<le> unat b \<Longrightarrow> unat b \<le> 0xef \<Longrightarrow> in_range (accept_lo b) (accept_hi b) c1 \<Longrightarrow>
     0x80 \<le> unat c2 \<Longrightarrow> unat c2 \<le> 0xbf \<Longrightarrow> std_Valid (b # c1 # c2 # r) \<longleftrightarrow> std_Valid r"
  "0xf0 \<le> unat b \<Longrightarrow> unat b \<le> 0xf4 \<Longrightarrow> in_range (accept_lo b) (accept_hi b) c1 \<Longrightarrow>
     0x80 \<le> unat c2 \<Longrightarrow> unat c2 \<le> 0xbf \<Longrightarrow> 0x80 \<le> unat c3 \<Longrightarrow> unat c3 \<le> 0xbf \<Longrightarrow>
     std_Valid (b # c1 # c2 # c3 # r) \<longleftrightarrow> std_Valid r"
  by (simp_all add: in_range_def word_le_nat_alt word_less_nat_alt)

lemma in_accept:
  "in_range (accept_lo b) (accept_hi b) c \<longleftrightarrow>
     (if unat b = 0xe0 then 0xa0 else if unat b = 0xf0 then 0x90 else 0x80) \<le> unat c
     \<and> unat c \<le> (if unat b = 0xed then 0x9f else if unat b = 0xf4 then 0x8f else 0xbf)"
  by (simp add: unat_range)

lemma split_64: "(c::nat) = 64 * (c div 64) + c mod 64"
  by simp

lemma split_4096: "(c::nat) = 4096 * (c div 4096) + 64 * (c div 64 mod 64) + c mod 64"
proof -
  have "c div 4096 = c div 64 div 64" by (simp add: div_mult2_eq [symmetric])
  then show ?thesis using split_64 [of c] split_64 [of "c div 64"] by linarith
qed

lemma split_262144:
  "(c::nat) = 262144 * (c div 262144) + 4096 * (c div 4096 mod 64) + 64 * (c div 64 mod 64) + c mod 64"
proof -
  have "c div 262144 = c div 4096 div 64" by (simp add: div_mult2_eq [symmetric])
  then show ?thesis using split_4096 [of c] split_64 [of "c div 4096"] by linarith
qed

lemma mod_64_less: "(c::nat) mod 64 < 64"
  by simp

lemma std_Valid_seq2:
  "2 \<le> q \<Longrightarrow> q < 32 \<Longrightarrow> l < 64 \<Longrightarrow>
     std_Valid (of_nat (0xC0 + q) # of_nat (0x80 + l) # r) \<longleftrightarrow> std_Valid r"
  "q < 16 \<Longrightarrow> m < 64 \<Longrightarrow> l < 64 \<Longrightarrow> (q = 0 \<Longrightarrow> 32 \<le> m) \<Longrightarrow> (q = 13 \<Longrightarrow> m < 32) \<Longrightarrow>
     std_Valid (of_nat (0xE0 + q) # of_nat (0x80 + m) # of_nat (0x80 + l) # r) \<longleftrightarrow> std_Valid r"
  "q < 5 \<Longrightarrow> m < 64 \<Longrightarrow> k < 64 \<Longrightarrow> l < 64 \<Longrightarrow> (q = 0 \<Longrightarrow> 16 \<le> m) \<Longrightarrow> (q = 4 \<Longrightarrow> m < 16) \<Longrightarrow>
     std_Valid (of_nat (0xF0 + q) # of_nat (0x80 + m) # of_nat (0x80 + k) # of_nat (0x80 + l) # r)
       \<longleftrightarrow> std_Valid r"
  by (intro std_Valid_seq; auto simp: in_accept unat_byte simp del: of_nat_add std_Valid.simps)+

lemma std_Valid_encode:
  assumes s: "scalar c"
  shows "std_Valid (utf8_encode c @ r) \<longleftrightarrow> std_Valid r"
proof -
  have c: "c < 0x110000" using s by (auto simp: scalar_def)
  consider "c < 0x80" | "0x80 \<le> c" "c < 0x800" | "0x800 \<le> c" "c < 0x10000" | "0x10000 \<le> c" by linarith
  then show ?thesis
  proof cases
    case 1
    then show ?thesis by (simp add: utf8_encode_def word_less_nat_alt unat_byte)
  next
    case 2
    then have "2 \<le> c div 64" "c div 64 < 32" by auto
    from std_Valid_seq2(1) [OF this, of "c mod 64"] 2 show ?thesis by (simp add: utf8_encode_def)
  next
    case 3
    note sp = split_4096 [of c] mod_64_less [of c] mod_64_less [of "c div 64"]
    have "c div 4096 < 16" "c div 4096 = 0 \<Longrightarrow> 32 \<le> c div 64 mod 64" "c div 4096 = 13 \<Longrightarrow> c div 64 mod 64 < 32"
      using 3 s sp unfolding scalar_def by linarith+
    from std_Valid_seq2(2) [OF this(1) mod_64_less mod_64_less this(2,3)] 3 show ?thesis
      by (simp add: utf8_encode_def)
  next
    case 4
    note sp = split_262144 [of c] mod_64_less [of c] mod_64_less [of "c div 64"] mod_64_less [of "c div 4096"]
    have "c div 262144 < 5" "c div 262144 = 0 \<Longrightarrow> 16 \<le> c div 4096 mod 64" "c div 262144 = 4 \<Longrightarrow> c div 4096 mod 64 < 16"
      using 4 c sp by linarith+
    from std_Valid_seq2(3) [OF this(1) mod_64_less mod_64_less mod_64_less this(2,3)] 4 show ?thesis
      by (simp add: utf8_encode_def)
  qed
qed

lemma digit_64: "l < 64 \<Longrightarrow> (64 * x + l) div 64 = x" "l < 64 \<Longrightarrow> (64 * x + l) mod 64 = (l :: nat)"
  by simp_all

lemma encode_seq:
  "q < 128 \<Longrightarrow> scalar q \<and> utf8_encode q = [of_nat q]"
  "2 \<le> q \<Longrightarrow> q < 32 \<Longrightarrow> l < 64 \<Longrightarrow>
     scalar (64 * q + l) \<and> utf8_encode (64 * q + l) = [of_nat (0xC0 + q), of_nat (0x80 + l)]"
  "q < 16 \<Longrightarrow> m < 64 \<Longrightarrow> l < 64 \<Longrightarrow> (q = 0 \<Longrightarrow> 32 \<le> m) \<Longrightarrow> (q = 13 \<Longrightarrow> m < 32) \<Longrightarrow>
     scalar (64 * (64 * q + m) + l) \<and>
     utf8_encode (64 * (64 * q + m) + l) = [of_nat (0xE0 + q), of_nat (0x80 + m), of_nat (0x80 + l)]"
  "q < 5 \<Longrightarrow> m < 64 \<Longrightarrow> k < 64 \<Longrightarrow> l < 64 \<Longrightarrow> (q = 0 \<Longrightarrow> 16 \<le> m) \<Longrightarrow> (q = 4 \<Longrightarrow> m < 16) \<Longrightarrow>
     scalar (64 * (64 * (64 * q + m) + k) + l) \<and>
     utf8_encode (64 * (64 * (64 * q + m) + k) + l)
       = [of_nat (0xF0 + q), of_nat (0x80 + m), of_nat (0x80 + k), of_nat (0x80 + l)]"
proof -
  show "scalar q \<and> utf8_encode q = [of_nat q]" if "q < 128"
    using that by (simp add: scalar_def utf8_encode_def)
next
  assume "2 \<le> q" "q < 32" "l < 64"
  then show "scalar (64 * q + l) \<and> utf8_encode (64 * q + l) = [of_nat (0xC0 + q), of_nat (0x80 + l)]"
    by (simp add: scalar_def utf8_encode_def)
next
  assume b: "q < 16" "m < 64" "l < 64" "q = 0 \<Longrightarrow> 32 \<le> m" "q = 13 \<Longrightarrow> m < 32"
  define c where "c = 64 * (64 * q + m) + l"
  have d: "c div 64 = 64 * q + m" "c mod 64 = l"
    unfolding c_def by (intro digit_64 b)+
  then have e: "c div 4096 = q" "c div 64 mod 64 = m"
    using b div_mult2_eq [of c 64 64] by (simp_all add: digit_64)
  have "2048 \<le> c" "c < 65536" "scalar c"
    using b unfolding c_def scalar_def by (cases "q = 0"; cases "q < 13"; cases "q = 13"; simp)+
  then show "scalar c \<and> utf8_encode c = [of_nat (0xE0 + q), of_nat (0x80 + m), of_nat (0x80 + l)]"
    using d e by (simp add: utf8_encode_def)
next
  assume b: "q < 5" "m < 64" "k < 64" "l < 64" "q = 0 \<Longrightarrow> 16 \<le> m" "q = 4 \<Longrightarrow> m < 16"
  define c where "c = 64 * (64 * (64 * q + m) + k) + l"
  have d: "c div 64 = 64 * (64 * q + m) + k" "c mod 64 = l"
    unfolding c_def by (intro digit_64 b)+
  then have e: "c div 4096 = 64 * q + m" "c div 64 mod 64 = k"
    using b div_mult2_eq [of c 64 64] digit_64 [of k "64 * q + m"] by (simp_all del: distrib_left_numeral)
  then have f: "c div 262144 = q" "c div 4096 mod 64 = m"
    using b div_mult2_eq [of c 4096 64] by (simp_all add: digit_64)
  have "65536 \<le> c" "c < 1114112" "scalar c"
    using b unfolding c_def scalar_def by (cases "q = 0"; cases "q < 4"; cases "q = 4"; simp)+
  then show "scalar c \<and> utf8_encode c = [of_nat (0xF0 + q), of_nat (0x80 + m), of_nat (0x80 + k), of_nat (0x80 + l)]"
    using d e f by (simp add: utf8_encode_def)
qed

definition is_utf8 :: "bytes \<Rightarrow> bool" where
  "is_utf8 bs \<longleftrightarrow> (\<exists>cs. list_all scalar cs \<and> bs = concat (map utf8_encode cs))"

lemma is_utf8_Nil [simp]: "is_utf8 []"
  unfolding is_utf8_def by (rule exI [of _ "[]"]) simp

lemma is_utf8_step:
  assumes "scalar c \<and> utf8_encode c = e" "is_utf8 r"
  shows "is_utf8 (e @ r)"
proof -
  from assms(2) obtain cs where "list_all scalar cs" "r = concat (map utf8_encode cs)"
    by (auto simp: is_utf8_def)
  with assms(1) have "list_all scalar (c # cs)" "e @ r = concat (map utf8_encode (c # cs))" by auto
  then show ?thesis unfolding is_utf8_def by blast
qed

lemma byte_minus: "n \<le> unat b \<Longrightarrow> (of_nat (n + (unat b - n)) :: byte) = b"
  by simp

lemma is_utf8_step2:
  assumes "0xc2 \<le> unat b" "unat b \<le> 0xdf" "0x80 \<le> unat c1" "unat c1 \<le> 0xbf" "is_utf8 r"
  shows "is_utf8 (b # c1 # r)"
  using is_utf8_step [OF encode_seq(2) [of "unat b - 0xC0" "unat c1 - 0x80"], of r] assms
  by (simp add: byte_minus del: of_nat_add)

lemma is_utf8_step3:
  assumes "0xe0 \<le> unat b" "unat b \<le> 0xef" "in_range (accept_lo b) (accept_hi b) c1"
    "0x80 \<le> unat c2" "unat c2 \<le> 0xbf" "is_utf8 r"
  shows "is_utf8 (b # c1 # c2 # r)"
proof -
  let ?q = "unat b - 0xE0" and ?m = "unat c1 - 0x80" and ?l = "unat c2 - 0x80"
  have c1: "0x80 \<le> unat c1" "?m < 64" "?q = 0 \<Longrightarrow> 32 \<le> ?m" "?q = 13 \<Longrightarrow> ?m < 32"
    using assms(1-3) by (auto simp: in_accept split: if_splits)
  have "?q < 16" "?l < 64" using assms by auto
  from is_utf8_step [OF encode_seq(3) [OF this(1) c1(2) this(2) c1(3,4)] assms(6)] show ?thesis
    using assms c1(1) by (simp add: byte_minus del: of_nat_add)
qed

lemma is_utf8_step4:
  assumes "0xf0 \<le> unat b" "unat b \<le> 0xf4" "in_range (accept_lo b) (accept_hi b) c1"
    "0x80 \<le> unat c2" "unat c2 \<le> 0xbf" "0x80 \<le> unat c3" "unat c3 \<le> 0xbf" "is_utf8 r"
  shows "is_utf8 (b # c1 # c2 # c3 # r)"
proof -
  let ?q = "unat b - 0xF0" and ?m = "unat c1 - 0x80" and ?k = "unat c2 - 0x80" and ?l = "unat c3 - 0x80"
  have c1: "0x80 \<le> unat c1" "?m < 64" "?q = 0 \<Longrightarrow> 16 \<le> ?m" "?q = 4 \<Longrightarrow> ?m < 16"
    using assms(1-3) by (auto simp: in_accept split: if_splits)
  have "?q < 5" "?k < 64" "?l < 64" using assms by auto
  from is_utf8_step [OF encode_seq(4) [OF this(1) c1(2) this(2,3) c1(3,4)] assms(8)] show ?thesis
    using assms c1(1) by (simp add: byte_minus del: of_nat_add)
qed

lemma std_Valid_is_utf8: "std_Valid bs \<Longrightarrow> is_utf8 bs"
proof (induction bs rule: std_Valid.induct)
  case 1
  show ?case by simp
next
  case (2 b bs)
  consider "b < 0x80" | "\<not> b < 0x80" "in_range 0xc2 0xdf b"
    | "\<not> b < 0x80" "\<not> in_range 0xc2 0xdf b" "in_range 0xe0 0xef b"
    | "\<not> b < 0x80" "\<not> in_range 0xc2 0xdf b" "\<not> in_range 0xe0 0xef b" "in_range 0xf0 0xf4 b"
    using "2.prems" by (auto split: if_splits)
  then show ?case
  proof cases
    case 1
    with "2.prems" "2.IH"(1) is_utf8_step [OF encode_seq(1) [of "unat b"], of bs] show ?thesis
      by (simp add: word_less_nat_alt)
  next
    case 2
    with "2.prems" "2.IH"(2) is_utf8_step2 show ?thesis
      by (auto simp: in_range_def word_le_nat_alt word_less_nat_alt split: list.splits)
  next
    case 3
    with "2.prems" "2.IH"(3) is_utf8_step3 show ?thesis
      by (auto simp: in_range_def word_le_nat_alt word_less_nat_alt split: list.splits)
  next
    case 4
    with "2.prems" "2.IH"(4) is_utf8_step4 show ?thesis
      by (auto simp: in_range_def word_le_nat_alt word_less_nat_alt split: list.splits)
  qed
qed

lemma std_Valid_iff: "std_Valid bs \<longleftrightarrow> is_utf8 bs"
proof
  assume "is_utf8 bs"
  then obtain cs where cs: "list_all scalar cs" and bs: "bs = concat (map utf8_encode cs)"
    by (auto simp: is_utf8_def)
  from cs have "std_Valid (concat (map utf8_encode cs))"
    by (induction cs) (simp_all add: std_Valid_encode del: std_Valid.simps(2))
  with bs show "std_Valid bs" by simp
qed (rule std_Valid_is_utf8)

section \<open>internal/utf8/valid_swar.go: the DFA\<close>

definition accept :: u64 where "accept = 0"
definition cont1 :: u64 where "cont1 = 6"
definition cont2 :: u64 where "cont2 = 12"
definition afterE0 :: u64 where "afterE0 = 18"
definition afterED :: u64 where "afterED = 24"
definition afterF0 :: u64 where "afterF0 = 30"
definition afterF1 :: u64 where "afterF1 = 36"
definition afterF4 :: u64 where "afterF4 = 42"
definition reject :: u64 where "reject = 48"

lemmas state_defs = accept_def cont1_def cont2_def afterE0_def afterED_def afterF0_def
  afterF1_def afterF4_def reject_def

definition dfa_states :: "u64 list" where
  "dfa_states = [accept, cont1, cont2, afterE0, afterED, afterF0, afterF1, afterF4, reject]"

definition transition :: "u64 \<Rightarrow> byte \<Rightarrow> u64" where
  "transition state b =
    (if state = accept then
       (if b < 0x80 then accept
        else if in_range 0xc2 0xdf b then cont1
        else if b = 0xe0 then afterE0
        else if b = 0xed then afterED
        else if in_range 0xe1 0xef b then cont2
        else if b = 0xf0 then afterF0
        else if in_range 0xf1 0xf3 b then afterF1
        else if b = 0xf4 then afterF4
        else reject)
     else if state = cont1 then (if in_range 0x80 0xbf b then accept else reject)
     else if state = cont2 then (if in_range 0x80 0xbf b then cont1 else reject)
     else if state = afterE0 then (if in_range 0xa0 0xbf b then cont1 else reject)
     else if state = afterED then (if in_range 0x80 0x9f b then cont1 else reject)
     else if state = afterF0 then (if in_range 0x90 0xbf b then cont2 else reject)
     else if state = afterF1 then (if in_range 0x80 0xbf b then cont2 else reject)
     else if state = afterF4 then (if in_range 0x80 0x8f b then cont2 else reject)
     else reject)"

definition dfa :: "byte \<Rightarrow> u64" where
  "dfa b = fold (\<lambda>s t. t OR push_bit (unat s) (transition s b)) dfa_states 0"

definition dfa_step :: "u64 \<Rightarrow> byte \<Rightarrow> u64" where
  "dfa_step state b = drop_bit (unat (state AND 63)) (dfa b)"

lemma transition_states: "transition s b \<in> set dfa_states"
  by (simp add: transition_def dfa_states_def)

lemma state_less: "s \<in> set dfa_states \<Longrightarrow> s < 2 ^ 6"
  by (auto simp: dfa_states_def state_defs)

lemma and_63: "(x :: u64) AND 63 = take_bit 6 x"
  by (simp add: take_bit_eq_mask mask_eq_exp_minus_1)

lemma bit_transition: "bit (transition s b) n \<Longrightarrow> n < 6"
proof -
  have "take_bit 6 (transition s b) = transition s b"
    using less_mask_eq [OF state_less [OF transition_states [of s b]]] by (simp only: take_bit_eq_mask)
  then show "bit (transition s b) n \<Longrightarrow> n < 6"
    by (metis bit_take_bit_iff)
qed

lemma bit_dfa:
  "bit (dfa b) n \<longleftrightarrow> n < 64 \<and> (\<exists>s\<in>set dfa_states. unat s \<le> n \<and> bit (transition s b) (n - unat s))"
  by (auto simp: dfa_def dfa_states_def bit_or_iff bit_push_bit_iff dest: bit_imp_le_length)

lemma unat_state_dist:
  "s \<in> set dfa_states \<Longrightarrow> t \<in> set dfa_states \<Longrightarrow> s \<noteq> t \<Longrightarrow> unat s + 6 \<le> unat t \<or> unat t + 6 \<le> unat s"
  by (auto simp: dfa_states_def state_defs)

lemma dfa_step_transition:
  assumes s: "s \<in> set dfa_states" and st: "state AND 63 = s"
  shows "dfa_step state b AND 63 = transition s b"
proof (rule bit_word_eqI)
  fix n assume "n < LENGTH(64)"
  have b: "unat s < 64" using state_less [OF s] by (simp add: word_less_nat_alt)
  have le: "unat s \<le> 48" using s by (auto simp: dfa_states_def state_defs)
  show "bit (dfa_step state b AND 63) n = bit (transition s b) n"
  proof (cases "n < 6")
    case True
    have "(\<exists>t\<in>set dfa_states. unat t \<le> unat s + n \<and> bit (transition t b) (unat s + n - unat t))
        \<longleftrightarrow> bit (transition s b) n"
    proof
      assume "\<exists>t\<in>set dfa_states. unat t \<le> unat s + n \<and> bit (transition t b) (unat s + n - unat t)"
      then obtain t where t: "t \<in> set dfa_states" "unat t \<le> unat s + n" "bit (transition t b) (unat s + n - unat t)"
        by blast
      have "unat s + n - unat t < 6" using t(3) by (rule bit_transition)
      then have "t = s" using unat_state_dist [OF s t(1)] True t(2) by (cases "s = t") auto
      with t(3) show "bit (transition s b) n" by simp
    next
      assume "bit (transition s b) n"
      then show "\<exists>t\<in>set dfa_states. unat t \<le> unat s + n \<and> bit (transition t b) (unat s + n - unat t)"
        using s by (intro bexI [of _ s]) simp_all
    qed
    with True le show ?thesis
      by (simp add: and_63 bit_take_bit_iff dfa_step_def st [unfolded and_63] bit_drop_bit_eq bit_dfa)
  next
    case False
    then show ?thesis using bit_transition [of s b n] by (auto simp: and_63 bit_take_bit_iff)
  qed
qed

definition trun :: "u64 \<Rightarrow> bytes \<Rightarrow> u64" where
  "trun = foldl transition"

lemma trun_simps [simp]:
  "trun s [] = s" "trun s (b # bs) = trun (transition s b) bs" "trun s (xs @ ys) = trun (trun s xs) ys"
  by (simp_all add: trun_def)

lemma foldl_dfa_step:
  "s \<in> set dfa_states \<Longrightarrow> state AND 63 = s \<Longrightarrow> foldl dfa_step state bs AND 63 = trun s bs"
  by (induction bs arbitrary: s state) (auto simp: dfa_step_transition transition_states)

lemma transition_reject [simp]: "transition reject b = reject"
  by (simp add: transition_def state_defs)

lemma trun_reject [simp]: "trun reject bs = reject"
  by (induction bs) auto

lemma trun_ascii: "list_all (\<lambda>b. b < 0x80) bs \<Longrightarrow> trun accept bs = accept"
  by (induction bs) (auto simp: transition_def)

lemma state_distinct [simp]:
  "cont1 \<noteq> accept" "cont2 \<noteq> accept" "afterE0 \<noteq> accept" "afterED \<noteq> accept" "afterF0 \<noteq> accept"
  "afterF1 \<noteq> accept" "afterF4 \<noteq> accept" "reject \<noteq> accept" "accept \<noteq> reject"
  by (simp_all add: state_defs)

lemma transition_cont:
  "transition cont1 b = (if in_range 0x80 0xbf b then accept else reject)"
  "transition cont2 b = (if in_range 0x80 0xbf b then cont1 else reject)"
  by (simp_all add: transition_def state_defs)

lemma transition_lead:
  "b < 0x80 \<Longrightarrow> transition accept b = accept"
  "\<not> b < 0x80 \<Longrightarrow> in_range 0xc2 0xdf b \<Longrightarrow> transition accept b = cont1"
  by (simp_all add: transition_def)

lemma transition_lead3:
  "\<not> b < 0x80 \<Longrightarrow> \<not> in_range 0xc2 0xdf b \<Longrightarrow> in_range 0xe0 0xef b \<Longrightarrow> transition accept b \<noteq> accept"
  "\<not> b < 0x80 \<Longrightarrow> \<not> in_range 0xc2 0xdf b \<Longrightarrow> in_range 0xe0 0xef b \<Longrightarrow>
     transition (transition accept b) c = (if in_range (accept_lo b) (accept_hi b) c then cont1 else reject)"
  by (auto simp: transition_def unat_range state_defs)

lemma transition_lead4:
  "\<not> b < 0x80 \<Longrightarrow> \<not> in_range 0xc2 0xdf b \<Longrightarrow> \<not> in_range 0xe0 0xef b \<Longrightarrow> in_range 0xf0 0xf4 b \<Longrightarrow>
     transition accept b \<noteq> accept"
  "\<not> b < 0x80 \<Longrightarrow> \<not> in_range 0xc2 0xdf b \<Longrightarrow> \<not> in_range 0xe0 0xef b \<Longrightarrow> in_range 0xf0 0xf4 b \<Longrightarrow>
     transition (transition accept b) c = (if in_range (accept_lo b) (accept_hi b) c then cont2 else reject)"
  by (auto simp: transition_def unat_range state_defs)

lemma transition_lead_bad:
  "\<not> b < 0x80 \<Longrightarrow> \<not> in_range 0xc2 0xdf b \<Longrightarrow> \<not> in_range 0xe0 0xef b \<Longrightarrow> \<not> in_range 0xf0 0xf4 b \<Longrightarrow>
     transition accept b = reject"
  by (auto simp: transition_def unat_range)

lemma trun_std_Valid: "trun accept bs = accept \<longleftrightarrow> std_Valid bs"
proof (induction bs rule: std_Valid.induct)
  case 1
  show ?case by simp
next
  case (2 b bs)
  consider "b < 0x80" | "\<not> b < 0x80" "in_range 0xc2 0xdf b"
    | "\<not> b < 0x80" "\<not> in_range 0xc2 0xdf b" "in_range 0xe0 0xef b"
    | "\<not> b < 0x80" "\<not> in_range 0xc2 0xdf b" "\<not> in_range 0xe0 0xef b" "in_range 0xf0 0xf4 b"
    | "\<not> b < 0x80" "\<not> in_range 0xc2 0xdf b" "\<not> in_range 0xe0 0xef b" "\<not> in_range 0xf0 0xf4 b"
    by blast
  then show ?case
  proof cases
    case 1
    with "2.IH"(1) show ?thesis by (simp add: transition_lead)
  next
    case 2
    with "2.IH"(2) show ?thesis
      by (cases bs) (auto simp: transition_lead transition_cont)
  next
    case 3
    show ?thesis
    proof (cases bs)
      case (Cons c1 r)
      with 3 "2.IH"(3) show ?thesis
        by (cases r) (auto simp: transition_lead3 transition_cont)
    qed (use 3 transition_lead3 in simp)
  next
    case 4
    show ?thesis
    proof (cases bs)
      case (Cons c1 r)
      show ?thesis
      proof (cases r)
        case r: (Cons c2 r2)
        with 4 Cons "2.IH"(4) show ?thesis
          by (cases r2) (auto simp: transition_lead4 transition_cont)
      qed (use 4 Cons in \<open>simp add: transition_lead4\<close>)
    qed (use 4 transition_lead4 in simp)
  next
    case 5
    then show ?thesis by (simp add: transition_lead_bad)
  qed
qed

section \<open>internal/utf8/ascii.go\<close>

definition high :: u64 where "high = 0x8080808080808080"

definition word8 :: "bytes \<Rightarrow> nat \<Rightarrow> u64" where
  "word8 src i = le_get (go_slice i (i + 8) src)"

function ascii_loop32 :: "bytes \<Rightarrow> nat \<Rightarrow> nat" where
  "ascii_loop32 src i =
    (if i + 32 \<le> length src
     then (let words = word8 src i OR word8 src (i + 8) OR word8 src (i + 16) OR word8 src (i + 24)
           in if words AND high \<noteq> 0 then i else ascii_loop32 src (i + 32))
     else i)"
  by pat_completeness auto
termination
  by (relation "measure (\<lambda>(src, i). length src - i)") auto

function ascii_tail :: "bytes \<Rightarrow> nat \<Rightarrow> nat" where
  "ascii_tail src i = (if i < length src \<and> src ! i < 0x80 then ascii_tail src (i + 1) else i)"
  by pat_completeness auto
termination
  by (relation "measure (\<lambda>(src, i). length src - i)") auto

declare ascii_loop32.simps [simp del] ascii_tail.simps [simp del]

definition asciiPrefix :: "bytes \<Rightarrow> nat" where
  "asciiPrefix src =
    (let i = ascii_loop32 src 0;
         i = (if i + 16 \<le> length src \<and> (word8 src i OR word8 src (i + 8)) AND high = 0 then i + 16 else i);
         i = (if i + 8 \<le> length src \<and> word8 src i AND high = 0 then i + 8 else i)
     in ascii_tail src i)"

definition ascii :: "bytes \<Rightarrow> bool" where
  "ascii bs \<longleftrightarrow> list_all (\<lambda>b. b < 0x80) bs"

section \<open>internal/utf8/valid_swar.go: Valid\<close>

function valid_loop :: "bytes \<Rightarrow> nat \<Rightarrow> u64 \<Rightarrow> bool" where
  "valid_loop src i state =
    (if i + 8 \<le> length src
     then (if state AND 63 = accept \<and> word8 src i AND high = 0
           then valid_loop src (i + 8) state
           else (let state' = foldl dfa_step state (go_slice i (i + 8) src)
                 in if state' AND 63 = reject then False else valid_loop src (i + 8) state'))
     else foldl dfa_step state (drop i src) AND 63 = accept)"
  by pat_completeness auto
termination
  by (relation "measure (\<lambda>(src, i, state). length src - i)") auto

declare valid_loop.simps [simp del]

definition Valid :: "bytes \<Rightarrow> bool" where
  "Valid src =
    (let i = asciiPrefix src
     in if i = length src then True
        else if length src - i < 16 then std_Valid (drop i src)
        else valid_loop src i 0)"

lemma bit_high_all: "\<forall>n\<in>set [0..<64]. bit high n \<longleftrightarrow> n mod 8 = 7"
  by (simp add: high_def upt_rec)

lemma bit_high: "bit high n \<longleftrightarrow> n < 64 \<and> n mod 8 = 7"
  using bit_high_all bit_imp_le_length [of high n] by auto

lemma byte_ascii: "(b :: byte) < 0x80 \<longleftrightarrow> \<not> bit b 7"
proof -
  have "b < 0x80 \<longleftrightarrow> take_bit 7 b = b"
    by (simp add: word_unat_eq_iff unsigned_take_bit_eq take_bit_nat_eq_self_iff word_less_nat_alt)
  also have "\<dots> \<longleftrightarrow> \<not> bit b 7"
  proof
    assume b: "\<not> bit b 7"
    show "take_bit 7 b = b"
    proof (rule bit_word_eqI)
      fix n assume "n < LENGTH(8)"
      then have "n < 7 \<or> n = 7" by auto
      with b show "bit (take_bit 7 b) n = bit b n" by (auto simp: bit_take_bit_iff)
    qed
  next
    assume b: "take_bit 7 b = b"
    have "\<not> bit (take_bit 7 b) 7" by (simp add: bit_take_bit_iff)
    with b show "\<not> bit b 7" by simp
  qed
  finally show ?thesis .
qed

lemma le_get_ascii:
  assumes "length bs = 8"
  shows "(le_get bs :: u64) AND high = 0 \<longleftrightarrow> ascii bs"
proof -
  have "(le_get bs :: u64) AND high = 0 \<longleftrightarrow> (\<forall>n. n < 64 \<and> n mod 8 = 7 \<longrightarrow> \<not> bit (bs ! (n div 8)) 7)"
  proof -
    have "(le_get bs :: u64) AND high = 0 \<longleftrightarrow> (\<forall>n < 64. \<not> bit ((le_get bs :: u64) AND high) n)"
      by (safe; (intro bit_word_eqI)?) simp_all
    then show ?thesis using assms by (auto simp: bit_and_iff bit_le_get bit_high)
  qed
  also have "\<dots> \<longleftrightarrow> (\<forall>i < 8. \<not> bit (bs ! i) 7)"
  proof safe
    fix i :: nat assume a: "\<forall>n. n < 64 \<and> n mod 8 = 7 \<longrightarrow> \<not> bit (bs ! (n div 8)) 7" "i < 8" "bit (bs ! i) 7"
    then show False using a(1)[rule_format, of "8 * i + 7"] by simp
  qed auto
  also have "\<dots> \<longleftrightarrow> ascii bs"
    using assms by (simp add: ascii_def list_all_length byte_ascii)
  finally show ?thesis .
qed

lemma word8_ascii:
  "i + 8 \<le> length src \<Longrightarrow> word8 src i AND high = 0 \<longleftrightarrow> ascii (go_slice i (i + 8) src)"
  by (simp add: word8_def le_get_ascii)

lemma ascii_append [simp]: "ascii (xs @ ys) \<longleftrightarrow> ascii xs \<and> ascii ys"
  by (simp add: ascii_def)

lemma ascii_take_slice:
  "ascii (take (i + n) src) \<longleftrightarrow> ascii (take i src) \<and> ascii (go_slice i (i + n) src)"
  by (simp add: take_add go_slice_def)

lemma ascii_words:
  "i + 16 \<le> length src \<Longrightarrow>
     (word8 src i OR word8 src (i + 8)) AND high = 0 \<longleftrightarrow> ascii (go_slice i (i + 16) src)"
  using word8_ascii [of i src] word8_ascii [of "i + 8" src] 
    take_add [of 8 8 "drop i src"]
  by (simp add: and.commute [of _ high] bit.conj_disj_distrib or_eq_0_iff go_slice_def add.commute)

lemma ascii_words4:
  "i + 32 \<le> length src \<Longrightarrow>
     (word8 src i OR word8 src (i + 8) OR word8 src (i + 16) OR word8 src (i + 24)) AND high = 0
       \<longleftrightarrow> ascii (go_slice i (i + 32) src)"
  using ascii_words [of i src] ascii_words [of "i + 16" src] take_add [of 16 16 "drop i src"]
  by (auto simp: and.commute [of _ high] bit.conj_disj_distrib or_eq_0_iff go_slice_def add.commute)

definition ascii_upto :: "bytes \<Rightarrow> nat \<Rightarrow> bool" where
  "ascii_upto src i \<longleftrightarrow> i \<le> length src \<and> ascii (take i src)"

lemma ascii_loop32_upto: "ascii_upto src i \<Longrightarrow> ascii_upto src (ascii_loop32 src i)"
proof (induction src i rule: ascii_loop32.induct)
  case (1 src i)
  then show ?case
    by (subst ascii_loop32.simps) (auto simp: Let_def ascii_words4 ascii_upto_def ascii_take_slice)
qed

lemma ascii_tail_max:
  "ascii_upto src i \<Longrightarrow>
     ascii_upto src (ascii_tail src i) \<and>
     (ascii_tail src i < length src \<longrightarrow> \<not> src ! (ascii_tail src i) < 0x80)"
proof (induction src i rule: ascii_tail.induct)
  case (1 src i)
  show ?case
  proof (cases "i < length src \<and> src ! i < 0x80")
    case True
    with "1.prems" have "ascii_upto src (i + 1)"
      by (simp add: ascii_upto_def take_Suc_conv_app_nth ascii_def)
    with "1.IH" True show ?thesis by (subst (1 2 3) ascii_tail.simps) simp
  next
    case False
    with "1.prems" show ?thesis by (subst (1 2 3) ascii_tail.simps) auto
  qed
qed

lemma asciiPrefix_max:
  shows "ascii_upto src (asciiPrefix src)"
    and "asciiPrefix src < length src \<Longrightarrow> \<not> src ! (asciiPrefix src) < 0x80"
proof -
  define i where "i = ascii_loop32 src 0"
  define j where "j = (if i + 16 \<le> length src \<and> (word8 src i OR word8 src (i + 8)) AND high = 0 then i + 16 else i)"
  define k where "k = (if j + 8 \<le> length src \<and> word8 src j AND high = 0 then j + 8 else j)"
  have "ascii_upto src i"
    unfolding i_def by (rule ascii_loop32_upto) (simp add: ascii_upto_def ascii_def)
  then have "ascii_upto src j"
    by (auto simp: j_def ascii_upto_def ascii_words ascii_take_slice)
  then have k: "ascii_upto src k"
    by (auto simp: k_def ascii_upto_def word8_ascii ascii_take_slice)
  have p: "asciiPrefix src = ascii_tail src k"
    by (simp only: asciiPrefix_def Let_def i_def j_def k_def)
  show "ascii_upto src (asciiPrefix src)"
    "asciiPrefix src < length src \<Longrightarrow> \<not> src ! (asciiPrefix src) < 0x80"
    using ascii_tail_max [OF k] by (simp_all add: p)
qed

lemma asciiPrefix_takeWhile: "asciiPrefix src = length (takeWhile (\<lambda>b. b < 0x80) src)"
proof -
  have "takeWhile (\<lambda>b. b < 0x80) src = take (asciiPrefix src) src"
    using asciiPrefix_max [of src]
    by (intro takeWhile_eq_take_P_nth) (auto simp: ascii_upto_def ascii_def list_all_length)
  then show ?thesis using asciiPrefix_max(1) [of src] by (simp add: ascii_upto_def)
qed

lemma trun_states: "s \<in> set dfa_states \<Longrightarrow> trun s bs \<in> set dfa_states"
  by (induction bs arbitrary: s) (auto simp: transition_states)

lemma valid_loop_trun:
  "i \<le> length src \<Longrightarrow> s \<in> set dfa_states \<Longrightarrow> state AND 63 = s \<Longrightarrow>
     valid_loop src i state \<longleftrightarrow> trun s (drop i src) = accept"
proof (induction src i state arbitrary: s rule: valid_loop.induct)
  case (1 src i state)
  show ?case
  proof (cases "i + 8 \<le> length src")
    case True
    have d: "drop i src = go_slice i (i + 8) src @ drop (i + 8) src"
      by (simp add: go_slice_def) (metis add.commute append_take_drop_id drop_drop)
    show ?thesis
    proof (cases "state AND 63 = accept \<and> word8 src i AND high = 0")
      case skip: True
      then have "trun s (go_slice i (i + 8) src) = s"
        using True "1.prems" by (simp add: word8_ascii ascii_def trun_ascii)
      with skip True 1 show ?thesis by (subst valid_loop.simps) (simp add: d)
    next
      case False
      define st where "st = foldl dfa_step state (go_slice i (i + 8) src)"
      have st: "st AND 63 = trun s (go_slice i (i + 8) src)"
        unfolding st_def using "1.prems" by (intro foldl_dfa_step)
      have m: "trun s (go_slice i (i + 8) src) \<in> set dfa_states" using "1.prems" by (intro trun_states)
      show ?thesis
        using True False 1(2)[OF True False st_def _ True m st]
        by (subst valid_loop.simps) (auto simp: d st Let_def simp flip: st_def)
    qed
  next
    case False
    with "1.prems" show ?thesis
      by (subst valid_loop.simps) (simp add: foldl_dfa_step)
  qed
qed

lemma Valid_std_Valid: "Valid src \<longleftrightarrow> std_Valid src"
proof -
  define i where "i = asciiPrefix src"
  have i: "i \<le> length src" "ascii (take i src)"
    using asciiPrefix_max(1) [of src] by (simp_all add: i_def ascii_upto_def)
  have src: "trun accept src = trun accept (drop i src)"
    using trun_ascii i(2) by (metis append_take_drop_id ascii_def trun_simps(3))
  have "accept \<in> set dfa_states" "(0 :: u64) AND 63 = accept" by (simp_all add: dfa_states_def state_defs)
  then have "valid_loop src i 0 \<longleftrightarrow> trun accept (drop i src) = accept"
    using i(1) by (intro valid_loop_trun)
  then show ?thesis
    unfolding Valid_def i_def [symmetric] Let_def
    by (auto simp: trun_std_Valid [symmetric] src)
qed

text \<open>C20: The validator accepts a byte string exactly when it is the concatenation of the
  UTF-8 encodings of Unicode scalar values, so overlong forms, surrogates, values above
  U+10FFFF and truncated sequences are refused and nothing else is, for inputs of every length
  and every placement of ASCII runs.\<close>

theorem Valid_rfc3629: "Valid src \<longleftrightarrow> is_utf8 src"
  by (simp add: Valid_std_Valid std_Valid_iff)

end
