(* ===== verification/CloseFrame.thy ===== *)
theory CloseFrame
  imports Decoder Utf8
begin

text \<open>
  The error values of the package (\<^verbatim>\<open>src/ws/errors.go\<close>) and the payload of close frames
  (\<^verbatim>\<open>src/ws/close.go\<close>).
\<close>

text \<open>
  \<open>Error\<close> and \<open>CloseError\<close> are the two error structs of the package, \<open>CodecError\<close> an
  error of the codec passed through, \<open>EOF\<close> to \<open>ErrShortWrite\<close> those of \<open>io\<close>, and
  \<open>IOError\<close> any error of the transport, which the code only hands on.
\<close>

datatype go_error =
    ErrClosing
  | ErrProtocol
  | ErrInvalidUTF8
  | ErrMessageTooLarge
  | ErrInvalidData
  | ErrInvalidConfig
  | ErrMessageOpen
  | ErrNoMessage
  | ErrQueueFull
  | CodecError codec_error
  | Error u16 go_error
  | CloseError u16 bytes
  | EOF
  | UnexpectedEOF
  | ErrNoProgress
  | ErrShortWrite
  | ErrUnexpectedType
  | PanicError nat
  | IOError nat

definition NoStatus :: u16 where "NoStatus = 1005"

definition validCloseCode :: "u16 \<Rightarrow> bool" where
  "validCloseCode code =
    (if code \<ge> 1000 \<and> code \<le> 1003 \<or> code \<ge> 1007 \<and> code \<le> 1014 then True
     else code \<ge> 3000 \<and> code \<le> 4999)"

definition validateClose :: "bytes \<Rightarrow> go_error option" where
  "validateClose payload =
    (if length payload = 0 then None
     else if length payload < 2 \<or> length payload > 125 \<or> \<not> validCloseCode (be_get (take 2 payload))
     then Some ErrProtocol
     else if \<not> std_Valid (drop 2 payload) then Some ErrInvalidUTF8
     else None)"

definition parseClose :: "bytes \<Rightarrow> u16 \<times> bytes" where
  "parseClose payload =
    (if length payload < 2 then (NoStatus, []) else (be_get (take 2 payload), drop 2 payload))"

lemma be_put2_code: "be_put 2 (be_get bs :: u16) = bs" if "length bs = 2"
  using be_put_get [of bs, where 'a = 16] that by simp

text \<open>C31: A close payload is accepted exactly when it is empty, or a two-byte code of the
  ranges 1000-1003, 1007-1014 or 3000-4999 followed by a UTF-8 reason of at most 123 bytes;
  the reserved codes 1004, 1005, 1006 and 1015 are never accepted on the wire, and the code and
  reason read back from an accepted payload are the ones that were written.\<close>

theorem close_payload_accepted:
  "validateClose payload = None \<longleftrightarrow>
     payload = [] \<or>
     (\<exists>code reason. payload = be_put 2 (code :: u16) @ reason \<and> length reason \<le> 123 \<and> is_utf8 reason
        \<and> (unat code \<in> {1000..1003} \<union> {1007..1014} \<union> {3000..4999})
        \<and> parseClose payload = (code, reason))"
proof (cases "length payload < 2")
  case True
  then show ?thesis by (auto simp: validateClose_def)
next
  case False
  define c where "c = (be_get (take 2 payload) :: u16)"
  have p: "payload = be_put 2 c @ drop 2 payload"
    using False by (simp add: c_def be_put2_code)
  have code: "validCloseCode c \<longleftrightarrow> unat c \<in> {1000..1003} \<union> {1007..1014} \<union> {3000..4999}"
    by (auto simp: validCloseCode_def word_le_nat_alt)
  have parse: "parseClose payload = (c, drop 2 payload)"
    using False by (simp add: parseClose_def c_def)
  have v: "validateClose payload = None \<longleftrightarrow> length payload \<le> 125 \<and> validCloseCode c \<and> is_utf8 (drop 2 payload)"
    using False by (auto simp: validateClose_def c_def std_Valid_iff)
  show ?thesis
  proof
    assume "validateClose payload = None"
    then show "payload = [] \<or> (\<exists>code reason. payload = be_put 2 (code :: u16) @ reason \<and> length reason \<le> 123
        \<and> is_utf8 reason \<and> (unat code \<in> {1000..1003} \<union> {1007..1014} \<union> {3000..4999})
        \<and> parseClose payload = (code, reason))"
      using v code parse p by (intro disjI2 exI [of _ c] exI [of _ "drop 2 payload"]) auto
  next
    assume "payload = [] \<or> (\<exists>code reason. payload = be_put 2 (code :: u16) @ reason \<and> length reason \<le> 123
        \<and> is_utf8 reason \<and> (unat code \<in> {1000..1003} \<union> {1007..1014} \<union> {3000..4999})
        \<and> parseClose payload = (code, reason))"
    with False obtain code reason where w: "payload = be_put 2 (code :: u16) @ reason" "length reason \<le> 123"
      "is_utf8 reason" "unat code \<in> {1000..1003} \<union> {1007..1014} \<union> {3000..4999}"
      "parseClose payload = (code, reason)" by auto
    then have "c = code" "drop 2 payload = reason" using parse by auto
    with w v code show "validateClose payload = None" by auto
  qed
qed

end
