(* ===== verification/Sender.thy ===== *)
theory Sender
  imports CloseFrame
begin

text \<open>
  The outgoing side of a connection, \<^verbatim>\<open>src/ws/sender.go\<close>: it checks what may be sent,
  draws a fresh masking key for a client frame and runs the frame encoder. The key bytes
  \<open>rand.Read\<close> delivers are the argument \<open>rnd\<close> of each call; \<open>gc\<close> is the encoder's growth
  parameter. A call returns the error or the header and body bytes, and the sender after it.
\<close>

datatype Role = Server | Client

definition poolKeep :: int where "poolKeep = 2 ^ 20"

record sender =
  tx_role :: Role
  tx_enc :: encoder
  tx_key :: bytes
  closeBuf :: bytes
  closeSent :: bool

definition zero_sender :: sender where
  "zero_sender = \<lparr>tx_role = Server, tx_enc = zero_encoder, tx_key = replicate 4 0,
     closeBuf = replicate 125 0, closeSent = False\<rparr>"

definition sender_Init :: "Role \<Rightarrow> sender \<Rightarrow> sender" where
  "sender_Init role s =
     s\<lparr>tx_role := role, tx_enc := (enc_Reset (tx_enc s))\<lparr>ScratchKeep := poolKeep\<rparr>, closeSent := False\<rparr>"

definition CloseSent :: "sender \<Rightarrow> bool" where "CloseSent s = closeSent s"

type_synonym frame_result = "go_error + bytes \<times> bytes"

definition encodeFrame ::
    "(nat \<Rightarrow> nat \<Rightarrow> nat) \<Rightarrow> bytes \<Rightarrow> opcode \<Rightarrow> bool \<Rightarrow> bytes \<Rightarrow> bool \<Rightarrow> sender \<Rightarrow> frame_result \<times> sender" where
  "encodeFrame gc rnd op final payload compressed s =
    (if closeSent s \<and> op \<noteq> Pong then (Inl ErrClosing, s)
     else
       (let s = (if tx_role s = Client then s\<lparr>tx_key := rnd\<rparr> else s);
            key = (if tx_role s = Client then Some (tx_key s) else None);
            (err, enc) = (if compressed then EncodeCompressed gc final op payload key (tx_enc s)
                          else Encode gc final op payload key (tx_enc s));
            s = s\<lparr>tx_enc := enc\<rparr>
        in case err of
             Some e \<Rightarrow> (Inl (CodecError e), s)
           | None \<Rightarrow>
               (let s = (if op = Close then s\<lparr>closeSent := True\<rparr> else s)
                in (Inr (HeaderBytes (tx_enc s), PayloadBytes (tx_enc s)), s))))"

definition encode_checked ::
    "(nat \<Rightarrow> nat \<Rightarrow> nat) \<Rightarrow> bytes \<Rightarrow> opcode \<Rightarrow> bytes \<Rightarrow> bool \<Rightarrow> sender \<Rightarrow> frame_result \<times> sender" where
  "encode_checked gc rnd op payload compressed s =
    (if closeSent s \<and> op \<noteq> Pong then (Inl ErrClosing, s)
     else if op = Text \<or> op = Binary then encodeFrame gc rnd op True payload compressed s
     else if op = Ping \<or> op = Pong then
       (if length payload > 125 then (Inl ErrProtocol, s)
        else encodeFrame gc rnd op True payload compressed s)
     else if op = Close then
       (case validateClose payload of
          Some err \<Rightarrow> (Inl err, s)
        | None \<Rightarrow> encodeFrame gc rnd op True payload compressed s)
     else (Inl ErrProtocol, s))"

definition sender_Encode ::
    "(nat \<Rightarrow> nat \<Rightarrow> nat) \<Rightarrow> bytes \<Rightarrow> opcode \<Rightarrow> bytes \<Rightarrow> sender \<Rightarrow> frame_result \<times> sender" where
  "sender_Encode gc rnd op payload s = encode_checked gc rnd op payload False s"

definition sender_EncodeCompressed ::
    "(nat \<Rightarrow> nat \<Rightarrow> nat) \<Rightarrow> bytes \<Rightarrow> opcode \<Rightarrow> bytes \<Rightarrow> sender \<Rightarrow> frame_result \<times> sender" where
  "sender_EncodeCompressed gc rnd op payload s =
    (if op \<noteq> Text \<and> op \<noteq> Binary then (Inl ErrProtocol, s)
     else encode_checked gc rnd op payload True s)"

definition EncodeFragment ::
    "(nat \<Rightarrow> nat \<Rightarrow> nat) \<Rightarrow> bytes \<Rightarrow> opcode \<Rightarrow> bool \<Rightarrow> bytes \<Rightarrow> bool \<Rightarrow> sender \<Rightarrow> frame_result \<times> sender" where
  "EncodeFragment gc rnd op final payload compressed s =
    (if op \<noteq> Text \<and> op \<noteq> Binary \<and> op \<noteq> Continuation then (Inl ErrProtocol, s)
     else encodeFrame gc rnd op final payload compressed s)"

definition EncodeClose ::
    "(nat \<Rightarrow> nat \<Rightarrow> nat) \<Rightarrow> bytes \<Rightarrow> u16 \<Rightarrow> bytes \<Rightarrow> sender \<Rightarrow> frame_result \<times> sender" where
  "EncodeClose gc rnd code reason s =
    (if code = 0 then
       (if reason \<noteq> [] then (Inl ErrProtocol, s) else sender_Encode gc rnd Close [] s)
     else if length reason > 123 then (Inl ErrProtocol, s)
     else
       (let s = s\<lparr>closeBuf := put_at 2 reason (put_at 0 (be_put 2 code) (closeBuf s))\<rparr>
        in sender_Encode gc rnd Close (take (2 + length reason) (closeBuf s)) s))"

text \<open>The calls a connection makes, as one step of the sender.\<close>

datatype tx_call =
    TxEncode opcode bytes
  | TxCompressed opcode bytes
  | TxFragment opcode bool bytes bool
  | TxClose u16 bytes

fun tx_step :: "(nat \<Rightarrow> nat \<Rightarrow> nat) \<Rightarrow> bytes \<Rightarrow> tx_call \<Rightarrow> sender \<Rightarrow> frame_result \<times> sender" where
  "tx_step gc rnd (TxEncode op p) s = sender_Encode gc rnd op p s"
| "tx_step gc rnd (TxCompressed op p) s = sender_EncodeCompressed gc rnd op p s"
| "tx_step gc rnd (TxFragment op final p compressed) s = EncodeFragment gc rnd op final p compressed s"
| "tx_step gc rnd (TxClose code reason) s = EncodeClose gc rnd code reason s"

text \<open>What a call asks for: opcode, FIN, payload, RSV1.\<close>

fun tx_frame :: "tx_call \<Rightarrow> opcode \<times> bool \<times> bytes \<times> bool" where
  "tx_frame (TxEncode op p) = (op, True, p, False)"
| "tx_frame (TxCompressed op p) = (op, True, p, True)"
| "tx_frame (TxFragment op final p compressed) = (op, final, p, compressed \<and> op \<noteq> Continuation)"
| "tx_frame (TxClose code reason) = (Close, True, if code = 0 then [] else be_put 2 code @ reason, False)"

section \<open>Frames on the wire\<close>

definition first_byte :: "opcode \<Rightarrow> bool \<Rightarrow> bool \<Rightarrow> byte" where
  "first_byte op final rsv1 = op OR (if final then 0x80 else 0) OR (if rsv1 then 0x40 else 0)"

definition wire_frame :: "opcode \<Rightarrow> bool \<Rightarrow> bool \<Rightarrow> bytes option \<Rightarrow> bytes \<Rightarrow> bytes" where
  "wire_frame op final rsv1 key payload =
     wire_header (first_byte op final rsv1) (length payload) key
       @ (case key of None \<Rightarrow> payload | Some k \<Rightarrow> mask_ref k 0 payload)"

definition tx_key_of :: "sender \<Rightarrow> bytes \<Rightarrow> bytes option" where
  "tx_key_of s rnd = (if tx_role s = Client then Some rnd else None)"

lemma encodeFrame_wire:
  assumes "encodeFrame gc rnd op final payload compressed s = (Inr (h, b), s')" "length rnd = 4"
  shows "h @ b = wire_frame op final (compressed \<and> op \<noteq> Continuation) (tx_key_of s rnd) payload
    \<and> closeSent s' = (closeSent s \<or> op = Close) \<and> tx_role s' = tx_role s
    \<and> (closeSent s \<longrightarrow> op = Pong)
    \<and> (if compressed then op = Text \<or> op = Binary \<or> op = Continuation else check_frame final op payload = None)"
proof -
  let ?k = "tx_key_of s rnd"
  define r where "r = (if compressed then EncodeCompressed gc final op payload ?k (tx_enc s)
                          else Encode gc final op payload ?k (tx_enc s))"
  have k: "key_ok ?k" using assms(2) by (simp add: tx_key_of_def)
  have res: "fst r = None" "h = HeaderBytes (snd r)" "b = PayloadBytes (snd r)"
    "closeSent s' = (closeSent s \<or> op = Close)" "tx_role s' = tx_role s" "closeSent s \<longrightarrow> op = Pong"
    using assms(1) unfolding r_def encodeFrame_def tx_key_of_def
    by (auto simp: Let_def split: if_splits prod.splits option.splits)
  show ?thesis
  proof (cases compressed)
    case True
    have op: "op = Text \<or> op = Binary \<or> op = Continuation"
      using res(1) True by (auto simp: r_def EncodeCompressed_def split: if_splits)
    have "r = EncodeCompressed gc final op payload ?k (tx_enc s)" using True by (simp add: r_def)
    note ok = EncodeCompressed_ok [OF op k this]
    have "op OR fin_bit final OR rsv1_bit op = first_byte op final (op \<noteq> Continuation)"
      by (simp add: first_byte_def fin_bit_def rsv1_bit_def)
    with ok(2,3) res True op k show ?thesis
      by (simp add: wire_frame_def HeaderBytes_def header_of_Bytes)
  next
    case False
    then have r: "r = Encode gc final op payload ?k (tx_enc s)" by (simp add: r_def)
    have chk: "check_frame final op payload = None"
      using res(1) Encode_error [of final op payload _ gc ?k "tx_enc s"]
      by (cases "check_frame final op payload") (auto simp: r)
    note ok = Encode_ok [OF chk k, of gc "tx_enc s", folded r]
    have "op OR fin_bit final = first_byte op final False" by (simp add: first_byte_def fin_bit_def)
    with ok(2,3) res False k chk show ?thesis
      by (simp add: wire_frame_def HeaderBytes_def header_of_Bytes)
  qed
qed

definition sendable :: "opcode \<Rightarrow> bool \<Rightarrow> bool \<Rightarrow> bytes \<Rightarrow> bool" where
  "sendable op final rsv1 payload \<longleftrightarrow>
     op \<in> {Continuation, Text, Binary, Close, Ping, Pong}
     \<and> (rsv1 \<longrightarrow> op = Text \<or> op = Binary)
     \<and> (op \<in> {Close, Ping, Pong} \<longrightarrow> final \<and> length payload \<le> 125)
     \<and> (op = Close \<longrightarrow> validateClose payload = None)"

definition sender_inv :: "sender \<Rightarrow> bool" where
  "sender_inv s \<longleftrightarrow> length (closeBuf s) = 125"

lemma sender_inv_Init [inv_intros]: "sender_inv s \<Longrightarrow> sender_inv (sender_Init role s)"
  by (simp add: sender_inv_def sender_Init_def)

lemma closeBuf_encodeFrame: "closeBuf (snd (encodeFrame gc rnd op final payload compressed s)) = closeBuf s"
  by (auto simp: encodeFrame_def Let_def split: prod.split option.split)

lemma closeBuf_encode_checked: "closeBuf (snd (encode_checked gc rnd op payload compressed s)) = closeBuf s"
  by (auto simp: encode_checked_def closeBuf_encodeFrame split: option.split)

lemma sender_inv_step [inv_intros]: "sender_inv s \<Longrightarrow> sender_inv (snd (tx_step gc rnd c s))"
  by (cases c)
     (auto simp: sender_inv_def sender_Encode_def sender_EncodeCompressed_def EncodeFragment_def EncodeClose_def
        Let_def closeBuf_encode_checked closeBuf_encodeFrame)

text \<open>What a successful call put on the wire.\<close>

definition sent :: "bytes \<Rightarrow> opcode \<times> bool \<times> bytes \<times> bool \<Rightarrow> sender \<Rightarrow> bytes \<Rightarrow> sender \<Rightarrow> bool" where
  "sent rnd fr s out s' = (case fr of (op, final, payload, rsv1) \<Rightarrow>
     out = wire_frame op final rsv1 (tx_key_of s rnd) payload \<and> sendable op final rsv1 payload
     \<and> closeSent s' = (closeSent s \<or> op = Close) \<and> tx_role s' = tx_role s \<and> (closeSent s \<longrightarrow> op = Pong))"

lemma encode_checked_sent:
  assumes e: "encode_checked gc rnd op payload compressed s = (Inr (h, b), s')" and r: "length rnd = 4"
  shows "sent rnd (op, True, payload, compressed) s (h @ b) s'"
proof -
  have f: "encodeFrame gc rnd op True payload compressed s = (Inr (h, b), s')"
    and op: "op \<in> {Text, Binary, Close, Ping, Pong}" "op \<in> {Ping, Pong} \<longrightarrow> length payload \<le> 125"
      "op = Close \<longrightarrow> validateClose payload = None"
    using e by (auto simp: encode_checked_def split: if_splits option.splits)
  have "op = Close \<longrightarrow> length payload \<le> 125"
    using op(3) by (auto simp: validateClose_def split: if_splits)
  with encodeFrame_wire [OF f r] op show ?thesis
    by (auto simp: sent_def sendable_def split: if_splits)
qed

lemma tx_step_sent:
  assumes st: "tx_step gc rnd c s = (Inr (h, b), s')" and r: "length rnd = 4" and inv: "sender_inv s"
  shows "sent rnd (tx_frame c) s (h @ b) s'"
proof (cases c)
  case (TxEncode op p)
  with st show ?thesis
    by (auto simp: sender_Encode_def intro: encode_checked_sent [OF _ r])
next
  case (TxCompressed op p)
  with st show ?thesis
    by (auto simp: sender_EncodeCompressed_def intro: encode_checked_sent [OF _ r] split: if_splits)
next
  case (TxFragment op final p compressed)
  with st have f: "encodeFrame gc rnd op final p compressed s = (Inr (h, b), s')"
    and "op \<in> {Text, Binary, Continuation}"
    by (auto simp: EncodeFragment_def split: if_splits)
  with encodeFrame_wire [OF f r] TxFragment show ?thesis
    by (auto simp: sent_def sendable_def)
next
  case (TxClose code reason)
  show ?thesis
  proof (cases "code = 0")
    case True
    with st TxClose show ?thesis
      by (auto simp: EncodeClose_def sender_Encode_def intro: encode_checked_sent [OF _ r] split: if_splits)
  next
    case False
    define s1 where "s1 = s\<lparr>closeBuf := put_at 2 reason (put_at 0 (be_put 2 code) (closeBuf s))\<rparr>"
    have l: "length reason \<le> 123" and e: "encode_checked gc rnd Close (take (2 + length reason) (closeBuf s1)) False s1
        = (Inr (h, b), s')"
      using st TxClose False by (auto simp: EncodeClose_def sender_Encode_def s1_def Let_def split: if_splits)
    have "take (2 + length reason) (closeBuf s1) = be_put 2 code @ reason"
      using l inv by (simp add: s1_def sender_inv_def put_at_def)
    with encode_checked_sent [OF e r] TxClose False show ?thesis
      by (simp add: sent_def s1_def tx_key_of_def)
  qed
qed

lemma encodeFrame_refused:
  "encodeFrame gc rnd op final payload compressed s = (Inl err, s') \<Longrightarrow> closeSent s' = closeSent s"
  by (auto simp: encodeFrame_def Let_def split: if_splits prod.splits option.splits)

lemma encode_checked_refused:
  "encode_checked gc rnd op payload compressed s = (Inl err, s') \<Longrightarrow> closeSent s' = closeSent s"
  by (auto simp: encode_checked_def dest: encodeFrame_refused split: if_splits option.splits)

lemma tx_step_refused:
  "tx_step gc rnd c s = (Inl err, s') \<Longrightarrow> closeSent s' = closeSent s"
  by (cases c)
     (auto simp: sender_Encode_def sender_EncodeCompressed_def EncodeFragment_def EncodeClose_def Let_def
        dest: encodeFrame_refused encode_checked_refused split: if_splits)

section \<open>Sequences of calls\<close>

primrec tx_run :: "(nat \<Rightarrow> nat \<Rightarrow> nat) \<Rightarrow> (bytes \<times> tx_call) list \<Rightarrow> sender \<Rightarrow> frame_result list \<times> sender" where
  "tx_run gc [] s = ([], s)"
| "tx_run gc (c # cs) s =
    (let (r, s1) = tx_step gc (fst c) (snd c) s;
         (rs, s2) = tx_run gc cs s1
     in (r # rs, s2))"

lemma length_tx_run [simp]: "length (fst (tx_run gc cs s)) = length cs"
  by (induction cs arbitrary: s) (auto simp: split_def Let_def)

definition opcode_of :: "tx_call \<Rightarrow> opcode" where
  "opcode_of c = fst (tx_frame c)"

lemma closed_only_pong:
  assumes "closeSent s" "sender_inv s" "\<forall>c\<in>set cs. length (fst c) = 4" "j < length cs"
    "isl (fst (tx_run gc cs s) ! j) = False"
  shows "opcode_of (snd (cs ! j)) = Pong"
  using assms
proof (induction cs arbitrary: s j)
  case (Cons c cs)
  obtain r s1 where st: "tx_step gc (fst c) (snd c) s = (r, s1)" by (cases "tx_step gc (fst c) (snd c) s")
  have inv: "sender_inv s1" using sender_inv_step [OF Cons.prems(2), of gc "fst c" "snd c"] st by simp
  have s1: "closeSent s1 \<and> (isl r = False \<longrightarrow> opcode_of (snd c) = Pong)"
  proof (cases r)
    case (Inl e)
    with tx_step_refused st Cons.prems(1) show ?thesis by auto
  next
    case (Inr hb)
    obtain h b where hb: "hb = (h, b)" by (cases hb)
    have "length (fst c) = 4" using Cons.prems(3) by simp
    from tx_step_sent [OF st [unfolded Inr hb] this Cons.prems(2)] Cons.prems(1) show ?thesis
      by (auto simp: sent_def opcode_of_def split: prod.splits)
  qed
  show ?case
  proof (cases j)
    case 0
    with s1 st Cons.prems(5) show ?thesis by (simp add: split_def Let_def)
  next
    case (Suc i)
    with Cons.prems(4,5) st have "i < length cs" "isl (fst (tx_run gc cs s1) ! i) = False"
      by (auto simp: split_def Let_def)
    with Cons.IH [OF _ inv, of i] s1 Cons.prems(3) Suc show ?thesis by auto
  qed
qed simp

lemma tx_run_append:
  "tx_run gc (cs @ ds) s = (let (rs, s1) = tx_run gc cs s; (ts, s2) = tx_run gc ds s1 in (rs @ ts, s2))"
  by (induction cs arbitrary: s) (auto simp: split_def Let_def)

lemma sender_inv_run [inv_intros]: "sender_inv s \<Longrightarrow> sender_inv (snd (tx_run gc cs s))"
  by (induction cs arbitrary: s) (auto simp: split_def Let_def intro: inv_intros)

text \<open>C19: Once a close frame has gone out, the sender lets nothing out but pongs: in every
  sequence of calls, a call that succeeds after a successful close is a pong, so in particular at
  most one close frame is ever sent on a connection.\<close>

theorem nothing_but_pong_after_close:
  assumes inv: "sender_inv s" and rnd: "\<forall>c\<in>set cs. length (fst c) = 4"
    and ij: "i < j" "j < length cs"
    and ri: "\<not> isl (fst (tx_run gc cs s) ! i)" and ci: "opcode_of (snd (cs ! i)) = Close"
    and rj: "\<not> isl (fst (tx_run gc cs s) ! j)"
  shows "opcode_of (snd (cs ! j)) = Pong"
proof -
  define pre where "pre = take i cs"
  define s0 where "s0 = snd (tx_run gc pre s)"
  obtain r s1 where st: "tx_step gc (fst (cs ! i)) (snd (cs ! i)) s0 = (r, s1)"
    by (cases "tx_step gc (fst (cs ! i)) (snd (cs ! i)) s0")
  have cs: "cs = pre @ cs ! i # drop (Suc i) cs"
    using ij by (simp add: pre_def id_take_nth_drop [symmetric])
  have run: "fst (tx_run gc cs s) = fst (tx_run gc pre s) @ r # fst (tx_run gc (drop (Suc i) cs) s1)"
    using st by (subst cs) (simp add: tx_run_append split_def Let_def s0_def)
  have lp: "length (fst (tx_run gc pre s)) = i" using ij by (simp add: pre_def)
  have inv0: "sender_inv s0" unfolding s0_def by (intro inv_intros inv)
  have inv1: "sender_inv s1" using sender_inv_step [OF inv0, of gc "fst (cs ! i)" "snd (cs ! i)"] st by simp
  have "\<not> isl r" using ri lp by (simp add: run nth_append)
  then obtain h b where "r = Inr (h, b)" by (cases r) auto
  moreover have "length (fst (cs ! i)) = 4" using rnd ij by simp
  ultimately have "sent (fst (cs ! i)) (tx_frame (snd (cs ! i))) s0 (h @ b) s1"
    using tx_step_sent [OF _ _ inv0] st by blast
  then have "closeSent s1" using ci by (auto simp: sent_def opcode_of_def split: prod.splits)
  moreover have "\<forall>c\<in>set (drop (Suc i) cs). length (fst c) = 4" using rnd by (auto dest: in_set_dropD)
  moreover have "\<not> isl (fst (tx_run gc (drop (Suc i) cs) s1) ! (j - Suc i))"
    using rj ij lp by (simp add: run nth_append)
  ultimately have "opcode_of (snd (drop (Suc i) cs ! (j - Suc i))) = Pong"
    using closed_only_pong [of s1 "drop (Suc i) cs" "j - Suc i" gc] inv1 ij by simp
  then show ?thesis using ij by simp
qed

theorem nothing_but_pong_after_close_witness:
  "opcode_of (snd ([([1, 2, 3, 4], TxClose 1000 [98]), ([5, 6, 7, 8], TxEncode Pong [1])] ! 1)) = Pong
   \<and> \<not> isl (fst (tx_run (\<lambda>c n. n) [([1, 2, 3, 4], TxClose 1000 [98]), ([5, 6, 7, 8], TxEncode Pong [1])]
        (sender_Init Client zero_sender)) ! 1)"
proof -
  let ?cs = "[([1, 2, 3, 4], TxClose 1000 [98]), ([5, 6, 7, 8], TxEncode Pong [1])]"
  let ?s = "sender_Init Client zero_sender"
  have "\<not> isl (fst (tx_run (\<lambda>c n. n) ?cs ?s) ! 0)" "\<not> isl (fst (tx_run (\<lambda>c n. n) ?cs ?s) ! 1)"
    "sender_inv ?s"
    by code_simp+
  then show ?thesis
    using nothing_but_pong_after_close [of ?s ?cs 0 1 "\<lambda>c n. n"] by (simp add: opcode_of_def)
qed

text \<open>C25: Every frame the sender lets out is the wire form of what the call asked for: FIN,
  RSV1 and opcode in the first byte, the minimal length, the key drawn for this call and the
  masked payload for a client, no mask for a server; and it is a frame the protocol allows (a known
  opcode, RSV1 only on a first data frame, control frames final and at most 125 bytes, a valid close
  payload). A refused call leaves the close state as it was.\<close>

theorem sender_frame_on_wire:
  assumes "tx_step gc rnd c s = (r, s')" "length rnd = 4" "sender_inv s"
    "tx_frame c = (op, final, payload, rsv1)"
  shows "case r of
      Inl err \<Rightarrow> closeSent s' = closeSent s
    | Inr (h, b) \<Rightarrow>
        h @ b = wire_frame op final rsv1 (if tx_role s = Client then Some rnd else None) payload
        \<and> sendable op final rsv1 payload \<and> closeSent s' = (closeSent s \<or> op = Close)"
proof (cases r)
  case (Inl e)
  with assms tx_step_refused show ?thesis by auto
next
  case (Inr hb)
  obtain h b where hb: "hb = (h, b)" by (cases hb)
  from tx_step_sent [OF assms(1) [unfolded Inr hb] assms(2,3)] Inr hb assms(4) show ?thesis
    by (simp add: sent_def tx_key_of_def)
qed

theorem sender_frame_on_wire_witness:
  "\<exists>h b s'. tx_step (\<lambda>c n. n) [1, 2, 3, 4] (TxEncode Text [104, 105]) (sender_Init Client zero_sender) = (Inr (h, b), s')
     \<and> h @ b = wire_frame Text True False (Some [1, 2, 3, 4]) [104, 105]"
proof -
  let ?s = "sender_Init Client zero_sender"
  obtain r s' where st: "tx_step (\<lambda>c n. n) [1, 2, 3, 4] (TxEncode Text [104, 105]) ?s = (r, s')"
    by (cases "tx_step (\<lambda>c n. n) [1, 2, 3, 4] (TxEncode Text [104, 105]) ?s")
  have "\<not> isl (fst (tx_step (\<lambda>c n. n) [1, 2, 3, 4] (TxEncode Text [104, 105]) ?s))" by code_simp
  then obtain h b where r: "r = Inr (h, b)" using st by (cases r) auto
  have "sender_inv ?s" "tx_role ?s = Client" by code_simp+
  with sender_frame_on_wire [OF st, of Text True "[104, 105]" False] r st show ?thesis by auto
qed

end
