(* ===== verification/Receiver.thy ===== *)
theory Receiver
  imports Sender
begin

text \<open>
  The incoming side of a connection, \<^verbatim>\<open>src/ws/receiver.go\<close>: frame validation and message
  state over the frame decoder. \<open>Next\<close> is the source's loop unrolled: an iteration that
  opens a control frame continues into the control branch, which always returns.
\<close>

datatype frameKind = NeedInput | DataFrame | ControlFrame

record receiver =
  rx_role :: Role
  compression :: bool
  rx_dec :: decoder
  rx_header :: header
  rx_remaining :: u64
  masked :: bool
  maskKey :: bytes
  maskOffset :: byte
  messageOpcode :: opcode
  rx_compressed :: bool
  control :: bytes
  controlLen :: byte
  controlOpcode :: opcode
  controlOpen :: bool
  closeReceived :: bool
  failed :: "(u16 \<times> go_error) option"

definition zero_receiver :: "Role \<Rightarrow> bool \<Rightarrow> decoder \<Rightarrow> receiver" where
  "zero_receiver role pmd dec =
    \<lparr>rx_role = role, compression = pmd, rx_dec = dec, rx_header = zero_header, rx_remaining = 0,
     masked = False, maskKey = replicate 4 0, maskOffset = 0, messageOpcode = 0, rx_compressed = False,
     control = replicate 125 0, controlLen = 0, controlOpcode = 0, controlOpen = False,
     closeReceived = False, failed = None\<rparr>"

definition receiver_Init :: "Role \<Rightarrow> bool \<Rightarrow> receiver \<Rightarrow> receiver" where
  "receiver_Init role pmd r = zero_receiver role pmd (dec_Reset (rx_dec r))"

definition receiver_Feed :: "bytes \<Rightarrow> receiver \<Rightarrow> receiver" where
  "receiver_Feed b r = (if failed r = None \<and> \<not> closeReceived r then r\<lparr>rx_dec := Feed b (rx_dec r)\<rparr> else r)"

definition receiver_Preserve :: "receiver \<Rightarrow> receiver" where
  "receiver_Preserve r = r\<lparr>rx_dec := Preserve (rx_dec r)\<rparr>"

definition receiver_Idle :: "receiver \<Rightarrow> bool" where
  "receiver_Idle r \<longleftrightarrow>
     rx_remaining r = 0 \<and> \<not> controlOpen r \<and> messageOpcode r = 0 \<and> Buffered (rx_dec r) = 0"

definition MessageOpen :: "receiver \<Rightarrow> bool" where "MessageOpen r \<longleftrightarrow> messageOpcode r \<noteq> 0"
definition MessageCompressed :: "receiver \<Rightarrow> bool" where "MessageCompressed r = rx_compressed r"
definition ControlOpcode :: "receiver \<Rightarrow> opcode" where "ControlOpcode r = controlOpcode r"
definition ControlPayload :: "receiver \<Rightarrow> bytes" where
  "ControlPayload r = take (unat (controlLen r)) (control r)"

definition rx_fail :: "u16 \<Rightarrow> go_error \<Rightarrow> receiver \<Rightarrow> (go_error + 'a) \<times> receiver" where
  "rx_fail code err r =
    (Inl (Error code err),
     r\<lparr>failed := Some (code, err), rx_remaining := 0, controlOpen := False, messageOpcode := 0,
       rx_dec := dec_Reset (rx_dec r)\<rparr>)"

definition accept_frame :: "header \<Rightarrow> u64 \<Rightarrow> receiver \<Rightarrow> go_error option \<times> receiver" where
  "accept_frame h len r =
    (if Masked h \<noteq> (rx_role r = Server) \<or> RSV2 h \<or> RSV3 h then (Some ErrProtocol, r)
     else if Opcode h = Text \<or> Opcode h = Binary then
       (if messageOpcode r \<noteq> 0 \<or> RSV1 h \<and> \<not> compression r then (Some ErrProtocol, r)
        else (None, r\<lparr>messageOpcode := Opcode h, rx_compressed := RSV1 h\<rparr>))
     else if Opcode h = Continuation then
       (if messageOpcode r = 0 \<or> RSV1 h then (Some ErrProtocol, r) else (None, r))
     else if Opcode h = Close \<or> Opcode h = Ping \<or> Opcode h = Pong then
       (if \<not> Final h \<or> RSV1 h \<or> len > 125 then (Some ErrProtocol, r) else (None, r))
     else (Some ErrProtocol, r))"

definition finishFrame :: "receiver \<Rightarrow> receiver" where
  "finishFrame r = (if Final (rx_header r) then r\<lparr>messageOpcode := 0\<rparr> else r)"

definition finishControl :: "receiver \<Rightarrow> (go_error + frameKind) \<times> receiver" where
  "finishControl r =
    (if controlOpcode r = Close then
       (case validateClose (ControlPayload r) of
          Some err \<Rightarrow> rx_fail (if err = ErrInvalidUTF8 then 1007 else 1002) err r
        | None \<Rightarrow> (Inr ControlFrame, r\<lparr>closeReceived := True, rx_dec := dec_Reset (rx_dec r)\<rparr>))
     else (Inr ControlFrame, r))"

definition next_control :: "receiver \<Rightarrow> (go_error + frameKind) \<times> receiver" where
  "next_control r =
    (let ((chunk, done), dec) = Payload (rx_dec r);
         n = min (125 - unat (controlLen r)) (length chunk);
         ctl = put_at (unat (controlLen r)) (take n chunk) (control r);
         len = controlLen r + of_nat n;
         (ctl, off) =
           (if masked r then
              (let part = go_slice (unat len - n) (unat len) ctl;
                   (m, off) = Mask part (maskKey r) (maskOffset r)
               in (put_at (unat len - n) m ctl, off))
            else (ctl, maskOffset r));
         r = r\<lparr>rx_dec := dec, control := ctl, controlLen := len, maskOffset := off\<rparr>
     in if \<not> done then (Inr NeedInput, r) else finishControl (r\<lparr>controlOpen := False\<rparr>))"

definition next_accepted :: "header \<Rightarrow> u64 \<Rightarrow> receiver \<Rightarrow> (go_error + frameKind) \<times> receiver" where
  "next_accepted h len r =
    (let r = r\<lparr>masked := Masked h, maskOffset := 0\<rparr>;
         r = (if masked r then r\<lparr>maskKey := put_at 0 (MaskKey h) (maskKey r)\<rparr> else r)
     in if Opcode h \<ge> Close then
          (let r = r\<lparr>controlOpcode := Opcode h, controlLen := 0\<rparr>
           in if len = 0 then finishControl r else next_control (r\<lparr>controlOpen := True\<rparr>))
        else
          (let r = r\<lparr>rx_remaining := len\<rparr>;
               r = (if rx_remaining r = 0 then finishFrame r else r)
           in (Inr DataFrame, r)))"

definition next_header :: "receiver \<Rightarrow> (go_error + frameKind) \<times> receiver" where
  "next_header r =
    (let (res, h, dec) = NextHeaderInto (rx_header r) (rx_dec r);
         r = r\<lparr>rx_header := h, rx_dec := dec\<rparr>
     in case res of
          Inl err \<Rightarrow> rx_fail 1002 (CodecError err) r
        | Inr ok \<Rightarrow>
            if \<not> ok then (Inr NeedInput, r)
            else
              (let len = PayloadLen h; (err, r) = accept_frame h len r
               in case err of
                    Some err \<Rightarrow> rx_fail 1002 err r
                  | None \<Rightarrow> next_accepted h len r))"

definition Next :: "receiver \<Rightarrow> (go_error + frameKind) \<times> receiver" where
  "Next r =
    (case failed r of
       Some (code, err) \<Rightarrow> (Inl (Error code err), r)
     | None \<Rightarrow>
        if rx_remaining r \<noteq> 0 then (Inl (CodecError ErrPayloadPending), r)
        else if closeReceived r then (Inr NeedInput, r)
        else if controlOpen r then next_control r
        else next_header r)"

definition consumed :: "bytes \<Rightarrow> bool \<Rightarrow> receiver \<Rightarrow> (go_error + bytes \<times> bool) \<times> receiver" where
  "consumed chunk done r =
    (let (chunk', r) =
       (if length chunk \<noteq> 0 then
          (let (chunk', r) =
             (if masked r then
                (let (m, off) = Mask chunk (maskKey r) (maskOffset r) in (m, r\<lparr>maskOffset := off\<rparr>))
              else (chunk, r))
           in (chunk', r\<lparr>rx_remaining := rx_remaining r - of_nat (length chunk)\<rparr>))
        else (chunk, r));
         r = (if done then finishFrame r else r)
     in (Inr (chunk', done), r))"

definition receiver_PayloadN :: "int \<Rightarrow> receiver \<Rightarrow> (go_error + bytes \<times> bool) \<times> receiver" where
  "receiver_PayloadN n r =
    (case failed r of
       Some (code, err) \<Rightarrow> (Inl (Error code err), r)
     | None \<Rightarrow>
        if rx_remaining r = 0 then (Inr ([], True), r)
        else
          (let ((chunk, done), dec) = PayloadN n (rx_dec r)
           in consumed chunk done (r\<lparr>rx_dec := dec\<rparr>)))"

definition receiver_Payload :: "receiver \<Rightarrow> (go_error + bytes \<times> bool) \<times> receiver" where
  "receiver_Payload r = receiver_PayloadN (int (Buffered (rx_dec r))) r"

section \<open>The specification: a byte automaton\<close>

text \<open>
  RFC 6455 5 as an automaton over single bytes. \<open>Head\<close> collects a header, \<open>Data\<close> counts
  down a data frame (FIN bit, key, position modulo four), \<open>Ctl\<close> collects a control frame;
  \<open>Closed\<close> and \<open>Failed\<close> absorb. The second component is the open message's opcode, or zero.
\<close>

datatype event =
    EvFrame opcode bool bool
  | EvByte byte
  | EvControl opcode bytes
  | EvFail u16 go_error

datatype phase =
    Head bytes
  | Data nat bool "bytes option" nat
  | Ctl opcode nat "bytes option" bytes
  | Closed
  | Failed

type_synonym astate = "phase \<times> opcode"

definition key_byte :: "bytes option \<Rightarrow> nat \<Rightarrow> byte" where
  "key_byte key p = (case key of None \<Rightarrow> 0 | Some k \<Rightarrow> k ! (p mod 4))"

definition next_pos :: "bytes option \<Rightarrow> nat \<Rightarrow> nat" where
  "next_pos key p = (case key of None \<Rightarrow> 0 | Some k \<Rightarrow> p mod 4)"

definition hdr :: "bytes \<Rightarrow> header" where
  "hdr hs = \<lparr>raw = hs @ replicate (MaxHeaderSize - length hs) 0, hlen = of_nat (length hs)\<rparr>"

definition legal :: "Role \<Rightarrow> bool \<Rightarrow> opcode \<Rightarrow> header \<Rightarrow> bool" where
  "legal role pmd msg h \<longleftrightarrow>
     Masked h = (role = Server) \<and> \<not> RSV2 h \<and> \<not> RSV3 h \<and>
     (if Opcode h = Text \<or> Opcode h = Binary then msg = 0 \<and> (RSV1 h \<longrightarrow> pmd)
      else if Opcode h = Continuation then msg \<noteq> 0 \<and> \<not> RSV1 h
      else if Opcode h = Close \<or> Opcode h = Ping \<or> Opcode h = Pong
      then Final h \<and> \<not> RSV1 h \<and> unat (PayloadLen h) \<le> 125
      else False)"

definition minimal_len :: "header \<Rightarrow> bool" where
  "minimal_len h \<longleftrightarrow>
     (let c = raw h ! 1 AND 0x7f; n = unat (PayloadLen h)
      in (c = 126 \<longrightarrow> 126 \<le> n) \<and> (c = 127 \<longrightarrow> 65536 \<le> n \<and> n < 2 ^ 63))"

definition ctl_done :: "opcode \<Rightarrow> opcode \<Rightarrow> bytes \<Rightarrow> astate \<times> event list" where
  "ctl_done msg op p =
    (if op = Close then
       (case validateClose p of
          None \<Rightarrow> ((Closed, msg), [EvControl op p])
        | Some err \<Rightarrow> ((Failed, 0), [EvFail (if err = ErrInvalidUTF8 then 1007 else 1002) err]))
     else ((Head [], msg), [EvControl op p]))"

definition head_done :: "Role \<Rightarrow> bool \<Rightarrow> opcode \<Rightarrow> bytes \<Rightarrow> astate \<times> event list" where
  "head_done role pmd msg hs =
    (let h = hdr hs; n = unat (PayloadLen h); key = (if Masked h then Some (MaskKey h) else None)
     in if \<not> minimal_len h then ((Failed, 0), [EvFail 1002 (CodecError ErrInvalidPayloadLength)])
        else if \<not> legal role pmd msg h then ((Failed, 0), [EvFail 1002 ErrProtocol])
        else if Opcode h \<in> {Close, Ping, Pong} then
          (if n = 0 then ctl_done msg (Opcode h) [] else ((Ctl (Opcode h) n key [], msg), []))
        else
          (let msg' = (if Opcode h = Continuation then msg else Opcode h)
           in (if n = 0 then (Head [], if Final h then 0 else msg') else (Data n (Final h) key 0, msg'),
               [EvFrame (Opcode h) (Final h) (RSV1 h)])))"

definition head_complete :: "bytes \<Rightarrow> bool" where
  "head_complete hs \<longleftrightarrow> 2 \<le> length hs \<and> header_size (hs ! 1) \<le> length hs"

fun byte_step :: "Role \<Rightarrow> bool \<Rightarrow> astate \<Rightarrow> byte \<Rightarrow> astate \<times> event list" where
  "byte_step role pmd (Head hs, msg) b =
    (if head_complete (hs @ [b]) then head_done role pmd msg (hs @ [b]) else ((Head (hs @ [b]), msg), []))"
| "byte_step role pmd (Data n final key p, msg) b =
    (if n \<le> 1 then (Head [], if final then 0 else msg) else (Data (n - 1) final key (next_pos key (p + 1)), msg),
     [EvByte (b XOR key_byte key p)])"
| "byte_step role pmd (Ctl op n key acc, msg) b =
    (let acc' = acc @ [b XOR key_byte key (length acc)]
     in if n \<le> 1 then ctl_done msg op acc' else ((Ctl op (n - 1) key acc', msg), []))"
| "byte_step role pmd (Closed, msg) b = ((Closed, msg), [])"
| "byte_step role pmd (Failed, msg) b = ((Failed, msg), [])"

primrec byte_run :: "Role \<Rightarrow> bool \<Rightarrow> astate \<Rightarrow> bytes \<Rightarrow> astate \<times> event list" where
  "byte_run role pmd st [] = (st, [])"
| "byte_run role pmd st (b # bs) =
    (let (st1, e1) = byte_step role pmd st b; (st2, e2) = byte_run role pmd st1 bs in (st2, e1 @ e2))"

lemma byte_run_append:
  "byte_run role pmd st (xs @ ys) =
    (let (st1, e1) = byte_run role pmd st xs; (st2, e2) = byte_run role pmd st1 ys in (st2, e1 @ e2))"
  by (induction xs arbitrary: st) (auto simp: split_def Let_def)

section \<open>Draining the receiver\<close>

text \<open>
  What the reading code does with a fed receiver, as events: take the payload of an open data
  frame, otherwise advance to the next frame, until input runs out. The fuel bounds the number
  of rounds; each round that continues consumes at least one byte, so one more than the
  buffered bytes is enough.
\<close>

primrec drain :: "nat \<Rightarrow> receiver \<Rightarrow> event list \<times> receiver" where
  "drain 0 r = ([], r)"
| "drain (Suc fuel) r =
    (if failed r \<noteq> None then ([], r)
     else if rx_remaining r \<noteq> 0 then
       (case receiver_Payload r of
          (Inl err, r1) \<Rightarrow> ([], r1)
        | (Inr (chunk, done), r1) \<Rightarrow>
            (if done then (let (es, r2) = drain fuel r1 in (map EvByte chunk @ es, r2))
             else (map EvByte chunk, r1)))
     else
       (case Next r of
          (Inl err, r1) \<Rightarrow> (case failed r1 of Some (code, e) \<Rightarrow> [EvFail code e] | None \<Rightarrow> [], r1)
        | (Inr NeedInput, r1) \<Rightarrow> ([], r1)
        | (Inr ControlFrame, r1) \<Rightarrow>
            (let (es, r2) = drain fuel r1 in (EvControl (ControlOpcode r1) (ControlPayload r1) # es, r2))
        | (Inr DataFrame, r1) \<Rightarrow>
            (let (es, r2) = drain fuel r1;
                 h = rx_header r1
             in (EvFrame (Opcode h) (Final h) (RSV1 h) # es, r2))))"

definition drain_all :: "receiver \<Rightarrow> event list \<times> receiver" where
  "drain_all r = drain (Suc (Buffered (rx_dec r))) r"

end
