(* ===== verification/Receiver_Refine.thy ===== *)
theory Receiver_Refine
  imports Receiver
begin

text \<open>
  The receiver refines the byte automaton: \<open>meaning\<close> abstracts a receiver and its buffered
  input to an automaton run, each operation of \<^verbatim>\<open>receiver.go\<close> is a simulation step, and
  draining a fed receiver runs the automaton over the fed bytes, however they were cut.
\<close>

unbundle bit_operations_syntax

section \<open>Runs of the automaton\<close>

definition xor_key :: "bytes option \<Rightarrow> nat \<Rightarrow> bytes \<Rightarrow> bytes" where
  "xor_key key p bs = (case key of None \<Rightarrow> bs | Some k \<Rightarrow> mask_ref k p bs)"

lemma xor_key_simps [simp]:
  "xor_key key p [] = []"
  "xor_key key p (b # bs) = (b XOR key_byte key p) # xor_key key (Suc p) bs"
  by (cases key; simp add: xor_key_def key_byte_def)+

lemma xor_key_None [simp]: "xor_key None p bs = bs"
  by (simp add: xor_key_def)

lemma length_xor_key [simp]: "length (xor_key key p bs) = length bs"
  by (cases key) (simp_all add: xor_key_def)

lemma xor_key_mod: "xor_key key (p mod 4) bs = xor_key key p bs"
  by (cases key) (simp_all add: xor_key_def mask_ref_mod [of "p mod 4" p])

lemma byte_run_absorb [simp]:
  "byte_run role pmd (Closed, msg) bs = ((Closed, msg), [])"
  "byte_run role pmd (Failed, msg) bs = ((Failed, msg), [])"
  by (induction bs) auto

lemma data_run:
  "length bs \<le> n \<Longrightarrow> 0 < n \<Longrightarrow> next_pos key p = p \<Longrightarrow>
     byte_run role pmd (Data n final key p, msg) bs =
      (if length bs = n then (Head [], if final then 0 else msg)
       else (Data (n - length bs) final key (next_pos key (p + length bs)), msg),
       map EvByte (xor_key key p bs))"
proof (induction bs arbitrary: n p)
  case (Cons b bs)
  show ?case
  proof (cases "n = 1")
    case False
    with Cons.prems Cons.IH [of "n - 1" "next_pos key (p + 1)"] show ?thesis
      by (cases key) (auto simp: next_pos_def mod_simps xor_key_mod)
  qed (use Cons.prems in simp)
qed simp

lemma ctl_run:
  "length bs \<le> n \<Longrightarrow> 0 < n \<Longrightarrow>
     byte_run role pmd (Ctl op n key acc, msg) bs =
      (if length bs = n then ctl_done msg op (acc @ xor_key key (length acc) bs)
       else ((Ctl op (n - length bs) key (acc @ xor_key key (length acc) bs), msg), []))"
proof (induction bs arbitrary: n acc)
  case (Cons b bs)
  show ?case
  proof (cases "n = 1")
    case True
    with Cons.prems show ?thesis by (simp add: split_def Let_def)
  next
    case False
    with Cons.prems Cons.IH [of "n - 1"] show ?thesis
      by (auto simp: Let_def split_def)
  qed
qed simp

lemma head_complete_prefix: "head_complete xs \<Longrightarrow> head_complete (xs @ ys)"
  by (auto simp: head_complete_def nth_append)

lemma head_run_incomplete:
  "\<not> head_complete (xs @ ys) \<Longrightarrow> byte_run role pmd (Head xs, msg) ys = ((Head (xs @ ys), msg), [])"
proof (induction ys arbitrary: xs)
  case (Cons y ys)
  then have "\<not> head_complete (xs @ [y])" using head_complete_prefix [of "xs @ [y]" ys] by auto
  with Cons show ?case by simp
qed simp

lemma head_run_complete:
  assumes "2 \<le> length hs" "length hs = header_size (hs ! 1)"
  shows "byte_run role pmd (Head [], msg) (hs @ rest) =
    (let (st, e) = head_done role pmd msg hs; (st', e') = byte_run role pmd st rest in (st', e @ e'))"
proof -
  obtain xs b where hs: "hs = xs @ [b]" using assms(1) by (cases hs rule: rev_cases) auto
  have "\<not> head_complete xs"
    using assms unfolding head_complete_def hs by (auto simp: nth_append)
  from head_run_incomplete [of "[]" xs role pmd msg] this
  have "byte_run role pmd (Head [], msg) xs = ((Head xs, msg), [])" by simp
  moreover have "head_complete hs" using assms by (simp add: head_complete_def)
  ultimately show ?thesis
    using byte_run_append [of role pmd "(Head [], msg)" xs "b # rest"] by (simp add: hs)
qed

section \<open>Invariant and abstraction\<close>

definition rkey :: "receiver \<Rightarrow> bytes option" where
  "rkey r = (if masked r then Some (maskKey r) else None)"

definition rx_inv :: "receiver \<Rightarrow> bool" where
  "rx_inv r \<longleftrightarrow>
     length (control r) = 125 \<and> length (maskKey r) = 4 \<and> length (raw (rx_header r)) = MaxHeaderSize
     \<and> unat (controlLen r) \<le> 125 \<and> unat (maskOffset r) < 4
     \<and> messageOpcode r \<in> {0, Text, Binary}
     \<and> (failed r \<noteq> None \<or> closeReceived r \<longrightarrow>
          rx_remaining r = 0 \<and> \<not> controlOpen r \<and> pending (rx_dec r) = [] \<and> remaining (rx_dec r) = 0)
     \<and> (failed r \<noteq> None \<longrightarrow> messageOpcode r = 0)
     \<and> (if controlOpen r
        then rx_remaining r = 0 \<and> remaining (rx_dec r) \<noteq> 0
             \<and> unat (controlLen r) + unat (remaining (rx_dec r)) \<le> 125
             \<and> controlOpcode r \<in> {Close, Ping, Pong}
             \<and> (masked r \<longrightarrow> unat (maskOffset r) = unat (controlLen r) mod 4)
        else remaining (rx_dec r) = rx_remaining r \<and> (rx_remaining r \<noteq> 0 \<longrightarrow> messageOpcode r \<noteq> 0))"

definition base :: "receiver \<Rightarrow> astate" where
  "base r =
    (if failed r \<noteq> None then Failed
     else if closeReceived r then Closed
     else if controlOpen r
     then Ctl (controlOpcode r) (unat (remaining (rx_dec r))) (rkey r) (ControlPayload r)
     else if rx_remaining r \<noteq> 0
     then Data (unat (rx_remaining r)) (Final (rx_header r)) (rkey r) (next_pos (rkey r) (unat (maskOffset r)))
     else Head [],
     messageOpcode r)"

definition meaning :: "receiver \<Rightarrow> astate \<times> event list" where
  "meaning r = byte_run (rx_role r) (compression r) (base r) (pending (rx_dec r))"

definition sim :: "receiver \<Rightarrow> receiver \<Rightarrow> event list \<Rightarrow> bool" where
  "sim r r' es \<longleftrightarrow> meaning r = (fst (meaning r'), es @ snd (meaning r'))
     \<and> rx_role r' = rx_role r \<and> compression r' = compression r"

lemma sim_trans: "sim r r1 es \<Longrightarrow> sim r1 r2 fs \<Longrightarrow> sim r r2 (es @ fs)"
  by (simp add: sim_def)

lemma Payload_cases:
  assumes "Payload d = ((chunk, done), d')" "remaining d \<noteq> 0"
  shows "pending d = chunk @ pending d'" "unat (remaining d) = length chunk + unat (remaining d')"
    "done \<longleftrightarrow> remaining d' = 0" "done \<Longrightarrow> chunk \<noteq> []" "\<not> done \<Longrightarrow> pending d' = []"
    "length chunk \<le> unat (remaining d)"
proof -
  note sp = PayloadN_split [OF assms(1) [unfolded Payload_def]]
  show "pending d = chunk @ pending d'" "unat (remaining d) = length chunk + unat (remaining d')"
    "done \<longleftrightarrow> remaining d' = 0" by (fact sp)+
  show "done \<Longrightarrow> chunk \<noteq> []" using sp(2,3) assms(2) by (auto simp: unat_eq_zero)
  show "length chunk \<le> unat (remaining d)" using sp(2) by simp
  assume nd: "\<not> done"
  show "pending d' = []"
  proof (cases "pending d = []")
    case False
    have "\<not> unat (remaining d) \<le> length (pending d)"
    proof
      assume le: "unat (remaining d) \<le> length (pending d)"
      have "done"
        using assms False le by (auto simp: Payload_def PayloadN_def Let_def min_absorb2 split: if_splits)
      with nd show False ..
    qed
    then show ?thesis
      using assms False by (auto simp: Payload_def PayloadN_def Let_def split: if_splits)
  qed (use sp(1) in simp)
qed

lemma unat_minus_chunk:
  assumes "unat (w :: u64) = n + unat v"
  shows "w - of_nat n = v"
proof -
  have "of_nat (unat w) = (of_nat (n + unat v) :: u64)" using assms by simp
  then show ?thesis by simp
qed

lemma Mask_xor_key:
  "length key = 4 \<Longrightarrow> fst (Mask bs key off) = xor_key (Some key) (unat off) bs"
  by (simp add: Mask_ref xor_key_def)

text \<open>Payload of an open data frame.\<close>

lemma receiver_PayloadN_sim:
  assumes inv: "rx_inv r" and f: "failed r = None" and rem: "rx_remaining r \<noteq> 0"
  shows "\<exists>chunk dn r1. receiver_PayloadN n r = (Inr (chunk, dn), r1) \<and> rx_inv r1 \<and> sim r r1 (map EvByte chunk)
     \<and> failed r1 = None \<and> (dn \<longleftrightarrow> rx_remaining r1 = 0) \<and> unat (rx_remaining r) = length chunk + unat (rx_remaining r1)
     \<and> Buffered (rx_dec r) = length chunk + Buffered (rx_dec r1) \<and> length chunk \<le> nat n
     \<and> (dn \<or> nat n \<le> length chunk \<or> pending (rx_dec r1) = [])
     \<and> rx_header r1 = rx_header r \<and> rx_compressed r1 = rx_compressed r \<and> closeReceived r1 = closeReceived r
     \<and> messageOpcode r1 = (if dn \<and> Final (rx_header r) then 0 else messageOpcode r)"
proof -
  obtain c dn d' where P: "PayloadN n (rx_dec r) = ((c, dn), d')"
    by (metis prod.collapse)
  have st: "\<not> controlOpen r" "\<not> closeReceived r" "remaining (rx_dec r) = rx_remaining r"
    using inv rem by (auto simp: rx_inv_def split: if_splits)
  note sp = PayloadN_split [OF P, unfolded st(3)]
  have len: "length c \<le> nat n" "dn \<or> nat n \<le> length c \<or> pending d' = []"
  proof -
    have m: "length c = min (min (nat n) (length (pending (rx_dec r)))) (unat (rx_remaining r))"
      using P rem st(3) by (auto simp: PayloadN_def Let_def split: if_splits)
    then show "length c \<le> nat n" by simp
    have "unat (remaining d') = 0 \<Longrightarrow> dn" using sp(3) by (simp add: unat_eq_zero)
    then show "dn \<or> nat n \<le> length c \<or> pending d' = []"
      using m sp(2) arg_cong [OF sp(1), of length] by (auto simp: min_def split: if_splits)
  qed
  have rem': "rx_remaining r - of_nat (length c) = remaining d'" using sp(2) by (rule unat_minus_chunk)
  define off where "off = (if masked r \<and> c \<noteq> [] then snd (Mask c (maskKey r) (maskOffset r)) else maskOffset r)"
  have k: "length (maskKey r) = 4" and ofs: "unat (maskOffset r) < 4" using inv by (auto simp: rx_inv_def)
  have off: "unat off < 4" "masked r \<Longrightarrow> unat off = (unat (maskOffset r) + length c) mod 4"
    using ofs by (auto simp: off_def Mask_offset)
  define r0 where "r0 = r\<lparr>rx_dec := d', maskOffset := off, rx_remaining := remaining d'\<rparr>"
  define r1 where "r1 = (if dn then finishFrame r0 else r0)"
  define chunk where "chunk = xor_key (rkey r) (unat (maskOffset r)) c"
  have res: "receiver_PayloadN n r = (Inr (chunk, dn), r1)"
    using f rem P rem' k
    by (cases "c = []")
       (auto simp: receiver_PayloadN_def consumed_def Let_def split_def
          Mask_xor_key rkey_def chunk_def xor_key_def off_def r0_def r1_def finishFrame_def)
  have inv1: "rx_inv r1"
    using inv off(1) st rem sp(3) f unfolding r1_def r0_def finishFrame_def rx_inv_def by auto
  have le: "length c \<le> unat (rx_remaining r)" using sp(2) by simp
  have n: "0 < unat (rx_remaining r)" using rem by (simp add: unat_gt_0)
  have off': "masked r \<Longrightarrow> (unat (maskOffset r) + length c) mod 4 = unat off" using off(2) by simp
  have "byte_run (rx_role r) (compression r) (base r) c = (base r1, map EvByte chunk)"
  proof -
    have b: "base r = (Data (unat (rx_remaining r)) (Final (rx_header r)) (rkey r)
        (next_pos (rkey r) (unat (maskOffset r))), messageOpcode r)"
      using st f rem by (simp add: base_def)
    have np: "next_pos (rkey r) (next_pos (rkey r) p) = next_pos (rkey r) p"
      "xor_key (rkey r) (next_pos (rkey r) p) bs = xor_key (rkey r) p bs" for p bs
      by (auto simp: next_pos_def xor_key_mod split: option.split)
    show ?thesis
    proof (cases dn)
      case True
      then have "length c = unat (rx_remaining r)" using sp(2,3) by simp
      moreover have "base r1 = (Head [], if Final (rx_header r) then 0 else messageOpcode r)"
        using True st f sp(3) by (simp add: base_def r1_def r0_def finishFrame_def)
      ultimately show ?thesis using n by (simp add: b data_run chunk_def np)
    next
      case False
      then have "length c \<noteq> unat (rx_remaining r)" "unat (remaining d') = unat (rx_remaining r) - length c"
        using sp(2,3) by (auto simp: unat_eq_zero)
      moreover have "base r1 = (Data (unat (remaining d')) (Final (rx_header r)) (rkey r)
          (next_pos (rkey r) (unat off)), messageOpcode r)"
        using False st f sp(3) by (simp add: base_def r1_def r0_def rkey_def)
      ultimately show ?thesis
        using n le off' by (auto simp: b data_run chunk_def np) (auto simp: next_pos_def rkey_def mod_simps)
    qed
  qed
  moreover have pd: "rx_dec r1 = d'" by (simp add: r1_def r0_def finishFrame_def)
  ultimately have "sim r r1 (map EvByte chunk)"
    by (simp add: sim_def meaning_def sp(1) byte_run_append split_def Let_def r1_def r0_def finishFrame_def)
  moreover have lc: "length chunk = length c" by (simp add: chunk_def)
  moreover have "rx_remaining r1 = remaining d'" "failed r1 = None" "rx_header r1 = rx_header r" "rx_compressed r1 = rx_compressed r"
    "closeReceived r1 = closeReceived r" "messageOpcode r1 = (if dn \<and> Final (rx_header r) then 0 else messageOpcode r)"
    using f by (simp_all add: r1_def r0_def finishFrame_def)
  ultimately show ?thesis using res inv1 sp len pd by (simp add: Buffered_def)
qed

lemma receiver_Payload_sim:
  assumes inv: "rx_inv r" and f: "failed r = None" and rem: "rx_remaining r \<noteq> 0"
  shows "\<exists>chunk dn r1. receiver_Payload r = (Inr (chunk, dn), r1) \<and> rx_inv r1 \<and> sim r r1 (map EvByte chunk)
     \<and> failed r1 = None \<and> (if dn then rx_remaining r1 = 0 \<and> Buffered (rx_dec r1) < Buffered (rx_dec r)
          else rx_remaining r1 \<noteq> 0 \<and> pending (rx_dec r1) = [])"
proof -
  obtain chunk dn r1 where r: "receiver_PayloadN (int (Buffered (rx_dec r))) r = (Inr (chunk, dn), r1)" "rx_inv r1" "sim r r1 (map EvByte chunk)"
     "failed r1 = None" "dn \<longleftrightarrow> rx_remaining r1 = 0" "unat (rx_remaining r) = length chunk + unat (rx_remaining r1)"
     "Buffered (rx_dec r) = length chunk + Buffered (rx_dec r1)" "dn \<or> nat (int (Buffered (rx_dec r))) \<le> length chunk \<or> pending (rx_dec r1) = []"
    using receiver_PayloadN_sim [OF assms, of "int (Buffered (rx_dec r))"] by blast
  have "0 < unat (rx_remaining r)" using rem by (simp add: unat_gt_0)
  moreover have "dn \<or> pending (rx_dec r1) = []" using r(7) r(8) [unfolded nat_int] by (auto simp: Buffered_def)
  ultimately show ?thesis using r by (auto simp: receiver_Payload_def Buffered_def)
qed

text \<open>Finishing a control frame.\<close>

lemma finishControl_sim:
  assumes inv: "rx_inv r" and f: "failed r = None" "\<not> closeReceived r" "rx_remaining r = 0" "\<not> controlOpen r"
  shows "\<exists>res r1. finishControl r = (res, r1) \<and> rx_inv r1
     \<and> ctl_done (messageOpcode r) (controlOpcode r) (ControlPayload r) =
         (base r1, case res of Inr _ \<Rightarrow> [EvControl (ControlOpcode r1) (ControlPayload r1)]
                   | Inl _ \<Rightarrow> (case failed r1 of Some (code, e) \<Rightarrow> [EvFail code e] | None \<Rightarrow> []))
     \<and> (case res of Inr k \<Rightarrow> k = ControlFrame \<and> failed r1 = None \<and> rx_remaining r1 = 0
                   | Inl _ \<Rightarrow> failed r1 \<noteq> None)
     \<and> (pending (rx_dec r1) = pending (rx_dec r) \<or> pending (rx_dec r1) = [] \<and> fst (base r1) \<in> {Closed, Failed})
     \<and> rx_role r1 = rx_role r \<and> compression r1 = compression r"
proof (cases "controlOpcode r = Close")
  case True
  show ?thesis
  proof (cases "validateClose (ControlPayload r)")
    case None
    with True inv f show ?thesis
      by (auto simp: finishControl_def ctl_done_def base_def rx_inv_def ControlPayload_def ControlOpcode_def dec_Reset_def)
  next
    case (Some err)
    with True inv f show ?thesis
      by (auto simp: finishControl_def rx_fail_def ctl_done_def base_def rx_inv_def dec_Reset_def)
  qed
next
  case False
  with inv f show ?thesis
    by (auto simp: finishControl_def ctl_done_def base_def ControlOpcode_def)
qed

lemma put_at_prefix:
  "i \<le> length xs \<Longrightarrow> take (i + length bs) (put_at i bs xs) = take i xs @ bs"
  by (simp add: put_at_def)

lemma put_at_overwrite:
  "i + length bs \<le> length xs \<Longrightarrow> length cs = length bs \<Longrightarrow> put_at i cs (put_at i bs xs) = put_at i cs xs"
  by (rule nth_equalityI) (auto simp: nth_put_at)

text \<open>The control branch of \<open>Next\<close> with its in-place unmasking, on whole chunks.\<close>

lemma next_control_eq:
  assumes inv: "rx_inv r" and o: "controlOpen r" and P: "Payload (rx_dec r) = ((c, dn), d')"
  shows "\<exists>off. unat off < 4 \<and> (masked r \<longrightarrow> unat off = (unat (controlLen r) + length c) mod 4)
    \<and> next_control r =
       (let r1 = r\<lparr>rx_dec := d', control := put_at (unat (controlLen r)) (xor_key (rkey r) (unat (controlLen r)) c) (control r),
                   controlLen := controlLen r + of_nat (length c), maskOffset := off\<rparr>
        in if dn then finishControl (r1\<lparr>controlOpen := False\<rparr>) else (Inr NeedInput, r1))"
proof -
  let ?l = "unat (controlLen r)"
  have i: "length (control r) = 125" "length (maskKey r) = 4" "unat (maskOffset r) < 4" "remaining (rx_dec r) \<noteq> 0"
    "?l + unat (remaining (rx_dec r)) \<le> 125" "masked r \<Longrightarrow> unat (maskOffset r) = ?l mod 4"
    using inv o by (auto simp: rx_inv_def)
  note pc = Payload_cases [OF P i(4)]
  have n: "min (125 - ?l) (length c) = length c" using pc(6) i(5) by simp
  have "unat (of_nat (length c) :: byte) = length c" using pc(6) i(5) by simp
  then have ul: "unat (controlLen r + of_nat (length c)) = ?l + length c"
    using pc(6) i(5) by (simp add: unat_word_ariths)
  let ?c1 = "put_at ?l c (control r)"
  have sl: "go_slice ?l (?l + length c) ?c1 = c"
    using i(1,5) pc(6) by (simp add: go_slice_def put_at_def)
  show ?thesis
  proof (cases "masked r")
    case True
    let ?off = "snd (Mask c (maskKey r) (maskOffset r))"
    have m: "fst (Mask c (maskKey r) (maskOffset r)) = xor_key (rkey r) ?l c"
      using True i(2,6) xor_key_mod [of "Some (maskKey r)" ?l c] by (simp add: Mask_xor_key rkey_def)
    have "put_at ?l (xor_key (rkey r) ?l c) ?c1 = put_at ?l (xor_key (rkey r) ?l c) (control r)"
      using i(1,5) pc(6) by (intro put_at_overwrite) auto
    moreover have "unat ?off = (?l + length c) mod 4" using True i(6) by (simp add: Mask_offset mod_simps)
    ultimately show ?thesis
      using True P n ul sl m
      by (intro exI [of _ ?off]) (auto simp: next_control_def Let_def split_def)
  next
    case False
    then show ?thesis
      using P n i(3) by (intro exI [of _ "maskOffset r"]) (auto simp: next_control_def Let_def rkey_def xor_key_def)
  qed
qed

definition stopped :: "receiver \<Rightarrow> bool" where
  "stopped r \<longleftrightarrow> snd (meaning r) = []"

definition next_ok :: "receiver \<Rightarrow> go_error + frameKind \<Rightarrow> receiver \<Rightarrow> bool" where
  "next_ok r res r1 \<longleftrightarrow> rx_inv r1 \<and>
     (case res of
        Inl _ \<Rightarrow> (\<exists>code e. failed r1 = Some (code, e) \<and> sim r r1 [EvFail code e])
      | Inr NeedInput \<Rightarrow> sim r r1 [] \<and> stopped r1 \<and> failed r1 = None
      | Inr ControlFrame \<Rightarrow> sim r r1 [EvControl (ControlOpcode r1) (ControlPayload r1)]
          \<and> failed r1 = None \<and> rx_remaining r1 = 0
      | Inr DataFrame \<Rightarrow> sim r r1 [EvFrame (Opcode (rx_header r1)) (Final (rx_header r1)) (RSV1 (rx_header r1))]
          \<and> failed r1 = None)"

lemma finishControl_ok:
  assumes inv: "rx_inv rc" and f: "failed rc = None" "\<not> closeReceived rc" "rx_remaining rc = 0" "\<not> controlOpen rc"
    and fc: "finishControl rc = (res, r1)"
    and s: "rx_role rc = rx_role r" "compression rc = compression r"
    and m: "meaning r = (let (st, e) = ctl_done (messageOpcode rc) (controlOpcode rc) (ControlPayload rc);
      (st', e') = byte_run (rx_role r) (compression r) st (pending (rx_dec rc)) in (st', e @ e'))"
  shows "next_ok r res r1 \<and> Buffered (rx_dec r1) \<le> Buffered (rx_dec rc) \<and> (\<forall>k. res = Inr k \<longrightarrow> k = ControlFrame)"
proof -
  let ?e = "case res of Inr _ \<Rightarrow> [EvControl (ControlOpcode r1) (ControlPayload r1)]
                   | Inl _ \<Rightarrow> (case failed r1 of Some (code, e) \<Rightarrow> [EvFail code e] | None \<Rightarrow> [])"
  from finishControl_sim [OF inv f] fc
  have fs: "rx_inv r1" "ctl_done (messageOpcode rc) (controlOpcode rc) (ControlPayload rc) = (base r1, ?e)"
       "case res of Inr k \<Rightarrow> k = ControlFrame \<and> failed r1 = None \<and> rx_remaining r1 = 0 | Inl _ \<Rightarrow> failed r1 \<noteq> None"
       "pending (rx_dec r1) = pending (rx_dec rc) \<or> pending (rx_dec r1) = [] \<and> fst (base r1) \<in> {Closed, Failed}"
       "rx_role r1 = rx_role r" "compression r1 = compression r"
    using s by auto
  have "byte_run (rx_role r) (compression r) (base r1) (pending (rx_dec rc)) = meaning r1"
    using fs(4-6) by (cases "base r1") (auto simp: meaning_def)
  with m fs(2,5,6) have "sim r r1 ?e" by (simp add: sim_def split_def Let_def)
  then show ?thesis
    using fs(1,3,4) by (auto simp: next_ok_def Buffered_def split: sum.splits option.splits)
qed

lemma next_control_ok:
  assumes inv: "rx_inv r" and o: "controlOpen r" and f: "failed r = None" "\<not> closeReceived r"
    and nc: "next_control r = (res, r1)"
  shows "next_ok r res r1 \<and> (res \<noteq> Inr NeedInput \<longrightarrow> Buffered (rx_dec r1) < Buffered (rx_dec r)) \<and> res \<noteq> Inr DataFrame"
proof -
  let ?l = "unat (controlLen r)"
  obtain c dn d' where P: "Payload (rx_dec r) = ((c, dn), d')" by (metis prod.collapse)
  obtain off where off: "unat off < 4" "masked r \<longrightarrow> unat off = (?l + length c) mod 4"
    and e: "next_control r =
       (let r1 = r\<lparr>rx_dec := d', control := put_at ?l (xor_key (rkey r) ?l c) (control r),
                   controlLen := controlLen r + of_nat (length c), maskOffset := off\<rparr>
        in if dn then finishControl (r1\<lparr>controlOpen := False\<rparr>) else (Inr NeedInput, r1))"
    using next_control_eq [OF inv o P] by blast
  define r0 where "r0 = r\<lparr>rx_dec := d', control := put_at ?l (xor_key (rkey r) ?l c) (control r),
                   controlLen := controlLen r + of_nat (length c), maskOffset := off\<rparr>"
  have i: "length (control r) = 125" "remaining (rx_dec r) \<noteq> 0" "rx_remaining r = 0"
    "?l + unat (remaining (rx_dec r)) \<le> 125"
    using inv o by (auto simp: rx_inv_def)
  note pc = Payload_cases [OF P i(2)]
  have "unat (of_nat (length c) :: byte) = length c" using pc(6) i(4) by simp
  then have ul: "unat (controlLen r + of_nat (length c)) = ?l + length c"
    using pc(6) i(4) by (simp add: unat_word_ariths)
  have cp: "ControlPayload r0 = ControlPayload r @ xor_key (rkey r) ?l c"
    using put_at_prefix [of ?l "control r" "xor_key (rkey r) ?l c"] i(1,4) ul
    by (simp add: ControlPayload_def r0_def)
  have lcp: "length (ControlPayload r) = ?l" using i(1,4) by (simp add: ControlPayload_def)
  have b: "base r = (Ctl (controlOpcode r) (unat (remaining (rx_dec r))) (rkey r) (ControlPayload r), messageOpcode r)"
    using o f by (simp add: base_def)
  have n0: "0 < unat (remaining (rx_dec r))" using i(2) by (simp add: unat_gt_0)
  note run = ctl_run [OF pc(6) n0, of "rx_role r" "compression r" "controlOpcode r" "rkey r" "ControlPayload r" "messageOpcode r",
      unfolded lcp, folded cp b]
  have m: "meaning r = (let (st, e) = byte_run (rx_role r) (compression r) (base r) c;
      (st', e') = byte_run (rx_role r) (compression r) st (pending d') in (st', e @ e'))"
    by (simp add: meaning_def pc(1) byte_run_append)
  show ?thesis
  proof (cases dn)
    case False
    then have r1: "res = Inr NeedInput" "r1 = r0" using nc e by (simp_all add: r0_def)
    have "length c \<noteq> unat (remaining (rx_dec r))" "unat (remaining d') = unat (remaining (rx_dec r)) - length c"
      using pc(2,3) False by (auto simp: unat_eq_zero)
    then have "byte_run (rx_role r) (compression r) (base r) c = (base r0, [])"
      using run o f by (simp add: base_def r0_def rkey_def)
    then have s: "sim r r0 []" "stopped r0"
      using m pc(5) False by (auto simp: sim_def stopped_def meaning_def r0_def)
    have "rx_inv r0"
      using inv o off ul pc(2,3) i False f unfolding rx_inv_def r0_def by auto
    with r1 s f show ?thesis by (auto simp: next_ok_def r0_def)
  next
    case True
    then have r1: "finishControl (r0\<lparr>controlOpen := False\<rparr>) = (res, r1)" using nc e by (simp add: r0_def)
    have d0: "remaining d' = 0" using True pc(3) by simp
    have inv0: "rx_inv (r0\<lparr>controlOpen := False\<rparr>)"
      using inv o off ul pc(2) i d0 f unfolding rx_inv_def r0_def by auto
    have "length c = unat (remaining (rx_dec r))" using pc(2) d0 by simp
    with run m have "meaning r = (let (st, e) = ctl_done (messageOpcode r) (controlOpcode r) (ControlPayload r0);
        (st', e') = byte_run (rx_role r) (compression r) st (pending d') in (st', e @ e'))" by simp
    with finishControl_ok [OF inv0 _ _ _ _ r1, of r] f i(3)
    have "next_ok r res r1 \<and> Buffered (rx_dec r1) \<le> length (pending d') \<and> (\<forall>k. res = Inr k \<longrightarrow> k = ControlFrame)"
      by (simp add: r0_def ControlPayload_def Buffered_def)
    moreover have "length (pending d') < Buffered (rx_dec r)"
      using pc(1) pc(4) [OF True] by (auto simp: Buffered_def)
    ultimately show ?thesis by auto
  qed
qed

text \<open>The header accessors only read the header's own bytes.\<close>

lemma hdr_agree:
  assumes "raw h = hs @ junk" "hlen h = of_nat (length hs)" "length hs = header_size (hs ! Suc 0)" "2 \<le> length hs"
  shows "PayloadLen h = PayloadLen (hdr hs)" "Final h = Final (hdr hs)" "RSV1 h = RSV1 (hdr hs)"
    "RSV2 h = RSV2 (hdr hs)" "RSV3 h = RSV3 (hdr hs)" "Opcode h = Opcode (hdr hs)" "Masked h = Masked (hdr hs)"
    "MaskKey h = MaskKey (hdr hs)" "raw h ! Suc 0 = raw (hdr hs) ! Suc 0"
proof -
  have 0: "hs \<noteq> []" "Suc 0 < length hs" using assms(4) by auto
  have ext: "hs ! Suc 0 AND 0x7f = 126 \<Longrightarrow> 4 \<le> length hs" "hs ! Suc 0 AND 0x7f = 127 \<Longrightarrow> 10 \<le> length hs"
    using assms(3) by (auto simp: header_size_def)
  show "PayloadLen h = PayloadLen (hdr hs)"
    using 0 ext by (auto simp: PayloadLen_def hdr_def assms(1) nth_append go_slice_def Let_def)
  show "Final h = Final (hdr hs)" "RSV1 h = RSV1 (hdr hs)" "RSV2 h = RSV2 (hdr hs)" "RSV3 h = RSV3 (hdr hs)"
    "Opcode h = Opcode (hdr hs)" "Masked h = Masked (hdr hs)" "raw h ! Suc 0 = raw (hdr hs) ! Suc 0"
    using 0 by (auto simp: Final_def RSV1_def RSV2_def RSV3_def Opcode_def Masked_def hdr_def assms(1) nth_append)
  have b: "length hs \<le> 14" using assms(3) header_size_bound by simp
  then show "MaskKey h = MaskKey (hdr hs)"
    using 0 assms(2) by (auto simp: MaskKey_def Masked_def hdr_def assms(1) nth_append go_slice_def)
qed

lemma MaskKey_length:
  assumes "length hs = header_size (hs ! Suc 0)" "2 \<le> length hs" "Masked (hdr hs)"
  shows "length (MaskKey (hdr hs)) = 4"
proof -
  have "hs \<noteq> []" "Suc 0 < length hs" using assms(2) by auto
  then have l: "6 \<le> length hs" using assms(1,3) by (auto simp: header_size_def Masked_def hdr_def nth_append)
  have b: "length hs \<le> 14" using assms(1) header_size_bound by simp
  then have "unat (of_nat (length hs) :: byte) = length hs" by simp
  moreover from this have "unat (of_nat (length hs) - 4 :: byte) = length hs - 4"
    using l by (simp add: unat_sub word_le_nat_alt)
  ultimately show ?thesis
    using assms(3) l b by (simp add: MaskKey_def hdr_def MaxHeaderSize_def)
qed

lemma drop_bit_63: "drop_bit 63 (w :: u64) = 0 \<longleftrightarrow> unat w < 2 ^ 63"
proof -
  have "unat (drop_bit 63 w) = unat w div 2 ^ 63" 
    using unat_drop_bit_eq [of 63 w] drop_bit_eq_div [of 63 "unat w"] by simp
  then have "drop_bit 63 w = 0 \<longleftrightarrow> unat w div 2 ^ 63 = 0" by (metis unat_eq_zero)
  then show ?thesis by (simp add: div_eq_0_iff)
qed

lemma NextHeaderInto_eq:
  assumes "remaining d = 0" "length (raw h) = MaxHeaderSize"
    and hs: "hs = take (header_size (pending d ! Suc 0)) (pending d)"
  shows "NextHeaderInto h d =
    (if \<not> head_complete (pending d) then (Inr False, h, d)
     else if \<not> minimal_len (hdr hs) then (Inl ErrInvalidPayloadLength, zero_header, d)
     else (Inr True, \<lparr>raw = put_at 0 hs (raw h), hlen = of_nat (length hs)\<rparr>,
           d\<lparr>pending := drop (length hs) (pending d), remaining := PayloadLen (hdr hs)\<rparr>))"
proof (cases "head_complete (pending d)")
  case False
  then show ?thesis using assms(1) by (auto simp: NextHeaderInto_def head_complete_def Let_def)
next
  case True
  let ?n = "header_size (pending d ! Suc 0)"
  have n: "?n \<le> length (pending d)" "2 \<le> length (pending d)" "2 \<le> ?n"
    using True by (auto simp: head_complete_def header_size_def)
  then have l: "length hs = ?n" by (simp add: hs)
  have h1: "hs ! Suc 0 = pending d ! Suc 0" using n by (simp add: hs)
  let ?h = "\<lparr>raw = put_at 0 hs (raw h), hlen = of_nat (length hs)\<rparr>"
  have raw: "raw ?h = hs @ drop (length hs) (raw h)" by (simp add: put_at_def)
  have l2: "2 \<le> length hs" using l n by simp
  have hl: "hlen ?h = of_nat (length hs)" by simp
  note ag = hdr_agree [OF raw hl l [folded h1] l2]
  have "raw (hdr hs) ! Suc 0 = pending d ! Suc 0"
    using h1 l n by (simp add: hdr_def nth_append)
  then have "minimal_len (hdr hs) \<longleftrightarrow>
     \<not> (pending d ! Suc 0 AND 0x7f = 126 \<and> PayloadLen ?h < 126
        \<or> pending d ! Suc 0 AND 0x7f = 127 \<and> (PayloadLen ?h < 65536 \<or> drop_bit 63 (PayloadLen ?h) \<noteq> 0))"
    by (auto simp: minimal_len_def Let_def ag(1) word_less_nat_alt drop_bit_63)
  then show ?thesis
    using True n assms(1) l ag(1) by (auto simp: NextHeaderInto_def Let_def hs)
qed

lemma accept_frame_legal:
  "accept_frame h (PayloadLen h) r =
    (if legal (rx_role r) (compression r) (messageOpcode r) h
     then (None, if Opcode h = Text \<or> Opcode h = Binary
                 then r\<lparr>messageOpcode := Opcode h, rx_compressed := RSV1 h\<rparr> else r)
     else (Some ErrProtocol, r))"
  by (auto simp: accept_frame_def legal_def word_less_nat_alt)

lemma legal_opcode:
  "legal role pmd msg h \<Longrightarrow> Opcode h \<in> {Continuation, Text, Binary, Close, Ping, Pong}"
  by (auto simp: legal_def split: if_splits)

lemma next_ok_sim: "sim r r0 [] \<Longrightarrow> next_ok r0 res r1 \<Longrightarrow> next_ok r res r1"
  using sim_trans [of r r0 "[]"]
  by (auto simp: next_ok_def split: sum.splits frameKind.splits)

definition opened :: "bytes \<Rightarrow> receiver \<Rightarrow> receiver" where
  "opened hs r =
    (let h = hdr hs;
         r = (if Opcode h = Text \<or> Opcode h = Binary
              then r\<lparr>messageOpcode := Opcode h, rx_compressed := RSV1 h\<rparr> else r);
         r = r\<lparr>masked := Masked h, maskOffset := 0\<rparr>
     in if Masked h then r\<lparr>maskKey := MaskKey h\<rparr> else r)"

lemma next_accepted_eq:
  assumes "length hs = header_size (hs ! Suc 0)" "2 \<le> length hs" "length (maskKey r) = 4"
    and h: "PayloadLen h = PayloadLen (hdr hs)" "Opcode h = Opcode (hdr hs)" "Masked h = Masked (hdr hs)" "MaskKey h = MaskKey (hdr hs)"
    and ra: "ra = (if Opcode (hdr hs) = Text \<or> Opcode (hdr hs) = Binary
       then r\<lparr>messageOpcode := Opcode (hdr hs), rx_compressed := RSV1 (hdr hs)\<rparr> else r)"
  shows "next_accepted h (PayloadLen h) ra =
     (if Opcode (hdr hs) \<ge> Close
            then (let rc = (opened hs r)\<lparr>controlOpcode := Opcode (hdr hs), controlLen := 0\<rparr>
                  in if PayloadLen (hdr hs) = 0 then finishControl rc else next_control (rc\<lparr>controlOpen := True\<rparr>))
            else (Inr DataFrame, let r = (opened hs r)\<lparr>rx_remaining := PayloadLen (hdr hs)\<rparr>
               in if rx_remaining r = 0 then finishFrame r else r))"
proof -
  have k: "put_at 0 (MaskKey (hdr hs)) (maskKey r) = MaskKey (hdr hs)" if "Masked (hdr hs)"
    using MaskKey_length [OF assms(1,2) that] assms(3) by (simp add: put_at_0)
  have "(let r = ra\<lparr>masked := Masked h, maskOffset := 0\<rparr>
      in if masked r then r\<lparr>maskKey := put_at 0 (MaskKey h) (maskKey r)\<rparr> else r) = opened hs r"
    using k by (auto simp: ra opened_def h Let_def)
  then show ?thesis
    unfolding next_accepted_def h Let_def by simp
qed

text \<open>After acceptance: a control frame or a data frame is opened.\<close>

lemma opened_control:
  assumes inv: "rx_inv r" and f: "failed r = None" "\<not> closeReceived r" "\<not> controlOpen r" "rx_remaining r = 0"
    and l: "length hs = header_size (hs ! Suc 0)" "2 \<le> length hs"
    and lg: "legal (rx_role r) (compression r) (messageOpcode r) (hdr hs)" and min: "minimal_len (hdr hs)"
    and c: "Opcode (hdr hs) \<in> {Close, Ping, Pong}"
    and m: "meaning r = (let (st, e) = head_done (rx_role r) (compression r) (messageOpcode r) hs;
         (st', e') = byte_run (rx_role r) (compression r) st rest in (st', e @ e'))"
    and r0: "r0 = r\<lparr>rx_header := h, rx_dec := d\<rparr>" "length (raw h) = MaxHeaderSize" "pending d = rest"
      "remaining d = PayloadLen (hdr hs)" "length rest < Buffered (rx_dec r)"
    and rc: "rc = (opened hs r0)\<lparr>controlOpcode := Opcode (hdr hs), controlLen := 0\<rparr>"
    and res: "(res, r1) = (if PayloadLen (hdr hs) = 0 then finishControl rc else next_control (rc\<lparr>controlOpen := True\<rparr>))"
  shows "next_ok r res r1 \<and> (res \<noteq> Inr NeedInput \<longrightarrow> Buffered (rx_dec r1) < Buffered (rx_dec r))"
proof -
  let ?h = "hdr hs" and ?msg = "messageOpcode r"
  have nt: "Opcode ?h \<noteq> Text" "Opcode ?h \<noteq> Binary" "Opcode ?h \<noteq> Continuation" using c by auto
  have n: "unat (PayloadLen ?h) \<le> 125" using lg c by (auto simp: legal_def)
  have k4: "length (maskKey rc) = 4" using inv MaskKey_length [OF l] by (auto simp: rc opened_def r0 rx_inv_def Let_def)
  have rcs: "rx_role rc = rx_role r" "compression rc = compression r" "messageOpcode rc = ?msg"
    "rx_dec rc = d" "failed rc = None" "\<not> closeReceived rc" "\<not> controlOpen rc" "rx_remaining rc = 0"
    "controlOpcode rc = Opcode ?h" "controlLen rc = 0" "ControlPayload rc = []" "maskOffset rc = 0"
    "rkey rc = (if Masked ?h then Some (MaskKey ?h) else None)" "control rc = control r" "rx_header rc = h"
    using nt f by (auto simp: rc opened_def r0 Let_def ControlPayload_def rkey_def)
  show ?thesis
  proof (cases "PayloadLen ?h = 0")
    case True
    have "head_done (rx_role r) (compression r) ?msg hs = ctl_done ?msg (Opcode ?h) []"
      using lg min c True nt by (simp add: head_done_def Let_def)
    moreover have "rx_inv rc" using inv True k4 rcs f r0 by (simp add: rx_inv_def)
    note fc = finishControl_ok [OF this rcs(5,6,8,7) _ rcs(1,2)]
    moreover have "finishControl rc = (res, r1)" using res True by simp
    ultimately have "next_ok r res r1 \<and> Buffered (rx_dec r1) \<le> length rest"
      using m rcs r0(3) by (auto simp: Buffered_def)
    then show ?thesis using r0(5) by auto
  next
    case False
    let ?rc = "rc\<lparr>controlOpen := True\<rparr>"
    have inv': "rx_inv ?rc"
      using inv False k4 rcs f r0 n c by (auto simp: rx_inv_def)
    have "head_done (rx_role r) (compression r) ?msg hs = (base ?rc, [])"
      using lg min c False nt rcs r0
      by (auto simp: head_done_def Let_def base_def ControlPayload_def rkey_def unat_eq_zero split: if_splits)
    with m have "sim r ?rc []"
      using rcs r0 by (simp add: sim_def meaning_def split_def Let_def)
    moreover have "next_control ?rc = (res, r1)" using res False by simp
    note nc = next_control_ok [OF inv' _ _ _ this]
    ultimately show ?thesis
      using nc rcs r0(3,5) next_ok_sim [of r ?rc res r1] by (auto simp: Buffered_def)
  qed
qed

lemma opened_data:
  assumes inv: "rx_inv r" and f: "failed r = None" "\<not> closeReceived r" "\<not> controlOpen r" "rx_remaining r = 0"
    and l: "length hs = header_size (hs ! Suc 0)" "2 \<le> length hs"
    and lg: "legal (rx_role r) (compression r) (messageOpcode r) (hdr hs)" and min: "minimal_len (hdr hs)"
    and c: "Opcode (hdr hs) \<in> {Continuation, Text, Binary}"
    and m: "meaning r = (let (st, e) = head_done (rx_role r) (compression r) (messageOpcode r) hs;
         (st', e') = byte_run (rx_role r) (compression r) st rest in (st', e @ e'))"
    and r0: "r0 = r\<lparr>rx_header := h, rx_dec := d\<rparr>" "length (raw h) = MaxHeaderSize" "pending d = rest"
      "remaining d = PayloadLen (hdr hs)"
    and h: "Final h = Final (hdr hs)" "Opcode h = Opcode (hdr hs)" "RSV1 h = RSV1 (hdr hs)"
    and r1: "r1 = (let r = (opened hs r0)\<lparr>rx_remaining := PayloadLen (hdr hs)\<rparr>
       in if rx_remaining r = 0 then finishFrame r else r)"
  shows "next_ok r (Inr DataFrame) r1 \<and> rx_dec r1 = d"
proof -
  let ?h = "hdr hs"
  have nt: "Opcode ?h \<notin> {Close, Ping, Pong}" using c by auto
  have k4: "length (maskKey r1) = 4" using inv MaskKey_length [OF l]
    by (auto simp: r1 opened_def r0 rx_inv_def Let_def finishFrame_def)
  define msg' where "msg' = (if Opcode ?h = Continuation then messageOpcode r else Opcode ?h)"
  have msg: "msg' \<in> {Text, Binary}"
    using c lg inv by (auto simp: msg'_def legal_def rx_inv_def)
  have s: "rx_role r1 = rx_role r" "compression r1 = compression r" "rx_dec r1 = d" "failed r1 = None"
    "\<not> closeReceived r1" "\<not> controlOpen r1" "rx_remaining r1 = PayloadLen ?h" "maskOffset r1 = 0" "rx_header r1 = h"
    "rkey r1 = (if Masked ?h then Some (MaskKey ?h) else None)" "control r1 = control r" "controlLen r1 = controlLen r"
    "messageOpcode r1 = (if PayloadLen ?h = 0 \<and> Final ?h then 0 else msg')"
    using c f h by (auto simp: r1 opened_def r0 Let_def finishFrame_def rkey_def msg'_def)
  have "rx_inv r1" using inv k4 s r0 msg f by (auto simp: rx_inv_def)
  moreover have "head_done (rx_role r) (compression r) (messageOpcode r) hs
      = (base r1, [EvFrame (Opcode h) (Final h) (RSV1 h)])"
    using lg min nt s h
    by (auto simp: head_done_def Let_def base_def next_pos_def unat_eq_zero msg'_def)
  ultimately show ?thesis
    using s m r0(3) by (simp add: next_ok_def sim_def meaning_def split_def Let_def)
qed

lemma next_header_ok:
  assumes inv: "rx_inv r" and f: "failed r = None" "\<not> closeReceived r" "\<not> controlOpen r" "rx_remaining r = 0"
    and nh: "next_header r = (res, r1)"
  shows "next_ok r res r1 \<and> (res \<noteq> Inr NeedInput \<longrightarrow> Buffered (rx_dec r1) < Buffered (rx_dec r))"
proof -
  let ?p = "pending (rx_dec r)" and ?msg = "messageOpcode r"
  define hs where "hs = take (header_size (?p ! Suc 0)) ?p"
  have i: "remaining (rx_dec r) = 0" "length (raw (rx_header r)) = MaxHeaderSize" "length (maskKey r) = 4"
    using inv f by (auto simp: rx_inv_def)
  note N = NextHeaderInto_eq [OF i(1,2) hs_def]
  have b: "base r = (Head [], ?msg)" using f by (simp add: base_def)
  show ?thesis
  proof (cases "head_complete ?p")
    case False
    with nh N have r1: "res = Inr NeedInput" "r1 = r" by (auto simp: next_header_def)
    have "stopped r" using head_run_incomplete [of "[]" ?p] False by (simp add: stopped_def meaning_def b)
    with r1 inv f show ?thesis by (simp add: next_ok_def sim_def)
  next
    case True
    have n: "header_size (?p ! Suc 0) \<le> length ?p" "2 \<le> length ?p" "2 \<le> header_size (?p ! Suc 0)"
      using True by (auto simp: head_complete_def header_size_def)
    have l: "length hs = header_size (hs ! Suc 0)" "2 \<le> length hs" using n by (simp_all add: hs_def)
    define rest where "rest = drop (length hs) ?p"
    have p: "?p = hs @ rest" using n by (simp add: rest_def hs_def)
    let ?h = "\<lparr>raw = put_at 0 hs (raw (rx_header r)), hlen = of_nat (length hs)\<rparr>"
    have raw: "raw ?h = hs @ drop (length hs) (raw (rx_header r))" by (simp add: put_at_def)
    have hl: "hlen ?h = of_nat (length hs)" by simp
    note ag = hdr_agree [OF raw hl l]
    have m: "meaning r = (let (st, e) = head_done (rx_role r) (compression r) ?msg hs;
         (st', e') = byte_run (rx_role r) (compression r) st rest in (st', e @ e'))"
      using head_run_complete [OF l(2)] l(1) by (simp add: meaning_def b p)
    have less: "length rest < length ?p" using l(2) by (auto simp: p)
    let ?d = "(rx_dec r)\<lparr>pending := rest, remaining := PayloadLen (hdr hs)\<rparr>"
    define r0 where "r0 = r\<lparr>rx_header := ?h, rx_dec := ?d\<rparr>"
    show ?thesis
    proof (cases "minimal_len (hdr hs)")
      case False
      with N True have r1: "(res, r1) = rx_fail 1002 (CodecError ErrInvalidPayloadLength) (r\<lparr>rx_header := zero_header\<rparr>)"
        using nh by (simp add: next_header_def)
      have "head_done (rx_role r) (compression r) ?msg hs = ((Failed, 0), [EvFail 1002 (CodecError ErrInvalidPayloadLength)])"
        using False by (simp add: head_done_def Let_def)
      with r1 m inv p l(2) show ?thesis
        by (auto simp: next_ok_def rx_fail_def sim_def meaning_def base_def rx_inv_def dec_Reset_def Buffered_def zero_header_def)
    next
      case min: True
      have rest': "drop (length hs) ?p = rest" by (simp add: rest_def)
      have N1: "NextHeaderInto (rx_header r) (rx_dec r) = (Inr True, ?h, ?d)"
        using N True min by (simp add: rest')
      have acc: "accept_frame ?h (PayloadLen ?h) r0 =
          (if legal (rx_role r) (compression r) ?msg (hdr hs)
           then (None, if Opcode (hdr hs) = Text \<or> Opcode (hdr hs) = Binary
                 then r0\<lparr>messageOpcode := Opcode (hdr hs), rx_compressed := RSV1 (hdr hs)\<rparr> else r0)
           else (Some ErrProtocol, r0))"
        unfolding accept_frame_legal by (simp add: legal_def ag r0_def)
      have rawh: "length (raw ?h) = MaxHeaderSize"
        using i(2) l header_size_bound [of "hs ! Suc 0"] by (simp add: MaxHeaderSize_def)
      show ?thesis
      proof (cases "legal (rx_role r) (compression r) ?msg (hdr hs)")
        case False
        then have r1: "(res, r1) = rx_fail 1002 ErrProtocol r0"
          using nh N1 acc by (simp add: next_header_def r0_def Let_def)
        have "head_done (rx_role r) (compression r) ?msg hs = ((Failed, 0), [EvFail 1002 ErrProtocol])"
          using False min by (simp add: head_done_def Let_def)
        with r1 m inv p l(2) rawh show ?thesis
          by (auto simp: next_ok_def rx_fail_def sim_def meaning_def base_def rx_inv_def dec_Reset_def Buffered_def r0_def)
      next
        case lg: True
        have op: "Opcode (hdr hs) \<in> {Continuation, Text, Binary} \<or> Opcode (hdr hs) \<in> {Close, Ping, Pong}"
          using legal_opcode [OF lg] by auto
        have k0: "length (maskKey r0) = 4" using i(3) by (simp add: r0_def)
        have acc': "snd (accept_frame ?h (PayloadLen ?h) r0) = (if Opcode (hdr hs) = Text \<or> Opcode (hdr hs) = Binary
                 then r0\<lparr>messageOpcode := Opcode (hdr hs), rx_compressed := RSV1 (hdr hs)\<rparr> else r0)"
          using acc lg by simp
        have "(res, r1) = next_accepted ?h (PayloadLen ?h) (snd (accept_frame ?h (PayloadLen ?h) r0))"
          using nh N1 acc lg by (simp add: next_header_def r0_def [symmetric] Let_def)
        also have "\<dots> = (if Opcode (hdr hs) \<ge> Close
            then (let rc = (opened hs r0)\<lparr>controlOpcode := Opcode (hdr hs), controlLen := 0\<rparr>
                  in if PayloadLen (hdr hs) = 0 then finishControl rc else next_control (rc\<lparr>controlOpen := True\<rparr>))
            else (Inr DataFrame, let r = (opened hs r0)\<lparr>rx_remaining := PayloadLen (hdr hs)\<rparr>
               in if rx_remaining r = 0 then finishFrame r else r))"
          by (rule next_accepted_eq [OF l k0 ag(1,6,7,8) acc'])
        finally have nh': "(res, r1) = \<dots>" .
        from op show ?thesis
        proof
          assume c: "Opcode (hdr hs) \<in> {Continuation, Text, Binary}"
          then have "\<not> Opcode (hdr hs) \<ge> Close" by (auto simp: word_le_nat_alt)
          then have "res = Inr DataFrame" "r1 = (let r = (opened hs r0)\<lparr>rx_remaining := PayloadLen (hdr hs)\<rparr>
               in if rx_remaining r = 0 then finishFrame r else r)" using nh' by simp_all
          with opened_data [OF inv f l lg min c m r0_def rawh _ _ ag(2,6,3)] less show ?thesis
            by (auto simp: Buffered_def)
        next
          assume c: "Opcode (hdr hs) \<in> {Close, Ping, Pong}"
          then have "Opcode (hdr hs) \<ge> Close" by auto
          with nh' have "(res, r1) = (if PayloadLen (hdr hs) = 0
              then finishControl ((opened hs r0)\<lparr>controlOpcode := Opcode (hdr hs), controlLen := 0\<rparr>)
              else next_control ((opened hs r0)\<lparr>controlOpcode := Opcode (hdr hs), controlLen := 0, controlOpen := True\<rparr>))"
            by (simp add: Let_def)
          with opened_control [OF inv f l lg min c m r0_def rawh _ _ _ refl] less show ?thesis
            by (auto simp: Buffered_def)
        qed
      qed
    qed
  qed
qed

lemma Next_ok:
  assumes inv: "rx_inv r" and f: "failed r = None" and rem: "rx_remaining r = 0" and n: "Next r = (res, r1)"
  shows "next_ok r res r1 \<and> (res \<noteq> Inr NeedInput \<longrightarrow> Buffered (rx_dec r1) < Buffered (rx_dec r))"
proof (cases "closeReceived r")
  case True
  with n f rem have "res = Inr NeedInput" "r1 = r" by (auto simp: Next_def)
  moreover have "stopped r" using True f by (simp add: stopped_def meaning_def base_def)
  ultimately show ?thesis using inv f by (simp add: next_ok_def sim_def)
next
  case False
  with n f rem have "(if controlOpen r then next_control r else next_header r) = (res, r1)"
    by (simp add: Next_def)
  with next_control_ok [OF inv _ f False, of res r1] next_header_ok [OF inv f False _ rem, of res r1] show ?thesis
    by (auto split: if_splits)
qed

lemma sim_refl: "sim r r []"
  by (simp add: sim_def)

lemma drain_sim:
  assumes "rx_inv r" "Buffered (rx_dec r) < fuel" "drain fuel r = (es, r')"
  shows "rx_inv r' \<and> sim r r' es \<and> stopped r'"
  using assms
proof (induction fuel arbitrary: r es r')
  case (Suc fuel)
  note inv = Suc.prems(1)
  show ?case
  proof (cases "failed r = None")
    case False
    with Suc.prems show ?thesis by (auto simp: sim_refl stopped_def meaning_def base_def)
  next
    case f: True
    show ?thesis
    proof (cases "rx_remaining r = 0")
      case False
      then obtain chunk dn r1 where p: "receiver_Payload r = (Inr (chunk, dn), r1)" "rx_inv r1"
        "sim r r1 (map EvByte chunk)" "failed r1 = None"
        "if dn then rx_remaining r1 = 0 \<and> Buffered (rx_dec r1) < Buffered (rx_dec r)
         else rx_remaining r1 \<noteq> 0 \<and> pending (rx_dec r1) = []"
        using receiver_Payload_sim [OF inv f] by blast
      show ?thesis
      proof (cases dn)
        case True
        obtain fs where fs: "drain fuel r1 = (fs, r')" "es = map EvByte chunk @ fs"
          using Suc.prems(3) f False p(1) True by (auto split: prod.splits)
        with Suc.IH [OF p(2) _ fs(1)] p(3,5) True Suc.prems(2) show ?thesis
          by (auto intro: sim_trans)
      next
        case nd: False
        with Suc.prems(3) f False p have "es = map EvByte chunk" "r' = r1" by auto
        with p nd show ?thesis by (auto simp: stopped_def meaning_def)
      qed
    next
      case rem: True
      obtain res r1 where n: "Next r = (res, r1)" by (cases "Next r")
      note ok = Next_ok [OF inv f rem n]
      show ?thesis
      proof (cases res)
        case (Inl err)
        with ok obtain code e where e: "failed r1 = Some (code, e)" "sim r r1 [EvFail code e]" "rx_inv r1"
          by (auto simp: next_ok_def)
        with Suc.prems(3) f rem n Inl have "es = [EvFail code e]" "r' = r1" by auto
        with e show ?thesis by (auto simp: stopped_def meaning_def base_def)
      next
        case (Inr k)
        show ?thesis
        proof (cases "k = NeedInput")
          case True
          with ok Inr n Suc.prems(3) f rem show ?thesis by (auto simp: next_ok_def)
        next
          case False
          define ev where "ev = (if k = ControlFrame then EvControl (ControlOpcode r1) (ControlPayload r1)
            else EvFrame (Opcode (rx_header r1)) (Final (rx_header r1)) (RSV1 (rx_header r1)))"
          obtain fs where fs: "drain fuel r1 = (fs, r')" "es = ev # fs"
            using Suc.prems(3) f rem n Inr False by (cases k) (auto simp: ev_def Let_def split: prod.splits)
          have r1: "rx_inv r1" "sim r r1 [ev]" "Buffered (rx_dec r1) < Buffered (rx_dec r)"
            using ok Inr False by (cases k; auto simp: next_ok_def ev_def)+
          with Suc.IH [OF r1(1) _ fs(1)] fs(2) Suc.prems(2) sim_trans [OF r1(2)] show ?thesis by fastforce
        qed
      qed
    qed
  qed
qed simp

lemma drain_all_sim:
  "rx_inv r \<Longrightarrow> drain_all r = (es, r') \<Longrightarrow> rx_inv r' \<and> sim r r' es \<and> stopped r'"
  unfolding drain_all_def using drain_sim by blast

section \<open>Chunked input\<close>

primrec feed_all :: "bytes list \<Rightarrow> receiver \<Rightarrow> event list \<times> receiver" where
  "feed_all [] r = ([], r)"
| "feed_all (c # cs) r =
    (let (e1, r1) = drain_all (receiver_Preserve (receiver_Feed c r));
         (e2, r2) = feed_all cs r1
     in (e1 @ e2, r2))"

lemma rx_inv_Feed [inv_intros]: "rx_inv r \<Longrightarrow> rx_inv (receiver_Feed b r)"
  by (auto simp: rx_inv_def receiver_Feed_def split: if_splits)

lemma rx_inv_Preserve [inv_intros]: "rx_inv r \<Longrightarrow> rx_inv (receiver_Preserve r)"
  by (auto simp: rx_inv_def receiver_Preserve_def split: if_splits)

lemma rx_inv_Init [inv_intros]: "rx_inv (receiver_Init role pmd r)"
  by (simp add: rx_inv_def receiver_Init_def zero_receiver_def dec_Reset_def zero_header_def)

lemma meaning_Preserve [simp]: "meaning (receiver_Preserve r) = meaning r"
  by (simp add: meaning_def receiver_Preserve_def base_def rkey_def ControlPayload_def)

lemma meaning_Feed:
  assumes "stopped r"
  shows "meaning (receiver_Feed b r) = byte_run (rx_role r) (compression r) (fst (meaning r)) b"
proof (cases "failed r = None \<and> \<not> closeReceived r")
  case True
  then have "base (receiver_Feed b r) = base r"
    by (simp add: base_def receiver_Feed_def rkey_def ControlPayload_def)
  with True assms show ?thesis
    by (simp add: meaning_def stopped_def receiver_Feed_def byte_run_append split_def Let_def)
next
  case False
  with assms show ?thesis by (auto simp: meaning_def receiver_Feed_def base_def)
qed

lemma feed_all_sim:
  "rx_inv r \<Longrightarrow> stopped r \<Longrightarrow> feed_all cs r = (es, r') \<Longrightarrow>
     rx_inv r' \<and> stopped r' \<and> byte_run (rx_role r) (compression r) (fst (meaning r)) (concat cs) = (fst (meaning r'), es)"
proof (induction cs arbitrary: r es)
  case Nil
  then show ?case by simp
next
  case (Cons c cs)
  let ?r = "receiver_Preserve (receiver_Feed c r)"
  obtain e1 r1 where d: "drain_all ?r = (e1, r1)" by (cases "drain_all ?r")
  obtain e2 where f: "feed_all cs r1 = (e2, r')" "es = e1 @ e2"
    using Cons.prems(3) d by (auto split: prod.splits)
  have "rx_inv ?r" by (intro inv_intros Cons.prems)
  from drain_all_sim [OF this d] have s: "rx_inv r1" "sim ?r r1 e1" "stopped r1" by auto
  have role: "rx_role ?r = rx_role r" "compression ?r = compression r"
    by (auto simp: receiver_Preserve_def receiver_Feed_def)
  have "byte_run (rx_role r) (compression r) (fst (meaning r)) c = (fst (meaning r1), e1)"
    using s(2,3) meaning_Feed [OF Cons.prems(2), of c] by (simp add: sim_def stopped_def)
  moreover have "rx_role r1 = rx_role r" "compression r1 = compression r" using s(2) role by (auto simp: sim_def)
  ultimately show ?case
    using Cons.IH [OF s(1,3) f(1)] f(2) by (simp add: byte_run_append)
qed

lemma meaning_Init: "meaning (receiver_Init role pmd r) = ((Head [], 0), [])"
  by (simp add: meaning_def base_def receiver_Init_def zero_receiver_def dec_Reset_def)

lemma feed_all_run:
  "byte_run role pmd (Head [], 0) (concat chunks) =
     (fst (meaning (snd (feed_all chunks (receiver_Init role pmd r)))), fst (feed_all chunks (receiver_Init role pmd r)))"
proof -
  have "rx_role (receiver_Init role pmd r) = role" "compression (receiver_Init role pmd r) = pmd"
    by (simp_all add: receiver_Init_def zero_receiver_def)
  with feed_all_sim [OF rx_inv_Init [of role pmd r] _ prod.collapse [symmetric], of chunks] show ?thesis
    by (simp add: meaning_Init stopped_def)
qed

end
