(* ===== verification/Receiver_Props.thy ===== *)
theory Receiver_Props
  imports Receiver_Refine
begin

text \<open>
  The properties of the receiver: the shape of the event stream, delivery of what a sender sent,
  and the soundness of its state under every operation.
\<close>

unbundle bit_operations_syntax

section \<open>What the events obey\<close>

fun events_ok :: "bool \<Rightarrow> bool \<Rightarrow> event list \<Rightarrow> bool" where
  "events_ok pmd op_en [] \<longleftrightarrow> True"
| "events_ok pmd op_en (EvFrame op final rsv1 # es) \<longleftrightarrow>
    (if op_en then op = Continuation \<and> \<not> rsv1 else (op = Text \<or> op = Binary) \<and> (rsv1 \<longrightarrow> pmd))
    \<and> events_ok pmd (\<not> final) es"
| "events_ok pmd op_en (EvByte b # es) \<longleftrightarrow> events_ok pmd op_en es"
| "events_ok pmd op_en (EvControl op p # es) \<longleftrightarrow>
    length p \<le> 125 \<and> op \<in> {Close, Ping, Pong}
    \<and> (if op = Close then validateClose p = None \<and> es = [] else events_ok pmd op_en es)"
| "events_ok pmd op_en (EvFail code err # es) \<longleftrightarrow> es = [] \<and> (code = 1002 \<or> code = 1007)"

definition phase_open :: "astate \<Rightarrow> bool" where
  "phase_open st = (case st of (Data n final key p, msg) \<Rightarrow> \<not> final | (_, msg) \<Rightarrow> msg \<noteq> 0)"

definition phase_ok :: "astate \<Rightarrow> bool" where
  "phase_ok st = (case st of
     (Data n final key p, msg) \<Rightarrow> msg \<noteq> 0
   | (Ctl op n key acc, msg) \<Rightarrow> op \<in> {Close, Ping, Pong} \<and> 0 < n \<and> n + length acc \<le> 125
   | _ \<Rightarrow> True)"

definition step_events_ok :: "bool \<Rightarrow> bool \<Rightarrow> astate \<times> event list \<Rightarrow> bool" where
  "step_events_ok pmd o1 = (\<lambda>(st, es). phase_ok st \<and>
     (\<forall>fs. (fst st \<in> {Closed, Failed} \<longrightarrow> fs = []) \<longrightarrow> events_ok pmd (phase_open st) fs \<longrightarrow> events_ok pmd o1 (es @ fs)))"

lemma step_events_silent: "phase_ok st \<Longrightarrow> phase_open st = o1 \<Longrightarrow> step_events_ok pmd o1 (st, [])"
  by (simp add: step_events_ok_def)

lemma ctl_done_events:
  "op \<in> {Close, Ping, Pong} \<Longrightarrow> length p \<le> 125 \<Longrightarrow> step_events_ok pmd (msg \<noteq> 0) (ctl_done msg op p)"
  by (auto simp: step_events_ok_def ctl_done_def phase_ok_def phase_open_def split: option.split)

lemma head_done_events:
  "step_events_ok pmd (msg \<noteq> 0) (head_done role pmd msg hs)"
proof (cases "minimal_len (hdr hs) \<and> legal role pmd msg (hdr hs)")
  case False
  then show ?thesis
    by (auto simp: head_done_def Let_def step_events_ok_def phase_ok_def phase_open_def)
next
  case True
  let ?h = "hdr hs"
  show ?thesis
  proof (cases "Opcode ?h \<in> {Close, Ping, Pong}")
    case c: True
    then have "unat (PayloadLen ?h) \<le> 125" using True by (auto simp: legal_def)
    with c True show ?thesis
      by (auto simp: head_done_def Let_def phase_ok_def phase_open_def intro!: ctl_done_events step_events_silent)
  next
    case False
    with True legal_opcode [of role pmd msg ?h] show ?thesis
      by (auto simp: head_done_def Let_def step_events_ok_def phase_ok_def phase_open_def legal_def split: if_splits)
  qed
qed

lemma byte_step_events:
  assumes "phase_ok st"
  shows "step_events_ok pmd (phase_open st) (byte_step role pmd st b)"
proof -
  obtain ph msg where st: "st = (ph, msg)" by (cases st)
  show ?thesis
  proof (cases ph)
    case (Head hs)
    then show ?thesis
      using head_done_events [of pmd msg role "hs @ [b]"]
      by (auto simp: st phase_open_def phase_ok_def intro: step_events_silent)
  next
    case (Data n final key p)
    with assms show ?thesis by (auto simp: st step_events_ok_def phase_ok_def phase_open_def)
  next
    case (Ctl op n key acc)
    with assms ctl_done_events [of op "acc @ [b XOR key_byte key (length acc)]" pmd msg] show ?thesis
      by (auto simp: st Let_def phase_ok_def phase_open_def intro: step_events_silent)
  qed (auto simp: st step_events_ok_def phase_ok_def phase_open_def)
qed

lemma byte_run_events:
  assumes "phase_ok st" "byte_run role pmd st bs = (st', es)"
  shows "events_ok pmd (phase_open st) es"
  using assms
proof (induction bs arbitrary: st es)
  case (Cons b bs)
  obtain st1 e1 where s: "byte_step role pmd st b = (st1, e1)" by (cases "byte_step role pmd st b")
  obtain e2 where r: "byte_run role pmd st1 bs = (st', e2)" "es = e1 @ e2"
    using Cons.prems(2) s by (auto split: prod.splits)
  have "step_events_ok pmd (phase_open st) (st1, e1)" using byte_step_events [OF Cons.prems(1), of pmd role b] s by simp
  then have 1: "phase_ok st1" "(fst st1 \<in> {Closed, Failed} \<longrightarrow> e2 = []) \<Longrightarrow> events_ok pmd (phase_open st1) e2 \<Longrightarrow> events_ok pmd (phase_open st) es"
    by (auto simp: step_events_ok_def r(2))
  have "fst st1 \<in> {Closed, Failed} \<longrightarrow> e2 = []"
    using r(1) by (cases st1) auto
  with 1 Cons.IH [OF 1(1) r(1)] show ?case by blast
qed simp

section \<open>Frames of a sender\<close>

type_synonym frame = "opcode \<times> bool \<times> bytes \<times> bool"

definition frame_events :: "frame \<Rightarrow> event list" where
  "frame_events = (\<lambda>(op, final, payload, rsv1).
     if op \<in> {Close, Ping, Pong} then [EvControl op payload] else EvFrame op final rsv1 # map EvByte payload)"

lemma first_byte_fields:
  assumes "header_of (first_byte op final rsv1) n key h" "op \<in> {Continuation, Text, Binary, Close, Ping, Pong}"
  shows "Opcode h = op" "Final h = final" "RSV1 h = rsv1" "\<not> RSV2 h" "\<not> RSV3 h"
  using assms(2)
  by (auto simp: Opcode_def Final_def RSV1_def RSV2_def RSV3_def header_of_nth [OF assms(1)] first_byte_def)

definition allowed :: "bool \<Rightarrow> opcode \<Rightarrow> opcode \<Rightarrow> bool \<Rightarrow> bool" where
  "allowed pmd msg op rsv1 \<longleftrightarrow>
     (if op \<in> {Close, Ping, Pong} then \<not> rsv1
      else if msg = 0 then (op = Text \<or> op = Binary) \<and> (rsv1 \<longrightarrow> pmd) else op = Continuation \<and> \<not> rsv1)"

definition msg_after :: "opcode \<Rightarrow> frame \<Rightarrow> opcode" where
  "msg_after msg = (\<lambda>(op, final, payload, rsv1).
     if op \<in> {Close, Ping, Pong} then msg else if final then 0 else if op = Continuation then msg else op)"

lemma wire_frame_run:
  assumes s: "sendable op final rsv1 payload" and a: "allowed pmd msg op rsv1"
    and k: "key_ok key" "(key \<noteq> None) = (role = Server)" and n: "length payload < 2 ^ 63"
  shows "byte_run role pmd (Head [], msg) (wire_frame op final rsv1 key payload) =
    ((if op = Close then Closed else Head [], msg_after msg (op, final, payload, rsv1)),
     frame_events (op, final, payload, rsv1))"
proof -
  let ?n = "length payload"
  define hs where "hs = wire_header (first_byte op final rsv1) ?n key"
  define body where "body = xor_key key 0 payload"
  have w: "wire_frame op final rsv1 key payload = hs @ body"
    by (simp add: wire_frame_def hs_def body_def xor_key_def)
  have h: "header_of (first_byte op final rsv1) ?n key (hdr hs)"
    by (simp add: header_of_def hdr_def hs_def)
  have op: "op \<in> {Continuation, Text, Binary, Close, Ping, Pong}" using s by (simp add: sendable_def)
  note fld = first_byte_fields [OF h op]
  have len: "PayloadLen (hdr hs) = of_nat ?n" using n by (intro header_of_PayloadLen [OF h]) simp
  then have ulen: "unat (PayloadLen (hdr hs)) = ?n" using n by simp
  have hl: "length hs = header_size (hs ! Suc 0)" "2 \<le> length hs"
    using header_size_wire [OF k(1), of ?n "first_byte op final rsv1"] by (simp_all add: hs_def wire_header_def)
  have min: "minimal_len (hdr hs)"
    using n ulen header_of_nth(2) [OF h] by (auto simp: minimal_len_def Let_def len_byte_and_7f)
  have lg: "legal role pmd msg (hdr hs)"
    using a s k(2) op header_of_Masked [OF h]
    by (auto simp: legal_def fld ulen allowed_def sendable_def split: if_splits)
  have key: "(if Masked (hdr hs) then Some (MaskKey (hdr hs)) else None) = key"
    using header_of_Masked [OF h] header_of_MaskKey [OF h k(1)] by (cases key) auto
  have hd: "head_done role pmd msg hs =
     (if op \<in> {Close, Ping, Pong} then (if ?n = 0 then ctl_done msg op [] else ((Ctl op ?n key [], msg), []))
      else (let msg' = (if op = Continuation then msg else op)
        in (if ?n = 0 then (Head [], if final then 0 else msg') else (Data ?n final key 0, msg'), [EvFrame op final rsv1])))"
    unfolding head_done_def Let_def key using min lg by (simp add: fld ulen)
  have cd: "ctl_done msg op payload = ((if op = Close then Closed else Head [], msg), [EvControl op payload])"
    if "op \<in> {Close, Ping, Pong}"
    using s that by (auto simp: ctl_done_def sendable_def)
  have bb: "xor_key key 0 body = payload" by (cases key) (simp_all add: body_def xor_key_def)
  have lb: "length body = ?n" by (simp add: body_def)
  have np: "next_pos key 0 = 0" by (cases key) (simp_all add: next_pos_def)
  have run: "byte_run role pmd (Head [], msg) (hs @ body) =
    (let (st, e) = head_done role pmd msg hs; (st', e') = byte_run role pmd st body in (st', e @ e'))"
    using head_run_complete [OF hl(2)] hl(1) by simp
  show ?thesis
  proof (cases "?n = 0")
    case True
    then have "body = []" "payload = []" using lb by simp_all
    with True run cd op show ?thesis
      unfolding w by (auto simp: hd frame_events_def msg_after_def)
  next
    case False
    have "byte_run role pmd (Ctl op ?n key [], msg) body = ctl_done msg op payload"
      using ctl_run [of body ?n role pmd op key "[]" msg] False lb bb by simp
    moreover have "byte_run role pmd (Data ?n final key 0, m) body = ((Head [], if final then 0 else m), map EvByte payload)" for m
      using data_run [of body ?n key 0 role pmd final m] False lb bb np by simp
    ultimately show ?thesis
      unfolding w run hd using False cd op by (auto simp: frame_events_def msg_after_def Let_def split_def)
  qed
qed

fun stream_events :: "frame list \<Rightarrow> event list" where
  "stream_events [] = []"
| "stream_events (f # fs) = frame_events f @ (if fst f = Close then [] else stream_events fs)"

fun in_order :: "bool \<Rightarrow> opcode \<Rightarrow> frame list \<Rightarrow> bool" where
  "in_order pmd msg [] \<longleftrightarrow> True"
| "in_order pmd msg ((op, final, payload, rsv1) # fs) \<longleftrightarrow>
    allowed pmd msg op rsv1 \<and> (op = Close \<or> in_order pmd (msg_after msg (op, final, payload, rsv1)) fs)"

definition sent_frames :: "(bytes \<times> tx_call) list \<Rightarrow> frame_result list \<Rightarrow> frame list" where
  "sent_frames cs rs = concat (map (\<lambda>(c, r). case r of Inl _ \<Rightarrow> [] | Inr _ \<Rightarrow> [tx_frame (snd c)]) (zip cs rs))"

definition sent_bytes :: "frame_result list \<Rightarrow> bytes" where
  "sent_bytes rs = concat (map (\<lambda>r. case r of Inl _ \<Rightarrow> [] | Inr (h, b) \<Rightarrow> h @ b) rs)"

definition peer :: "Role \<Rightarrow> Role" where
  "peer role = (if role = Server then Client else Server)"

lemma tx_role_encodeFrame: "tx_role (snd (encodeFrame gc rnd op final payload compressed s)) = tx_role s"
  by (auto simp: encodeFrame_def Let_def split: prod.split option.split)

lemma tx_role_encode_checked: "tx_role (snd (encode_checked gc rnd op payload compressed s)) = tx_role s"
  by (auto simp: encode_checked_def tx_role_encodeFrame split: option.split)

lemma tx_role_step: "tx_role (snd (tx_step gc rnd c s)) = tx_role s"
  by (cases c)
     (auto simp: sender_Encode_def sender_EncodeCompressed_def EncodeFragment_def EncodeClose_def Let_def
        tx_role_encode_checked tx_role_encodeFrame)

lemma tx_run_events:
  assumes "tx_run gc cs s = (rs, s')" "sender_inv s" "\<forall>c\<in>set cs. length (fst c) = 4"
    "\<forall>(op, final, payload, rsv1)\<in>set (sent_frames cs rs). length payload < 2 ^ 63"
    "in_order pmd msg (sent_frames cs rs)" "role = peer (tx_role s)"
  shows "snd (byte_run role pmd (Head [], msg) (sent_bytes rs)) = stream_events (sent_frames cs rs)"
  using assms
proof (induction cs arbitrary: s rs msg)
  case Nil
  then show ?case by (simp add: sent_bytes_def sent_frames_def)
next
  case (Cons c cs)
  obtain r s1 where st: "tx_step gc (fst c) (snd c) s = (r, s1)" by (cases "tx_step gc (fst c) (snd c) s")
  obtain ts where rs: "tx_run gc cs s1 = (ts, s')" "rs = r # ts"
    using Cons.prems(1) st by (auto split: prod.splits)
  have inv1: "sender_inv s1" using sender_inv_step [OF Cons.prems(2), of gc "fst c" "snd c"] st by simp
  show ?case
  proof (cases r)
    case (Inl e)
    have "tx_role s1 = tx_role s" using tx_role_step [of gc "fst c" "snd c" s] st by simp
    with Cons.IH [OF rs(1) inv1] Cons.prems(3-6) Inl show ?thesis
      by (simp add: rs(2) sent_frames_def sent_bytes_def)
  next
    case (Inr hb)
    obtain h b where hb: "hb = (h, b)" by (cases hb)
    obtain op final payload rsv1 where fr: "tx_frame (snd c) = (op, final, payload, rsv1)"
      by (cases "tx_frame (snd c)")
    have sf: "sent_frames (c # cs) rs = (op, final, payload, rsv1) # sent_frames cs ts"
      and sb: "sent_bytes rs = (h @ b) @ sent_bytes ts"
      by (simp_all add: rs(2) Inr hb sent_frames_def sent_bytes_def fr)
    have "length (fst c) = 4" using Cons.prems(3) by simp
    from tx_step_sent [OF st [unfolded Inr hb] this Cons.prems(2), unfolded fr]
    have snt: "h @ b = wire_frame op final rsv1 (tx_key_of s (fst c)) payload" "sendable op final rsv1 payload"
      "tx_role s1 = tx_role s" by (auto simp: sent_def)
    have k: "key_ok (tx_key_of s (fst c))" "(tx_key_of s (fst c) \<noteq> None) = (role = Server)"
    proof -
      show "key_ok (tx_key_of s (fst c))" using \<open>length (fst c) = 4\<close> by (simp add: tx_key_of_def)
      show "(tx_key_of s (fst c) \<noteq> None) = (role = Server)"
        unfolding Cons.prems(6) by (cases "tx_role s") (simp_all add: tx_key_of_def peer_def)
    qed
    have "allowed pmd msg op rsv1" "length payload < 2 ^ 63" using Cons.prems(4,5) by (simp_all add: sf)
    note run = wire_frame_run [OF snt(2) this(1) k this(2), folded snt(1)]
    show ?thesis
    proof (cases "op = Close")
      case True
      with run show ?thesis by (simp add: sf sb byte_run_append split_def Let_def)
    next
      case False
      then have "in_order pmd (msg_after msg (op, final, payload, rsv1)) (sent_frames cs ts)"
        using Cons.prems(5) by (simp add: sf)
      with Cons.IH [OF rs(1) inv1 _ _ this] Cons.prems(3,4,6) snt(3)
      have "snd (byte_run role pmd (Head [], msg_after msg (op, final, payload, rsv1)) (sent_bytes ts))
          = stream_events (sent_frames cs ts)" by (simp add: sf)
      with run False show ?thesis by (simp add: sf sb byte_run_append split_def Let_def)
    qed
  qed
qed

text \<open>C5: However the transport cuts the byte stream into reads, the receiver reports exactly
  the events the protocol automaton gives for the whole stream: the same frames, payload bytes (unmasked),
  control frames and, if the stream breaks a rule, the same failure with the same close code at the same
  place; and its state after the last read is the automaton's.\<close>

theorem receiver_chunking_irrelevant:
  "byte_run role pmd (Head [], 0) (concat chunks) =
     (fst (meaning (snd (feed_all chunks (receiver_Init role pmd r)))), fst (feed_all chunks (receiver_Init role pmd r)))"
  by (rule feed_all_run)

text \<open>C18: What the receiver reports always has the shape of a WebSocket message stream: a
  data frame opens a message only when none is open and continues one only when one is, RSV1 appears
  only on a first frame and only when compression was negotiated, control frames carry at most 125 bytes and do
  not disturb the open message, nothing follows a valid close frame or a failure, and failures
  carry close code 1002 or 1007.\<close>

theorem receiver_events_legal:
  "events_ok pmd False (fst (feed_all chunks (receiver_Init role pmd r)))"
  using byte_run_events [OF _ feed_all_run [of role pmd chunks r]] by (simp add: phase_ok_def phase_open_def)

text \<open>C7: Sender to receiver: take any sequence of calls on one endpoint's sender, the refused
  ones included, in which the frames that went out form a legal message order; deliver the bytes to the
  other endpoint's receiver in any pieces. The receiver reports exactly those frames with their
  payloads, in order, up to and including the first close frame, and never a failure.\<close>

theorem sender_reaches_receiver:
  assumes inv: "sender_inv s" and keys: "\<forall>c\<in>set cs. length (fst c) = 4"
    and rs: "rs = fst (tx_run gc cs (sender_Init role s))"
    and size: "\<forall>(op, final, payload, rsv1)\<in>set (sent_frames cs rs). length payload < 2 ^ 63"
    and ord: "in_order pmd 0 (sent_frames cs rs)"
    and wire: "concat chunks = sent_bytes rs"
  shows "fst (feed_all chunks (receiver_Init (peer role) pmd r)) = stream_events (sent_frames cs rs)"
proof -
  have "tx_run gc cs (sender_Init role s) = (rs, snd (tx_run gc cs (sender_Init role s)))" by (simp add: rs)
  moreover have "peer role = peer (tx_role (sender_Init role s))" by (simp add: sender_Init_def)
  ultimately have "snd (byte_run (peer role) pmd (Head [], 0) (sent_bytes rs)) = stream_events (sent_frames cs rs)"
    using sender_inv_Init [OF inv] keys size ord by (intro tx_run_events)
  then show ?thesis using feed_all_run [of "peer role" pmd chunks r] by (simp add: wire)
qed

theorem sender_reaches_receiver_witness:
  "let cs = [([1, 2, 3, 4], TxFragment Text False [104] False), ([5, 6, 7, 8], TxEncode Ping [1]),
             ([9, 9, 9, 9], TxFragment Continuation True [105] False), ([1, 1, 1, 1], TxClose 1000 [])];
       bs = sent_bytes (fst (tx_run (\<lambda>c n. n) cs (sender_Init Client zero_sender)))
   in fst (feed_all [take 3 bs, drop 3 bs] (receiver_Init Server False (zero_receiver Server False zero_decoder)))
      = [EvFrame Text False False, EvByte 104, EvControl Ping [1], EvFrame Continuation True False, EvByte 105,
         EvControl Close [3, 232]]"
proof -
  let ?cs = "[([1, 2, 3, 4], TxFragment Text False [104] False), ([5, 6, 7, 8], TxEncode Ping [1]),
             ([9, 9, 9, 9], TxFragment Continuation True [105] False), ([1, 1, 1, 1], TxClose 1000 [])]"
  let ?rs = "fst (tx_run (\<lambda>c n. n) ?cs (sender_Init Client zero_sender))"
  have fr: "sent_frames ?cs ?rs = [(Text, False, [104], False), (Ping, True, [1], False),
      (Continuation, True, [105], False), (Close, True, [3, 232], False)]" by code_simp
  have "sender_inv zero_sender" by (simp add: sender_inv_def zero_sender_def)
  moreover have "in_order False 0 (sent_frames ?cs ?rs)" unfolding fr by code_simp
  moreover have "\<forall>(op, final, payload, rsv1)\<in>set (sent_frames ?cs ?rs). length payload < 2 ^ 63" unfolding fr by simp
  moreover have "concat [take 3 (sent_bytes ?rs), drop 3 (sent_bytes ?rs)] = sent_bytes ?rs" by simp
  ultimately have "fst (feed_all [take 3 (sent_bytes ?rs), drop 3 (sent_bytes ?rs)]
      (receiver_Init (peer Client) False (zero_receiver Server False zero_decoder))) = stream_events (sent_frames ?cs ?rs)"
    by (intro sender_reaches_receiver [OF _ _ refl]) simp_all
  moreover have "peer Client = Server" by (simp add: peer_def)
  ultimately show ?thesis
    unfolding Let_def fr by (simp add: frame_events_def)
qed

section \<open>The invariant under every operation\<close>

datatype rx_op = OpFeed bytes | OpPreserve | OpNext | OpPayload int

fun rx_step :: "rx_op \<Rightarrow> receiver \<Rightarrow> receiver" where
  "rx_step (OpFeed b) r = receiver_Feed b r"
| "rx_step OpPreserve r = receiver_Preserve r"
| "rx_step OpNext r = snd (Next r)"
| "rx_step (OpPayload n) r = snd (receiver_PayloadN n r)"

lemma rx_inv_Next [inv_intros]: "rx_inv r \<Longrightarrow> rx_inv (snd (Next r))"
  using Next_ok [of r "fst (Next r)" "snd (Next r)"]
  by (cases "failed r = None \<and> rx_remaining r = 0") (auto simp: next_ok_def Next_def split: option.splits)

lemma rx_inv_PayloadN [inv_intros]:
  assumes inv: "rx_inv r"
  shows "rx_inv (snd (receiver_PayloadN n r))"
proof (cases "failed r = None \<and> rx_remaining r \<noteq> 0")
  case False
  then show ?thesis using inv by (auto simp: receiver_PayloadN_def split: option.splits)
next
  case True
  obtain c dn d' where P: "PayloadN n (rx_dec r) = ((c, dn), d')" by (metis prod.collapse)
  have st: "\<not> controlOpen r" "\<not> closeReceived r" "remaining (rx_dec r) = rx_remaining r" "unat (maskOffset r) < 4"
    using inv True by (auto simp: rx_inv_def split: if_splits)
  note sp = PayloadN_split [OF P, unfolded st(3)]
  have rem: "rx_remaining r - of_nat (length c) = remaining d'" using sp(2) by (rule unat_minus_chunk)
  have off: "unat (snd (Mask c (maskKey r) (maskOffset r))) < 4" by (simp add: Mask_offset)
  show ?thesis
    using inv True P st sp(2,3) rem off
    by (cases "c = []")
       (auto simp: receiver_PayloadN_def consumed_def Let_def split_def finishFrame_def rx_inv_def unat_eq_zero)
qed

text \<open>C24: From \<open>Init\<close> on, every sequence of \<open>Feed\<close>, \<open>Preserve\<close>, \<open>Next\<close> and
  \<open>PayloadN\<close> calls, in any order and with any arguments, keeps the receiver's state sound: the
  control buffer offset stays within its 125 bytes (so no slice is ever out of range), receiver and
  decoder agree on the unread payload, a control frame and a data frame are never open together, and after a failure or
  a close nothing is open or buffered.\<close>

theorem receiver_state_sound: "rx_inv (fold rx_step ops (receiver_Init role pmd r))"
proof (induction ops rule: rev_induct)
  case Nil
  show ?case by (simp add: inv_intros)
next
  case (snoc op ops)
  then show ?case by (cases op) (simp_all add: inv_intros)
qed

end
