(* ===== verification/Window.thy ===== *)
theory Window
  imports Ews_Prelude
begin

text \<open>
  The compression history of one direction, \<^verbatim>\<open>src/deflate/window.go\<close>. The Go slice
  \<open>buf\<close> is its contents and its capacity; \<open>gc\<close> gives the capacity \<open>append\<close> allocates
  when it must grow. An out-of-range slice expression is \<open>None\<close>. The contract is the
  locale \<open>history\<close>: what is remembered is the last \<open>size\<close> bytes of everything added, whatever the
  items are that carry the data.
\<close>

definition lastn :: "nat \<Rightarrow> 'a list \<Rightarrow> 'a list" where
  "lastn n xs = drop (length xs - n) xs"

lemma length_lastn [simp]: "length (lastn n xs) = min n (length xs)"
  by (simp add: lastn_def)

lemma lastn_all [simp]: "length xs \<le> n \<Longrightarrow> lastn n xs = xs"
  by (simp add: lastn_def)

lemma lastn_Nil [simp]: "lastn n [] = []"
  by (simp add: lastn_def)

lemma lastn_append_long [simp]: "n \<le> length ys \<Longrightarrow> lastn n (xs @ ys) = lastn n ys"
  by (simp add: lastn_def)

lemma lastn_append_short: "length ys \<le> n \<Longrightarrow> lastn n (xs @ ys) = lastn (n - length ys) xs @ ys"
  by (simp add: lastn_def)

lemma lastn_lastn [simp]: "lastn m (lastn n xs) = lastn (min m n) xs"
  by (auto simp: lastn_def min_def intro: arg_cong [where f = "\<lambda>k. drop k xs"])

lemma lastn_cong: "lastn n xs = lastn n ys \<Longrightarrow> m \<le> n \<Longrightarrow> lastn m xs = lastn m ys"
  by (metis lastn_lastn min.absorb1)

lemma lastn_append_lastn [simp]: "lastn n (lastn n xs @ ys) = lastn n (xs @ ys)"
proof (cases "n \<le> length ys")
  case False
  then show ?thesis by (simp add: lastn_append_short)
qed simp

lemma lastn_append_cong: "lastn n xs = lastn n ys \<Longrightarrow> lastn n (xs @ zs) = lastn n (ys @ zs)"
  by (metis lastn_append_lastn)

section \<open>The contract\<close>

locale history =
  fixes size :: "'s \<Rightarrow> nat" and hist :: "'s \<Rightarrow> bytes" and data :: "'p \<Rightarrow> bytes" and add :: "'p \<Rightarrow> 's \<Rightarrow> 's"
    and ok :: "'s \<Rightarrow> bool"
  assumes ok_add: "ok s \<Longrightarrow> ok (add p s)"
    and size_add: "ok s \<Longrightarrow> size (add p s) = size s"
    and hist_add: "ok s \<Longrightarrow> hist (add p s) = lastn (size s) (hist s @ data p)"
begin

lemma hist_adds:
  "ok s \<Longrightarrow> hist s = lastn (size s) h \<Longrightarrow>
     ok (fold add ps s) \<and> size (fold add ps s) = size s
     \<and> hist (fold add ps s) = lastn (size s) (h @ concat (map data ps))"
proof (induction ps arbitrary: s h)
  case Nil
  then show ?case by simp
next
  case (Cons p ps)
  have "hist (add p s) = lastn (size (add p s)) (h @ data p)"
    using Cons.prems by (simp add: hist_add size_add)
  with Cons.IH [OF ok_add [OF Cons.prems(1), of p] this] Cons.prems(1) show ?case
    by (simp add: size_add)
qed

end

text \<open>A history that can also be cleared.\<close>

locale clearable_history = history +
  fixes clear :: "'a \<Rightarrow> 'a"
  assumes ok_clear: "ok s \<Longrightarrow> ok (clear s)"
    and size_clear: "ok s \<Longrightarrow> size (clear s) = size s"
    and hist_clear: "ok s \<Longrightarrow> hist (clear s) = []"
begin

lemma hist_since_clear:
  "ok s \<Longrightarrow> hist (fold add ps (clear s)) = lastn (size s) (concat (map data ps))"
  using hist_adds [of "clear s" "[]" ps] by (simp add: ok_clear size_clear hist_clear)

end

section \<open>deflate/window.go\<close>

record Window =
  Bits :: int
  wbuf :: bytes
  wcap :: nat
  gen :: u64

definition windowSize :: nat where "windowSize = 32 * 1024"

definition Size :: "Window \<Rightarrow> nat" where
  "Size w = (if Bits w \<ge> 8 \<and> Bits w \<le> 15 then 2 ^ nat (Bits w) else windowSize)"

definition dict :: "Window option \<Rightarrow> bytes" where
  "dict w = (case w of
     None \<Rightarrow> []
   | Some w \<Rightarrow> (let n = int (length (wbuf w)) - int (Size w) in if n > 0 then drop (nat n) (wbuf w) else wbuf w))"

definition win_Reset :: "Window \<Rightarrow> Window" where
  "win_Reset w = w\<lparr>wbuf := [], gen := gen w + 1\<rparr>"

definition win_append :: "(nat \<Rightarrow> nat \<Rightarrow> nat) \<Rightarrow> bytes \<Rightarrow> bytes \<Rightarrow> Window \<Rightarrow> Window" where
  "win_append gc buf p w =
    w\<lparr>wbuf := buf @ p, wcap := (if length buf + length p \<le> wcap w then wcap w else gc (wcap w) (length buf + length p))\<rparr>"

definition remember :: "(nat \<Rightarrow> nat \<Rightarrow> nat) \<Rightarrow> bytes \<Rightarrow> Window \<Rightarrow> Window option" where
  "remember gc p w =
    (if length p = 0 then Some w
     else
       (let w = w\<lparr>gen := gen w + 1\<rparr>; size = Size w
        in if length p \<ge> size then Some (win_append gc [] (drop (length p - size) p) w)
           else
             (let w = (if wcap w < 2 * size then w\<lparr>wbuf := dict (Some w), wcap := 2 * size\<rparr> else w)
              in if length (wbuf w) + length p > wcap w
                 then (let keep = size - length p
                       in if length (wbuf w) < keep then None
                          else Some (win_append gc (drop (length (wbuf w) - keep) (wbuf w)) p w))
                 else Some (win_append gc (wbuf w) p w))))"

definition Add :: "(nat \<Rightarrow> nat \<Rightarrow> nat) \<Rightarrow> bytes \<Rightarrow> Window \<Rightarrow> Window option" where
  "Add gc p w = remember gc p w"

section \<open>The window keeps exactly the last size bytes\<close>

lemma dict_lastn: "dict (Some w) = lastn (Size w) (wbuf w)"
  by (auto simp: dict_def lastn_def Let_def nat_diff_distrib)

lemma dict_None [simp]: "dict None = []"
  by (simp add: dict_def)

lemma Size_pos: "Size w \<ge> 256"
proof (cases "Bits w \<ge> 8 \<and> Bits w \<le> 15")
  case True
  then have "(2::nat) ^ 8 \<le> 2 ^ nat (Bits w)" by (intro power_increasing) auto
  with True show ?thesis by (simp add: Size_def)
qed (auto simp: Size_def windowSize_def)

lemma Size_gen [simp]: "Size (w\<lparr>gen := g\<rparr>) = Size w" "Size (w\<lparr>wbuf := b\<rparr>) = Size w" "Size (w\<lparr>wcap := c\<rparr>) = Size w"
  by (simp_all add: Size_def)

lemma Size_append [simp]: "Size (win_append gc b p w) = Size w" and wbuf_append [simp]: "wbuf (win_append gc b p w) = b @ p"
  by (simp_all add: win_append_def Size_def)

lemma remember_correct:
  "\<exists>w'. remember gc p w = Some w' \<and> Size w' = Size w
     \<and> dict (Some w') = lastn (Size w) (dict (Some w) @ p)
     \<and> gen w' = (if p = [] then gen w else gen w + 1)"
proof (cases "p = []")
  case True
  then show ?thesis by (simp add: remember_def dict_lastn)
next
  case ne: False
  define n where "n = Size w"
  show ?thesis
  proof (cases "n \<le> length p")
    case True
    then have "remember gc p w = Some (win_append gc [] (drop (length p - n) p) (w\<lparr>gen := gen w + 1\<rparr>))"
      using ne by (simp add: remember_def Let_def n_def)
    with True ne show ?thesis
      by (simp add: dict_lastn n_def win_append_def) (simp add: lastn_def)
  next
    case short: False
    define w1 where "w1 = (let w = w\<lparr>gen := gen w + 1\<rparr>
       in if wcap w < 2 * n then w\<lparr>wbuf := dict (Some w), wcap := 2 * n\<rparr> else w)"
    have w1: "Size w1 = n" "lastn n (wbuf w1) = lastn n (wbuf w)" "wcap w1 \<ge> 2 * n" "gen w1 = gen w + 1"
      by (auto simp: w1_def n_def Let_def dict_lastn)
    have r: "remember gc p w = (if length (wbuf w1) + length p > wcap w1
         then (if length (wbuf w1) < n - length p then None
               else Some (win_append gc (drop (length (wbuf w1) - (n - length p)) (wbuf w1)) p w1))
         else Some (win_append gc (wbuf w1) p w1))"
      using ne short by (auto simp: remember_def w1_def n_def Let_def)
    show ?thesis
    proof (cases "length (wbuf w1) + length p > wcap w1")
      case full: True
      then have "\<not> length (wbuf w1) < n - length p" using w1(3) short by linarith
      with full r have r': "remember gc p w = Some (win_append gc (lastn (n - length p) (wbuf w1)) p w1)"
        by (simp add: lastn_def)
      have "lastn n (lastn (n - length p) (wbuf w1) @ p) = lastn n (wbuf w @ p)"
        using short lastn_cong [OF w1(2), of "n - length p"] by (simp add: lastn_append_short)
      with r' w1 ne show ?thesis
        by (simp add: dict_lastn win_append_def n_def)
    next
      case False
      with r have "remember gc p w = Some (win_append gc (wbuf w1) p w1)" by simp
      moreover have "lastn n (wbuf w1 @ p) = lastn n (wbuf w @ p)" using w1(2) by (rule lastn_append_cong)
      ultimately show ?thesis
        using w1 ne by (simp add: dict_lastn win_append_def n_def)
    qed
  qed
qed

definition add_win :: "(nat \<Rightarrow> nat \<Rightarrow> nat) \<Rightarrow> bytes \<Rightarrow> Window \<Rightarrow> Window" where
  "add_win gc p w = the (Add gc p w)"

lemma add_win_correct:
  "Add gc p w = Some (add_win gc p w)" "Size (add_win gc p w) = Size w"
  "dict (Some (add_win gc p w)) = lastn (Size w) (dict (Some w) @ p)"
  using remember_correct [of gc p w] by (auto simp: add_win_def Add_def)

lemma Size_Reset [simp]: "Size (win_Reset w) = Size w"
  by (simp add: win_Reset_def Size_def)

lemma dict_Reset [simp]: "dict (Some (win_Reset w)) = []"
  by (simp add: win_Reset_def dict_lastn)

interpretation win: clearable_history Size "\<lambda>w. dict (Some w)" "\<lambda>p. p" "add_win gc" "\<lambda>w. True" win_Reset for gc
  by unfold_locales (simp_all add: add_win_correct)

text \<open>C23: The history window never indexes out of range, and after any sequence of messages
  since it was cleared it offers the compressor exactly the last \<open>Size\<close> bytes of their
  concatenation, whatever the sizes, the reallocations and the compactions in between.\<close>

theorem window_keeps_last_bytes:
  "(\<forall>p v. Add gc p v \<noteq> None)
   \<and> dict (Some (fold (add_win gc) ps (win_Reset w))) = lastn (Size w) (concat ps)"
  by (simp add: win.hist_since_clear add_win_correct(1))

end
