(* ===== verification/Compressor.thy ===== *)
theory Compressor
  imports Window "HOL-Library.Sublist"
begin

text \<open>
  Message compression, \<^verbatim>\<open>src/deflate/compressor.go\<close>. The encoder of the third-party
  package \<^verbatim>\<open>klauspost/compress/flate\<close> is the parameter \<open>F\<close>: its writer state is a
  type variable, and \<open>ResetDict\<close>, \<open>Write\<close> and \<open>Flush\<close> are functions on it that give the
  error, if any, and the bytes appended to the output. A window is passed with its address,
  since the code compares pointers.
\<close>

datatype deflate_error =
    FlateError nat
  | ErrDecompressedTooLarge
  | ErrInvalidLimit
  | ErrNoDeflateMessage
  | ErrInvalidWindow
  | SlicePanic

record 'w flate_writer =
  ResetDict :: "bytes \<Rightarrow> 'w \<Rightarrow> 'w"
  FWrite :: "bytes \<Rightarrow> 'w \<Rightarrow> nat option \<times> bytes \<times> 'w"
  FFlush :: "'w \<Rightarrow> nat option \<times> bytes \<times> 'w"
  NewWriter :: "int \<Rightarrow> nat + 'w"
  NewWriterWindow :: "nat \<Rightarrow> nat + 'w"

record 'w compressor =
  writer :: 'w
  coutput :: bytes
  cwindow :: nat
  cattached :: "nat option"
  cgen :: u64
  mid :: bool

definition NewCompressor :: "'w flate_writer \<Rightarrow> int \<Rightarrow> deflate_error + 'w compressor" where
  "NewCompressor F level =
    (case NewWriter F level of
       Inl e \<Rightarrow> Inl (FlateError e)
     | Inr w \<Rightarrow> Inr \<lparr>writer = w, coutput = [], cwindow = windowSize, cattached = None, cgen = 0, mid = False\<rparr>)"

definition NewCompressorWindow :: "'w flate_writer \<Rightarrow> int \<Rightarrow> deflate_error + 'w compressor" where
  "NewCompressorWindow F windowBits =
    (if windowBits < 8 \<or> windowBits > 15 then Inl ErrInvalidWindow
     else case NewWriterWindow F (2 ^ nat windowBits) of
       Inl e \<Rightarrow> Inl (FlateError e)
     | Inr w \<Rightarrow> Inr \<lparr>writer = w, coutput = [], cwindow = 2 ^ nat windowBits, cattached = None, cgen = 0, mid = False\<rparr>)"

type_synonym window_ref = "(nat \<times> Window) option"

definition prime :: "'w flate_writer \<Rightarrow> window_ref \<Rightarrow> 'w compressor \<Rightarrow> 'w compressor" where
  "prime F w c =
    (let dic = dict (map_option snd w);
         dic = (if length dic > cwindow c then drop (length dic - cwindow c) dic else dic)
     in c\<lparr>writer := ResetDict F dic (writer c)\<rparr>)"

definition continues :: "window_ref \<Rightarrow> 'w compressor \<Rightarrow> bool" where
  "continues w c \<longleftrightarrow> mid c \<or> (case w of None \<Rightarrow> False | Some (a, win) \<Rightarrow> cattached c = Some a \<and> gen win = cgen c)"

definition start_chunk :: "'w flate_writer \<Rightarrow> window_ref \<Rightarrow> 'w compressor \<Rightarrow> 'w compressor" where
  "start_chunk F w c =
    (let c = c\<lparr>coutput := []\<rparr> in if \<not> continues w c then prime F w c else c)"

definition strip_tail :: "bool \<Rightarrow> bytes \<Rightarrow> deflate_error + bytes" where
  "strip_tail final out =
    (if final then (if length out < 4 then Inl SlicePanic else Inr (take (length out - 4) out)) else Inr out)"

definition finish_chunk ::
    "(nat \<Rightarrow> nat \<Rightarrow> nat) \<Rightarrow> bytes \<Rightarrow> window_ref \<Rightarrow> bool \<Rightarrow> 'w compressor
     \<Rightarrow> (deflate_error + bytes) \<times> window_ref \<times> 'w compressor" where
  "finish_chunk gc payload w final c =
    (let c = c\<lparr>cattached := map_option fst w, mid := \<not> final\<rparr>
     in case w of
          None \<Rightarrow> (strip_tail final (coutput c), None, c)
        | Some (a, win) \<Rightarrow>
            (case remember gc payload win of
               None \<Rightarrow> (Inl SlicePanic, w, c)
             | Some win' \<Rightarrow> (strip_tail final (coutput c), Some (a, win'), c\<lparr>cgen := gen win'\<rparr>)))"

definition CompressChunk ::
    "'w flate_writer \<Rightarrow> (nat \<Rightarrow> nat \<Rightarrow> nat) \<Rightarrow> bytes \<Rightarrow> window_ref \<Rightarrow> bool \<Rightarrow> 'w compressor
     \<Rightarrow> (deflate_error + bytes) \<times> window_ref \<times> 'w compressor" where
  "CompressChunk F gc payload w final c =
    (let c = start_chunk F w c;
         (e1, o1, s1) = FWrite F payload (writer c);
         c = c\<lparr>writer := s1, coutput := coutput c @ o1\<rparr>
     in case e1 of
          Some e \<Rightarrow> (Inl (FlateError e), w, c\<lparr>cattached := None, mid := False\<rparr>)
        | None \<Rightarrow>
           (let (e2, o2, s2) = FFlush F (writer c);
                c = c\<lparr>writer := s2, coutput := coutput c @ o2\<rparr>
            in case e2 of
                 Some e \<Rightarrow> (Inl (FlateError e), w, c\<lparr>cattached := None, mid := False\<rparr>)
               | None \<Rightarrow> finish_chunk gc payload w final c))"

definition Compress ::
    "'w flate_writer \<Rightarrow> (nat \<Rightarrow> nat \<Rightarrow> nat) \<Rightarrow> bytes \<Rightarrow> window_ref \<Rightarrow> 'w compressor
     \<Rightarrow> (deflate_error + bytes) \<times> window_ref \<times> 'w compressor" where
  "Compress F gc payload w c = CompressChunk F gc payload w True c"

definition comp_Reset :: "'w flate_writer \<Rightarrow> 'w compressor \<Rightarrow> 'w compressor" where
  "comp_Reset F c = c\<lparr>coutput := [], writer := ResetDict F [] (writer c), cattached := None, mid := False\<rparr>"

section \<open>What the code relies on of the encoder\<close>

text \<open>
  \<open>hst w\<close> is the data a writer may refer back to. \<open>flate_history\<close>: resetting with a
  dictionary makes it the history; data written and flushed extends it; a flush ends with the
  four bytes of an empty stored block; writing to memory does not fail; the levels and window
  sizes the code asks for exist. \<open>flate_decodes\<close>: the output flushed for a sequence of writes decodes
  to their concatenation for every decoder whose dictionary ends with the bytes the writer can
  reach, the last \<open>m\<close> of its history.
\<close>

abbreviation sync_tail :: bytes where "sync_tail \<equiv> [0, 0, 0xff, 0xff]"

definition flate_history :: "'w flate_writer \<Rightarrow> ('w \<Rightarrow> bytes) \<Rightarrow> bool" where
  "flate_history F hst \<longleftrightarrow>
     (\<forall>d w. hst (ResetDict F d w) = d) \<and>
     (\<forall>p w. \<exists>o1 w1. FWrite F p w = (None, o1, w1) \<and> hst w1 = hst w @ p \<and>
        (\<exists>z w2. FFlush F w1 = (None, z @ sync_tail, w2) \<and> hst w2 = hst w1)) \<and>
     (\<forall>l. -2 \<le> l \<and> l \<le> 9 \<longrightarrow> (\<exists>w. NewWriter F l = Inr w)) \<and>
     (\<forall>k. 8 \<le> k \<and> k \<le> 15 \<longrightarrow> (\<exists>w. NewWriterWindow F (2 ^ k) = Inr w))"

definition emitted :: "'w flate_writer \<Rightarrow> bytes \<Rightarrow> 'w \<Rightarrow> bytes" where
  "emitted F p w = (let (e1, o1, w1) = FWrite F p w; (e2, o2, w2) = FFlush F w1 in o1 @ o2)"

definition flushed :: "'w flate_writer \<Rightarrow> bytes \<Rightarrow> 'w \<Rightarrow> 'w" where
  "flushed F p w = (let (e1, o1, w1) = FWrite F p w; (e2, o2, w2) = FFlush F w1 in w2)"

fun emitted_all :: "'w flate_writer \<Rightarrow> bytes list \<Rightarrow> 'w \<Rightarrow> bytes" where
  "emitted_all F [] w = []"
| "emitted_all F (p # ps) w = emitted F p w @ emitted_all F ps (flushed F p w)"

fun flushed_all :: "'w flate_writer \<Rightarrow> bytes list \<Rightarrow> 'w \<Rightarrow> 'w" where
  "flushed_all F [] w = w"
| "flushed_all F (p # ps) w = flushed_all F ps (flushed F p w)"

lemma emitted_all_snoc: "emitted_all F (ps @ [p]) w = emitted_all F ps w @ emitted F p (flushed_all F ps w)"
  by (induction ps arbitrary: w) auto

lemma flushed_all_snoc [simp]: "flushed_all F (ps @ [p]) w = flushed F p (flushed_all F ps w)"
  by (induction ps arbitrary: w) auto

definition flate_decodes ::
    "'w flate_writer \<Rightarrow> ('w \<Rightarrow> bytes) \<Rightarrow> (bytes \<Rightarrow> bytes \<Rightarrow> bytes option) \<Rightarrow> nat \<Rightarrow> bool" where
  "flate_decodes F hst inflated m \<longleftrightarrow>
     (\<forall>ps w D. ps \<noteq> [] \<longrightarrow> suffix (lastn m (hst w)) D \<longrightarrow> inflated D (emitted_all F ps w) = Some (concat ps))"

section \<open>One chunk\<close>

lemma suffix_lastn [simp]: "suffix (lastn n xs) xs"
  by (simp add: lastn_def suffix_drop)

lemma suffix_lastn_mono: "m \<le> n \<Longrightarrow> suffix (lastn m xs) (lastn n xs)"
  by (metis lastn_lastn min.absorb1 suffix_lastn)

lemma hist_flushed:
  assumes "flate_history F hst"
  shows "hst (flushed F p w) = hst w @ p"
proof -
  obtain o1 w1 z w2 where "FWrite F p w = (None, o1, w1)" "hst w1 = hst w @ p" "FFlush F w1 = (None, z @ sync_tail, w2)" "hst w2 = hst w1"
    using assms unfolding flate_history_def by meson
  then show ?thesis by (simp add: flushed_def)
qed

lemma emitted_ends:
  assumes "flate_history F hst"
  shows "\<exists>z. emitted F p w = z @ sync_tail"
proof -
  obtain o1 w1 z w2 where "FWrite F p w = (None, o1, w1)" "FFlush F w1 = (None, z @ sync_tail, w2)"
    using assms unfolding flate_history_def by meson
  then have "emitted F p w = (o1 @ z) @ sync_tail" by (simp add: emitted_def)
  then show ?thesis ..
qed

lemma strip_tail_flushed [simp]: "strip_tail final (z @ sync_tail) = Inr (if final then z else z @ sync_tail)"
  by (simp add: strip_tail_def)

lemma hist_prime:
  assumes "flate_history F hst"
  shows "hst (writer (prime F w c)) = lastn (cwindow c) (dict (map_option snd w))"
  using assms by (auto simp: prime_def flate_history_def Let_def lastn_def)

lemma start_chunk_simps [simp]:
  "coutput (start_chunk F w c) = []" "cwindow (start_chunk F w c) = cwindow c" "cgen (start_chunk F w c) = cgen c"
  by (simp_all add: start_chunk_def prime_def Let_def)

lemma continues_output [simp]: "continues w (c\<lparr>coutput := b\<rparr>) = continues w c"
  by (cases w) (auto simp: continues_def)

lemma start_continues: "continues w c \<Longrightarrow> writer (start_chunk F w c) = writer c"
  by (simp add: start_chunk_def Let_def)

lemma start_primed:
  "flate_history F hst \<Longrightarrow> \<not> continues w c \<Longrightarrow>
     hst (writer (start_chunk F w c)) = lastn (cwindow c) (dict (map_option snd w))"
  using hist_prime [of F hst w "c\<lparr>coutput := []\<rparr>"] by (simp add: start_chunk_def Let_def)

definition add_ref :: "(nat \<Rightarrow> nat \<Rightarrow> nat) \<Rightarrow> bytes \<Rightarrow> window_ref \<Rightarrow> window_ref" where
  "add_ref gc p w = map_option (\<lambda>(a, win). (a, add_win gc p win)) w"

text \<open>The output of one call is what the encoder emitted, without the tail at the end of a message.\<close>

lemma CompressChunk_step:
  assumes F: "flate_history F hst" and w0: "w0 = writer (start_chunk F w c)"
  shows "\<exists>z c'. CompressChunk F gc p w final c = (Inr (if final then z else z @ sync_tail), add_ref gc p w, c')
    \<and> emitted F p w0 = z @ sync_tail \<and> writer c' = flushed F p w0
    \<and> mid c' = (\<not> final) \<and> cattached c' = map_option fst w \<and> cwindow c' = cwindow c
    \<and> (\<forall>a win. w = Some (a, win) \<longrightarrow> cgen c' = gen (add_win gc p win))"
proof -
  obtain o1 w1 z w2 where f: "FWrite F p w0 = (None, o1, w1)" "FFlush F w1 = (None, z @ sync_tail, w2)"
    using F unfolding flate_history_def by meson
  let ?c1 = "start_chunk F w c"
  let ?c2 = "?c1\<lparr>writer := w2, coutput := (o1 @ z) @ sync_tail\<rparr>"
  have cc: "CompressChunk F gc p w final c = finish_chunk gc p w final ?c2"
    using f by (simp add: CompressChunk_def Let_def w0)
  have e: "emitted F p w0 = (o1 @ z) @ sync_tail" "flushed F p w0 = w2" by (simp_all add: emitted_def flushed_def f)
  have r: "remember gc p win = Some (add_win gc p win)" for win
    using add_win_correct(1) by (simp add: Add_def)
  show ?thesis
    unfolding cc finish_chunk_def using e
    by (cases w) (auto simp: r add_ref_def simp del: append_assoc)
qed

section \<open>In step with the window\<close>

text \<open>
  A compressor attached to a window: when the generation numbers agree, the writer's history and
  the window agree on the last \<open>m\<close> bytes. \<open>n\<close> counts the changes of the window; the
  generation is that count modulo 2^64.
\<close>

definition comp_inv :: "('w \<Rightarrow> bytes) \<Rightarrow> nat \<Rightarrow> nat \<Rightarrow> nat \<Rightarrow> Window \<Rightarrow> 'w compressor \<Rightarrow> bool" where
  "comp_inv hst m n a win c \<longleftrightarrow>
     cwindow c = m \<and>
     (cattached c = Some a \<longrightarrow>
        (\<exists>k \<le> n. cgen c = of_nat k \<and> (k = n \<longrightarrow> lastn m (hst (writer c)) = lastn m (dict (Some win)))))"

lemma u64_of_nat_eq:
  assumes "k \<le> n" "n < 2 ^ 64" "(of_nat k :: u64) = of_nat n"
  shows "k = n"
proof -
  have "k < 2 ^ LENGTH(64)" "n < 2 ^ LENGTH(64)" using assms(1,2) by simp_all
  then have "unat (of_nat k :: u64) = k" "unat (of_nat n :: u64) = n" by (simp_all only: unat_of_nat_small)
  with assms(3) show ?thesis by metis
qed

lemma comp_inv_later: "comp_inv hst m n a win c \<Longrightarrow> n < n' \<Longrightarrow> comp_inv hst m n' a win' c"
  unfolding comp_inv_def by (metis less_imp_le_nat le_trans not_le)

lemma start_in_step:
  assumes F: "flate_history F hst" and inv: "comp_inv hst m n a win c" and g: "gen win = of_nat n" and n: "n < 2 ^ 64"
    and md: "mid c \<longrightarrow> cattached c = Some a \<and> cgen c = gen win"
  shows "lastn m (hst (writer (start_chunk F (Some (a, win)) c))) = lastn m (dict (Some win))"
proof (cases "continues (Some (a, win)) c")
  case True
  then have a: "cattached c = Some a" "gen win = cgen c" using md by (auto simp: continues_def)
  with inv obtain k where k: "k \<le> n" "cgen c = of_nat k"
    "k = n \<longrightarrow> lastn m (hst (writer c)) = lastn m (dict (Some win))"
    by (auto simp: comp_inv_def)
  have "k = n" using k(1) n by (rule u64_of_nat_eq) (use k a g in simp)
  then show ?thesis using k(3) start_continues [OF True, of F] by simp
next
  case False
  then show ?thesis using start_primed [OF F False] inv by (simp add: comp_inv_def)
qed

definition changes :: "bytes \<Rightarrow> nat" where "changes p = (if p = [] then 0 else 1)"

lemma gen_add_win: "gen win = of_nat n \<Longrightarrow> gen (add_win gc p win) = of_nat (n + changes p)"
  using remember_correct [of gc p win] add_win_correct(1) [of gc p win] by (auto simp: changes_def Add_def)

lemma comp_inv_chunk:
  assumes F: "flate_history F hst" and h: "lastn m (hst w0) = lastn m (dict (Some win))" and s: "Size win = m"
    and c': "writer c' = flushed F p w0" "cwindow c' = m" "cgen c' = gen (add_win gc p win)" and g: "gen win = of_nat n"
  shows "comp_inv hst m (n + changes p) a (add_win gc p win) c'"
proof -
  have "lastn m (hst (writer c')) = lastn m (dict (Some (add_win gc p win)))"
    using h by (simp add: c'(1) hist_flushed [OF F] add_win_correct(3) s) (rule lastn_append_cong)
  then show ?thesis using c' gen_add_win [OF g, of gc p] unfolding comp_inv_def by auto
qed

end
