(* ===== verification/Queue.thy ===== *)
theory Queue
  imports Sender
begin

text \<open>
  The asynchronous send queue, \<^verbatim>\<open>src/ws/queue.go\<close>. Frames copied into the arena are
  ranges of it, prepared frames are referenced. The writer goroutine is a program counter; the regions
  that run under the queue's mutex, and the flush that runs under the transport lock, are
  the atomic steps, and producers, the writer and frames that bypass the queue (pings and pongs)
  interleave freely between them. Buffer storage (arena pool, size classes) is not observable in
  the bytes and is left out.
\<close>

record segment =
  seg_start :: nat
  seg_end :: nat
  seg_ext :: "bytes option"

definition zero_segment :: segment where
  "zero_segment = \<lparr>seg_start = 0, seg_end = 0, seg_ext = None\<rparr>"

record queue =
  q_limit :: int
  q_cur :: "bytes option"
  q_segments :: "segment list"
  q_size :: int
  q_running :: bool
  q_err :: "go_error option"
  q_enqueued :: u64
  q_written :: u64
  q_flushing :: "bytes option"
  q_flushSegments :: "segment list"

definition zero_queue :: "int \<Rightarrow> queue" where
  "zero_queue limit = \<lparr>q_limit = limit, q_cur = None, q_segments = [], q_size = 0, q_running = False,
     q_err = None, q_enqueued = 0, q_written = 0, q_flushing = None, q_flushSegments = []\<rparr>"

definition NewQueue :: "int \<Rightarrow> queue option \<Rightarrow> queue" where
  "NewQueue limit qo =
    (case qo of
       Some q \<Rightarrow> (if limit > 0 then q\<lparr>q_limit := limit\<rparr> else q)
     | None \<Rightarrow> zero_queue (if limit \<le> 0 then 2 ^ 20 else limit))"

definition queue_Err :: "queue \<Rightarrow> go_error option" where "queue_Err q = q_err q"
definition queue_Pending :: "queue \<Rightarrow> int" where "queue_Pending q = q_size q"

definition reserve :: "nat \<Rightarrow> queue \<Rightarrow> go_error option" where
  "reserve n q =
    (case q_err q of
       Some e \<Rightarrow> Some e
     | None \<Rightarrow> if q_size q \<noteq> 0 \<and> q_size q + int n > q_limit q then Some ErrQueueFull else None)"

text \<open>The result tells whether the call starts the writer goroutine.\<close>

definition enqueue :: "bytes \<Rightarrow> bytes \<Rightarrow> bytes option \<Rightarrow> queue \<Rightarrow> (go_error + u64 \<times> bool) \<times> queue" where
  "enqueue header body ext q =
    (case q_err q of
       Some e \<Rightarrow> (Inl e, q)
     | None \<Rightarrow>
        (let n = length header + length body + (case ext of None \<Rightarrow> 0 | Some x \<Rightarrow> length x);
             q = (case ext of
                    Some x \<Rightarrow> q\<lparr>q_segments := q_segments q @ [\<lparr>seg_start = 0, seg_end = 0, seg_ext = Some x\<rparr>]\<rparr>
                  | None \<Rightarrow>
                     (let b = (case q_cur q of None \<Rightarrow> [] | Some b \<Rightarrow> b);
                          start = length b;
                          b = b @ header @ body
                      in q\<lparr>q_cur := Some b,
                           q_segments := q_segments q @ [\<lparr>seg_start = start, seg_end = length b, seg_ext = None\<rparr>]\<rparr>));
             q = q\<lparr>q_size := q_size q + int n, q_enqueued := q_enqueued q + 1\<rparr>
         in (Inr (q_enqueued q, \<not> q_running q), q\<lparr>q_running := True\<rparr>)))"

text \<open>\<open>waitLocked\<close>: \<open>None\<close> while it blocks.\<close>

definition waitLocked :: "u64 \<Rightarrow> queue \<Rightarrow> go_error option option" where
  "waitLocked seq q = (if q_written q < seq \<and> q_err q = None then None else Some (q_err q))"

definition await :: "queue option \<Rightarrow> u64 \<Rightarrow> go_error option \<Rightarrow> go_error option option" where
  "await qo seq err = (if err \<noteq> None then Some err else case qo of None \<Rightarrow> Some err | Some q \<Rightarrow> waitLocked seq q)"

definition queue_Wait :: "queue \<Rightarrow> go_error option option" where
  "queue_Wait q = waitLocked (q_enqueued q) q"

text \<open>The three regions of \<open>run\<close>: stop when idle, take the producer's storage, account for a flush.\<close>

definition run_idle :: "queue \<Rightarrow> bool" where
  "run_idle q \<longleftrightarrow> length (q_segments q) = 0 \<or> q_err q \<noteq> None"

definition run_stop :: "queue \<Rightarrow> queue" where
  "run_stop q = q\<lparr>q_running := False\<rparr>"

definition run_take :: "queue \<Rightarrow> queue" where
  "run_take q = q\<lparr>q_cur := None, q_flushing := q_cur q, q_segments := [], q_flushSegments := q_segments q, q_size := 0\<rparr>"

definition run_done :: "go_error option \<Rightarrow> queue \<Rightarrow> queue" where
  "run_done err q =
    (let q = q\<lparr>q_flushSegments := map (\<lambda>_. zero_segment) (q_flushSegments q),
               q_written := q_written q + of_nat (length (q_flushSegments q)), q_flushing := None\<rparr>
     in if err \<noteq> None then q\<lparr>q_err := err, q_segments := [], q_size := 0, q_running := False\<rparr> else q)"

text \<open>The bytes \<open>flush\<close> hands to the transport; \<open>None\<close> is a nil or out-of-range slice.\<close>

definition seg_bytes :: "bytes option \<Rightarrow> segment \<Rightarrow> bytes option" where
  "seg_bytes b s =
    (case seg_ext s of
       Some x \<Rightarrow> Some x
     | None \<Rightarrow>
        (case b of
           None \<Rightarrow> None
         | Some b \<Rightarrow> if seg_start s \<le> seg_end s \<and> seg_end s \<le> length b
                     then Some (go_slice (seg_start s) (seg_end s) b) else None))"

fun segs_bytes :: "bytes option \<Rightarrow> segment list \<Rightarrow> bytes option" where
  "segs_bytes b [] = Some []"
| "segs_bytes b (s # ss) =
    (case seg_bytes b s of
       None \<Rightarrow> None
     | Some x \<Rightarrow> (case segs_bytes b ss of None \<Rightarrow> None | Some y \<Rightarrow> Some (x @ y)))"

fun segs_coalesce :: "bytes option \<Rightarrow> segment list \<Rightarrow> bytes \<Rightarrow> bytes option" where
  "segs_coalesce b [] out = Some out"
| "segs_coalesce b (s # ss) out =
    (case seg_bytes b s of None \<Rightarrow> None | Some x \<Rightarrow> segs_coalesce b ss (out @ x))"

definition flush_bytes :: "bool \<Rightarrow> queue \<Rightarrow> bytes option" where
  "flush_bytes vectored q =
    (case q_flushSegments q of
       [s] \<Rightarrow> seg_bytes (q_flushing q) s
     | ss \<Rightarrow> if vectored then segs_bytes (q_flushing q) ss else segs_coalesce (q_flushing q) ss [])"

section \<open>The system\<close>

datatype writer_pc = Off | Top | Flushing | Flushed "go_error option"

text \<open>
  \<open>wire\<close> is what reached the transport, tagged with whether it came from the queue; \<open>log\<close> is
  the concatenation of every frame accepted by \<open>enqueue\<close>, \<open>accepted\<close> their number.
\<close>

record qsys =
  qs :: queue
  pc :: writer_pc
  wire :: "(bool \<times> bytes) list"
  log :: bytes
  accepted :: nat

definition frame_bytes :: "bytes \<Rightarrow> bytes \<Rightarrow> bytes option \<Rightarrow> bytes" where
  "frame_bytes header body ext = (case ext of Some x \<Rightarrow> x | None \<Rightarrow> header @ body)"

inductive qstep :: "bool \<Rightarrow> qsys \<Rightarrow> qsys \<Rightarrow> bool" for vectored where
  enq: "enqueue header body ext (qs s) = (Inr (n, spawn), q') \<Longrightarrow> (ext \<noteq> None \<Longrightarrow> header = [] \<and> body = []) \<Longrightarrow>
     qstep vectored s (s\<lparr>qs := q', pc := (if spawn then Top else pc s),
       log := log s @ frame_bytes header body ext, accepted := Suc (accepted s)\<rparr>)"
| bypass: "qstep vectored s (s\<lparr>wire := wire s @ [(False, b)]\<rparr>)"
| go_idle: "pc s = Top \<Longrightarrow> run_idle (qs s) \<Longrightarrow> qstep vectored s (s\<lparr>qs := run_stop (qs s), pc := Off\<rparr>)"
| hand_over: "pc s = Top \<Longrightarrow> \<not> run_idle (qs s) \<Longrightarrow> qstep vectored s (s\<lparr>qs := run_take (qs s), pc := Flushing\<rparr>)"
| flush_ok: "pc s = Flushing \<Longrightarrow> flush_bytes vectored (qs s) = Some b \<Longrightarrow>
     qstep vectored s (s\<lparr>wire := wire s @ [(True, b)], pc := Flushed None\<rparr>)"
| flush_fail: "pc s = Flushing \<Longrightarrow> flush_bytes vectored (qs s) = Some b \<Longrightarrow>
     qstep vectored s (s\<lparr>wire := wire s @ [(True, List.take k b)], pc := Flushed (Some e)\<rparr>)"
| finish: "pc s = Flushed e \<Longrightarrow>
     qstep vectored s (s\<lparr>qs := run_done e (qs s), pc := (if e = None then Top else Off)\<rparr>)"

inductive_cases qstepE: "qstep vectored s s'"

definition init_sys :: "int \<Rightarrow> qsys" where
  "init_sys limit = \<lparr>qs = NewQueue limit None, pc = Off, wire = [], log = [], accepted = 0\<rparr>"

inductive reachable :: "bool \<Rightarrow> int \<Rightarrow> qsys \<Rightarrow> bool" for vectored limit where
  init: "reachable vectored limit (init_sys limit)"
| step: "reachable vectored limit s \<Longrightarrow> qstep vectored s s' \<Longrightarrow> reachable vectored limit s'"

definition queue_wire :: "qsys \<Rightarrow> bytes" where
  "queue_wire s = concat (map snd (filter fst (wire s)))"

section \<open>Invariant\<close>

definition seg_ok :: "bytes option \<Rightarrow> segment \<Rightarrow> bool" where
  "seg_ok b s \<longleftrightarrow> seg_bytes b s \<noteq> None"

definition seg_val :: "bytes option \<Rightarrow> segment \<Rightarrow> bytes" where
  "seg_val b s = the (seg_bytes b s)"

lemma segs_bytes_val: "list_all (seg_ok b) ss \<Longrightarrow> segs_bytes b ss = Some (concat (map (seg_val b) ss))"
  by (induction ss) (auto simp: seg_ok_def seg_val_def)

lemma segs_coalesce_val: "list_all (seg_ok b) ss \<Longrightarrow> segs_coalesce b ss out = Some (out @ concat (map (seg_val b) ss))"
  by (induction ss arbitrary: out) (auto simp: seg_ok_def seg_val_def)

lemma flush_bytes_val:
  assumes "list_all (seg_ok (q_flushing q)) (q_flushSegments q)"
  shows "flush_bytes vectored q = Some (concat (map (seg_val (q_flushing q)) (q_flushSegments q)))"
  using assms segs_bytes_val [OF assms] segs_coalesce_val [OF assms, of "[]"]
  by (auto simp: flush_bytes_def seg_ok_def seg_val_def split: list.split)

definition waiting :: "queue \<Rightarrow> bytes" where
  "waiting q = concat (map (seg_val (q_cur q)) (q_segments q))"

definition in_flight :: "qsys \<Rightarrow> bytes" where
  "in_flight s = (if pc s = Flushing then concat (map (seg_val (q_flushing (qs s))) (q_flushSegments (qs s))) else [])"

definition in_flight_count :: "qsys \<Rightarrow> nat" where
  "in_flight_count s = (if pc s = Off \<or> pc s = Top then 0 else length (q_flushSegments (qs s)))"

definition broken :: "qsys \<Rightarrow> bool" where
  "broken s \<longleftrightarrow> q_err (qs s) \<noteq> None \<or> (\<exists>e. pc s = Flushed (Some e))"

definition qinv :: "qsys \<Rightarrow> bool" where
  "qinv s \<longleftrightarrow>
     list_all (seg_ok (q_cur (qs s))) (q_segments (qs s))
     \<and> (pc s = Flushing \<longrightarrow> list_all (seg_ok (q_flushing (qs s))) (q_flushSegments (qs s)))
     \<and> q_running (qs s) = (pc s \<noteq> Off)
     \<and> (q_err (qs s) \<noteq> None \<longrightarrow> pc s = Off \<and> q_segments (qs s) = [])
     \<and> (q_err (qs s) = None \<and> pc s = Off \<longrightarrow> q_segments (qs s) = [])
     \<and> q_size (qs s) = int (length (waiting (qs s)))
     \<and> (if broken s then \<exists>rest. queue_wire s @ rest = log s
        else queue_wire s @ in_flight s @ waiting (qs s) = log s
          \<and> (\<exists>w. q_written (qs s) = of_nat w \<and> q_enqueued (qs s) = of_nat (accepted s)
               \<and> w + in_flight_count s + length (q_segments (qs s)) = accepted s))"

lemma seg_bytes_mono:
  "seg_bytes (Some b) s = Some x \<Longrightarrow> seg_bytes (Some (b @ c)) s = Some x"
  by (auto simp: seg_bytes_def go_slice_def split: option.splits if_splits)

lemma seg_bytes_None: "seg_bytes None s = Some x \<Longrightarrow> seg_bytes b s = Some x"
  by (auto simp: seg_bytes_def split: option.splits)

lemma seg_grow:
  assumes "seg_ok c s" "c = None \<or> (\<exists>b d. c = Some b \<and> c' = Some (b @ d))"
  shows "seg_ok c' s \<and> seg_val c' s = seg_val c s"
proof -
  from assms(1) obtain x where x: "seg_bytes c s = Some x" by (auto simp: seg_ok_def)
  have "seg_bytes c' s = Some x"
    using assms(2) x seg_bytes_None [of s x c'] seg_bytes_mono [of _ s x] by auto
  with x show ?thesis by (simp add: seg_ok_def seg_val_def)
qed

lemma waiting_grow:
  assumes "list_all (seg_ok c) ss" "c = None \<or> (\<exists>b d. c = Some b \<and> c' = Some (b @ d))"
  shows "list_all (seg_ok c') ss \<and> map (seg_val c') ss = map (seg_val c) ss"
  using assms seg_grow [OF _ assms(2)] by (auto simp: list_all_iff)

text \<open>What one successful \<open>enqueue\<close> does to the queue.\<close>

lemma enqueue_ok:
  assumes e: "enqueue header body ext q = (Inr (n, spawn), q')" and h: "ext \<noteq> None \<Longrightarrow> header = [] \<and> body = []"
    and ok: "list_all (seg_ok (q_cur q)) (q_segments q)"
  shows "list_all (seg_ok (q_cur q')) (q_segments q')
    \<and> waiting q' = waiting q @ frame_bytes header body ext
    \<and> length (q_segments q') = Suc (length (q_segments q))
    \<and> q_size q' = q_size q + int (length (frame_bytes header body ext))
    \<and> q_err q = None \<and> q_err q' = None \<and> q_running q' \<and> spawn = (\<not> q_running q)
    \<and> q_enqueued q' = q_enqueued q + 1 \<and> q_written q' = q_written q
    \<and> q_flushing q' = q_flushing q \<and> q_flushSegments q' = q_flushSegments q"
proof (cases ext)
  case (Some x)
  then show ?thesis
    using assms
    by (auto simp: enqueue_def Let_def waiting_def frame_bytes_def seg_ok_def seg_val_def seg_bytes_def split: option.splits)
next
  case None
  define b where "b = (case q_cur q of None \<Rightarrow> [] | Some b \<Rightarrow> b)"
  let ?c = "Some (b @ header @ body)" and ?s = "\<lparr>seg_start = length b, seg_end = length (b @ header @ body), seg_ext = None\<rparr>"
  have g: "q_cur q = None \<or> (\<exists>b d. q_cur q = Some b \<and> ?c = Some (b @ d))"
    by (cases "q_cur q") (auto simp: b_def)
  note wg = waiting_grow [OF ok g]
  have cm: "concat (map (seg_val ?c) (q_segments q)) = concat (map (seg_val (q_cur q)) (q_segments q))"
    using conjunct2 [OF wg] by (rule arg_cong)
  have s: "seg_ok ?c ?s" "seg_val ?c ?s = header @ body"
    by (simp_all add: seg_ok_def seg_val_def seg_bytes_def go_slice_def)
  have q': "q_cur q' = ?c" "q_segments q' = q_segments q @ [?s]" "q_err q = None" "q_err q' = None" "q_running q'"
    "spawn = (\<not> q_running q)" "q_enqueued q' = q_enqueued q + 1" "q_written q' = q_written q"
    "q_flushing q' = q_flushing q" "q_flushSegments q' = q_flushSegments q"
    "q_size q' = q_size q + int (length (header @ body))"
    using e None by (auto simp: enqueue_def Let_def b_def split: option.splits)
  show ?thesis
    using wg cm s q' None by (simp add: waiting_def frame_bytes_def)
qed

lemma qinv_init: "qinv (init_sys limit)"
  by (simp add: qinv_def init_sys_def NewQueue_def zero_queue_def waiting_def in_flight_def in_flight_count_def
      broken_def queue_wire_def)

lemma qinv_step:
  assumes inv: "qinv s" and st: "qstep vectored s s'"
  shows "qinv s'"
  using st
proof cases
  case (enq header body ext n spawn q')
  have ok: "list_all (seg_ok (q_cur (qs s))) (q_segments (qs s))" using inv by (simp add: qinv_def)
  note eo = enqueue_ok [OF enq(2,3) ok]
  have off: "spawn \<Longrightarrow> pc s = Off" using inv eo by (auto simp: qinv_def)
  have s': "in_flight s' = in_flight s" "in_flight_count s' = in_flight_count s" "queue_wire s' = queue_wire s"
    "broken s' = broken s"
    using off eo by (auto simp: enq(1) in_flight_def in_flight_count_def queue_wire_def broken_def)
  show ?thesis
  proof (cases "broken s")
    case True
    then obtain rest where "queue_wire s @ rest = log s" using inv by (auto simp: qinv_def)
    then have "queue_wire s' @ rest @ frame_bytes header body ext = log s'"
      unfolding s'(3) by (simp add: enq(1) flip: append_assoc)
    then have "\<exists>rest. queue_wire s' @ rest = log s'" ..
    with True inv eo off s'(4) show ?thesis by (auto simp: qinv_def enq(1))
  next
    case False
    with inv eo off s' show ?thesis by (auto simp: qinv_def enq(1) simp flip: append_assoc)
  qed
next
  case (bypass b)
  with inv show ?thesis
    by (auto simp: qinv_def broken_def queue_wire_def in_flight_def in_flight_count_def)
next
  case go_idle
  with inv show ?thesis
    by (auto simp: qinv_def broken_def queue_wire_def in_flight_def in_flight_count_def run_idle_def run_stop_def waiting_def)
next
  case hand_over
  with inv show ?thesis
    by (auto simp: qinv_def broken_def queue_wire_def in_flight_def in_flight_count_def run_idle_def run_take_def waiting_def)
next
  case (flush_ok b)
  have ok: "list_all (seg_ok (q_flushing (qs s))) (q_flushSegments (qs s))" using inv flush_ok by (simp add: qinv_def)
  from flush_ok(3) flush_bytes_val [OF ok, of vectored]
  have "b = in_flight s" using flush_ok(2) by (simp add: in_flight_def)
  with inv flush_ok show ?thesis
    by (auto simp: qinv_def broken_def queue_wire_def in_flight_def in_flight_count_def)
next
  case (flush_fail b e k)
  have ok: "list_all (seg_ok (q_flushing (qs s))) (q_flushSegments (qs s))" using inv flush_fail by (simp add: qinv_def)
  from flush_fail(3) flush_bytes_val [OF ok, of vectored]
  have "b = in_flight s" using flush_fail(2) by (simp add: in_flight_def)
  then have "queue_wire s' @ drop k b @ waiting (qs s) = queue_wire s @ in_flight s @ waiting (qs s)"
    by (simp add: flush_fail(1) queue_wire_def)
  moreover have "queue_wire s @ in_flight s @ waiting (qs s) = log s"
    using inv flush_fail(2) by (auto simp: qinv_def broken_def)
  ultimately have "\<exists>rest. queue_wire s' @ rest = log s'" by (auto simp: flush_fail(1))
  with inv flush_fail(1,2) show ?thesis
    by (simp add: qinv_def broken_def)
next
  case (finish e)
  have count: "\<exists>v. of_nat w + of_nat l = (of_nat v :: u64) \<and> v + k = n" if "w + l + k = n" for w l k n
    using that by (intro exI [of _ "w + l"]) simp
  from finish inv show ?thesis
    by (cases e)
       (auto simp: qinv_def broken_def queue_wire_def in_flight_def in_flight_count_def run_done_def waiting_def Let_def
          list_all_iff; rule count; assumption)+
qed

lemma reachable_qinv: "reachable vectored limit s \<Longrightarrow> qinv s"
  by (induction rule: reachable.induct) (auto intro: qinv_init qinv_step)


text \<open>C8: Whatever producers, the writer goroutine and bypassing pings do, and in whatever order,
  the queue's bytes on the transport are at all times a prefix of the concatenation of the accepted
  frames in the order they were accepted: no frame is lost, duplicated, reordered or torn apart by another
  queued frame, also after a write error.\<close>

theorem queue_fifo:
  assumes "reachable vectored limit s"
  shows "\<exists>rest. queue_wire s @ rest = log s"
  using reachable_qinv [OF assms] by (auto simp: qinv_def split: if_splits)


text \<open>C28: The high-water mark: \<open>Pending\<close> is exactly the number of bytes queued and not yet
  taken by the writer, \<open>reserve\<close> refuses a message with \<open>ErrQueueFull\<close> exactly when the queue is nonempty and
  the message would push it past the limit, and after a write error every reservation and every enqueue
  fails with that error.\<close>

theorem queue_limit:
  assumes "reachable vectored limit s"
  shows "queue_Pending (qs s) = int (length (waiting (qs s)))
    \<and> (case q_err (qs s) of
         Some e \<Rightarrow> reserve n (qs s) = Some e \<and> fst (enqueue header body ext (qs s)) = Inl e
           \<and> queue_Wait (qs s) = Some (Some e)
       | None \<Rightarrow> reserve n (qs s) =
           (if waiting (qs s) \<noteq> [] \<and> int (length (waiting (qs s)) + n) > q_limit (qs s) then Some ErrQueueFull else None))"
  using reachable_qinv [OF assms]
  by (auto simp: qinv_def queue_Pending_def reserve_def enqueue_def queue_Wait_def waitLocked_def split: option.split)

text \<open>A run in which a copied frame and a prepared frame are queued, written and accounted for.\<close>

definition demo_sys :: qsys where
  "demo_sys =
    (let q0 = NewQueue 0 None; q1 = snd (enqueue [0x81, 1] [65] None q0); q2 = snd (enqueue [] [] (Some [0x82, 0]) q1);
         q3 = run_stop (run_done None (run_take q2))
     in \<lparr>qs = q3, pc = Off, wire = [(True, [0x81, 1, 65, 0x82, 0])], log = [0x81, 1, 65, 0x82, 0], accepted = 2\<rparr>)"

lemma demo_reachable: "reachable True 0 demo_sys"
proof -
  let ?q0 = "NewQueue 0 None"
  let ?q1 = "snd (enqueue [0x81, 1] [65] None ?q0)"
  let ?q2 = "snd (enqueue [] [] (Some [0x82, 0]) ?q1)"
  let ?l1 = "[0x81, 1, 65] :: bytes" and ?l2 = "[0x81, 1, 65, 0x82, 0] :: bytes"
  have r0: "reachable True 0 \<lparr>qs = ?q0, pc = Off, wire = [], log = [], accepted = 0\<rparr>"
    using reachable.init [of True 0] by (simp add: init_sys_def)
  have e1: "enqueue [0x81, 1] [65] None ?q0 = (Inr (1, True), ?q1)" by code_simp
  have r1: "reachable True 0 \<lparr>qs = ?q1, pc = Top, wire = [], log = ?l1, accepted = 1\<rparr>"
    using reachable.step [OF r0 qstep.enq, of "[0x81, 1]" "[65]" None 1 True ?q1] e1 by (simp add: frame_bytes_def)
  have e2: "enqueue [] [] (Some [0x82, 0]) ?q1 = (Inr (2, False), ?q2)" by code_simp
  have r2: "reachable True 0 \<lparr>qs = ?q2, pc = Top, wire = [], log = ?l2, accepted = 2\<rparr>"
    using reachable.step [OF r1 qstep.enq, of "[]" "[]" "Some [0x82, 0]" 2 False ?q2] e2
    by (simp add: frame_bytes_def numeral_2_eq_2)
  have n2: "\<not> run_idle ?q2" by code_simp
  have r3: "reachable True 0 \<lparr>qs = run_take ?q2, pc = Flushing, wire = [], log = ?l2, accepted = 2\<rparr>"
    using reachable.step [OF r2 qstep.hand_over] n2 by simp
  have f: "flush_bytes True (run_take ?q2) = Some ?l2" by code_simp
  have r4: "reachable True 0 \<lparr>qs = run_take ?q2, pc = Flushed None, wire = [(True, ?l2)], log = ?l2, accepted = 2\<rparr>"
    using reachable.step [OF r3 qstep.flush_ok, of ?l2] f by simp
  have r5: "reachable True 0 \<lparr>qs = run_done None (run_take ?q2), pc = Top, wire = [(True, ?l2)], log = ?l2, accepted = 2\<rparr>"
    using reachable.step [OF r4 qstep.finish, of None] by simp
  have i: "run_idle (run_done None (run_take ?q2))" by code_simp
  show ?thesis
    using reachable.step [OF r5 qstep.go_idle] i by (simp add: demo_sys_def Let_def)
qed

theorem queue_fifo_witness: "\<exists>rest. queue_wire demo_sys @ rest = [0x81, 1, 65, 0x82, 0]"
  using queue_fifo [OF demo_reachable] by (simp add: demo_sys_def Let_def)


theorem queue_limit_witness: "queue_Pending (qs demo_sys) = 0 \<and> reserve 5 (qs demo_sys) = None"
proof -
  have "q_err (qs demo_sys) = None" "waiting (qs demo_sys) = []" by code_simp+
  with queue_limit [OF demo_reachable, of 5 "[]" "[]" None] show ?thesis by simp
qed

end
