(* ===== verification/Go_Strings.thy ===== *)
theory Go_Strings
  imports Ews_Prelude
begin

text \<open>
  The string functions of the Go standard library that the handshake and the transport use, on
  byte strings: \<open>strings.Split\<close>, \<open>Cut\<close>, \<open>TrimSpace\<close>, \<open>Trim\<close>, \<open>EqualFold\<close>, \<open>ToLower\<close>,
  \<open>Join\<close>, \<open>strconv.Atoi\<close> and \<open>Itoa\<close>. A Go string is a list of \<^typ>\<open>char\<close> (256 values).
  Case folding of runes outside ASCII is Unicode data; it is the argument \<open>U\<close>, a record of the
  fold relation and the lower-case mapping, used only where a string has such runes.
\<close>

section \<open>Splitting and joining\<close>

fun split_on :: "char \<Rightarrow> string \<Rightarrow> string list" where
  "split_on c [] = [[]]"
| "split_on c (x # xs) =
    (if x = c then [] # split_on c xs
     else (case split_on c xs of [] \<Rightarrow> [[x]] | y # ys \<Rightarrow> (x # y) # ys))"

fun cut :: "char \<Rightarrow> string \<Rightarrow> string \<times> string \<times> bool" where
  "cut c [] = ([], [], False)"
| "cut c (x # xs) = (if x = c then ([], xs, True) else (case cut c xs of (a, b, f) \<Rightarrow> (x # a, b, f)))"

fun join :: "string \<Rightarrow> string list \<Rightarrow> string" where
  "join sep [] = []"
| "join sep [x] = x"
| "join sep (x # y # ys) = x @ sep @ join sep (y # ys)"

lemma split_on_nonempty [simp]: "split_on c s \<noteq> []"
  by (cases s) (auto split: list.split)

lemma split_on_plain: "c \<notin> set s \<Longrightarrow> split_on c s = [s]"
  by (induction s) auto

lemma split_on_append: "c \<notin> set s \<Longrightarrow> split_on c (s @ c # t) = s # split_on c t"
  by (induction s) auto

section \<open>White space\<close>

text \<open>The UTF-8 encodings of the runes \<open>unicode.IsSpace\<close> accepts.\<close>

definition space_seqs :: "nat list list" where
  "space_seqs =
    [[9], [10], [11], [12], [13], [32], [0xC2, 0x85], [0xC2, 0xA0], [0xE1, 0x9A, 0x80]]
    @ map (\<lambda>k. [0xE2, 0x80, k]) ([0x80..<0x8B] @ [0xA8, 0xA9, 0xAF])
    @ [[0xE2, 0x81, 0x9F], [0xE3, 0x80, 0x80]]"

fun strip_seq :: "nat list \<Rightarrow> string \<Rightarrow> string option" where
  "strip_seq [] s = Some s"
| "strip_seq (n # ns) [] = None"
| "strip_seq (n # ns) (x # xs) = (if of_char x = n then strip_seq ns xs else None)"

definition strip_any :: "nat list list \<Rightarrow> string \<Rightarrow> string option" where
  "strip_any seqs s = (case List.map_filter (\<lambda>q. strip_seq q s) seqs of [] \<Rightarrow> None | r # _ \<Rightarrow> Some r)"

lemma strip_seq_length: "strip_seq q s = Some r \<Longrightarrow> length s = length q + length r"
  by (induction q s rule: strip_seq.induct) (auto split: if_splits)

lemma strip_any_length:
  assumes "strip_any seqs s = Some r" "[] \<notin> set seqs"
  shows "length r < length s"
proof -
  from assms(1) have "r \<in> set (List.map_filter (\<lambda>q. strip_seq q s) seqs)"
    by (auto simp: strip_any_def split: list.splits)
  then obtain q where "q \<in> set seqs" "strip_seq q s = Some r"
    by (auto simp: List.map_filter_def)
  with strip_seq_length [of q s r] assms(2) show ?thesis by (cases q) auto
qed

lemma space_seqs_nonempty: "[] \<notin> set space_seqs" "[] \<notin> set (map rev space_seqs)"
  by (auto simp: space_seqs_def)

function trim_left_by :: "nat list list \<Rightarrow> string \<Rightarrow> string" where
  "trim_left_by seqs s =
    (if [] \<in> set seqs then s else case strip_any seqs s of None \<Rightarrow> s | Some r \<Rightarrow> trim_left_by seqs r)"
  by pat_completeness auto
termination
  by (relation "measure (\<lambda>(seqs, s). length s)") (auto dest: strip_any_length)

declare trim_left_by.simps [simp del]

definition TrimSpace :: "string \<Rightarrow> string" where
  "TrimSpace s =
     rev (trim_left_by (map rev space_seqs) (rev (trim_left_by space_seqs s)))"

definition trim_char :: "char \<Rightarrow> string \<Rightarrow> string" where
  "trim_char c s = rev (dropWhile (\<lambda>x. x = c) (rev (dropWhile (\<lambda>x. x = c) s)))"

text \<open>Trimming leaves a string alone that starts and ends with a visible ASCII character.\<close>

definition visible :: "char \<Rightarrow> bool" where
  "visible c \<longleftrightarrow> 33 \<le> (of_char c :: nat) \<and> (of_char c :: nat) < 127"

lemma strip_any_none:
  assumes "\<forall>q\<in>set seqs. \<exists>n ns. q = n # ns \<and> n \<noteq> of_char c"
  shows "strip_any seqs (c # s) = None"
proof -
  have "List.map_filter (\<lambda>q. strip_seq q (c # s)) seqs = []"
    using assms by (induction seqs) auto
  then show ?thesis by (simp add: strip_any_def)
qed

lemma space_seq_heads:
  assumes "visible c"
  shows "\<forall>q\<in>set space_seqs. \<exists>n ns. q = n # ns \<and> n \<noteq> of_char c"
    "\<forall>q\<in>set (map rev space_seqs). \<exists>n ns. q = n # ns \<and> n \<noteq> of_char c"
  using assms by (auto simp: space_seqs_def visible_def)

lemma trim_left_visible:
  assumes "visible c"
  shows "trim_left_by space_seqs (c # s) = c # s" "trim_left_by (map rev space_seqs) (c # s) = c # s"
  using strip_any_none [OF space_seq_heads(1) [OF assms]] strip_any_none [OF space_seq_heads(2) [OF assms]]
  by (simp_all add: trim_left_by.simps [of _ "c # s"])

lemma strip_any_Nil: "[] \<notin> set seqs \<Longrightarrow> strip_any seqs [] = None"
  by (metis strip_any_length length_greater_0_conv not_less0 list.size(3) not_None_eq)

lemma TrimSpace_Nil [simp]: "TrimSpace [] = []"
  by (simp add: TrimSpace_def trim_left_by.simps [of _ "[]"] strip_any_Nil space_seqs_nonempty)

lemma TrimSpace_visible:
  assumes "s \<noteq> []" "visible (hd s)" "visible (last s)"
  shows "TrimSpace s = s"
proof -
  obtain c r where s: "s = c # r" using assms(1) by (cases s) auto
  obtain d t where t: "rev s = d # t" using assms(1) by (cases "rev s") auto
  have "d = last s" using t assms(1) hd_rev [of s] by simp
  then have "trim_left_by (map rev space_seqs) (rev s) = rev s" unfolding t using assms(3) by (simp add: trim_left_visible(2))
  moreover have "trim_left_by space_seqs s = s" unfolding s using assms(2) s by (simp add: trim_left_visible(1))
  ultimately show ?thesis by (simp add: TrimSpace_def)
qed

lemma TrimSpace_blank [simp]: "TrimSpace (CHR '' '' # s) = TrimSpace s"
proof -
  have "strip_any space_seqs (CHR '' '' # s) = Some s"
    by (simp add: strip_any_def space_seqs_def List.map_filter_simps)
  then have "trim_left_by space_seqs (CHR '' '' # s) = trim_left_by space_seqs s"
    using space_seqs_nonempty(1) by (subst trim_left_by.simps) simp
  then show ?thesis by (simp add: TrimSpace_def)
qed

section \<open>Runes and case\<close>

record unicode =
  u_fold :: "nat \<Rightarrow> nat \<Rightarrow> bool"
  u_lower :: "nat \<Rightarrow> nat"

definition cont_byte :: "nat \<Rightarrow> bool" where "cont_byte b \<longleftrightarrow> 0x80 \<le> b \<and> b \<le> 0xBF"

text \<open>Decoding as a \<open>range\<close> loop does it: an invalid byte is U+FFFD of width one.\<close>

fun decode_rune :: "nat list \<Rightarrow> (nat \<times> nat list) option" where
  "decode_rune [] = None"
| "decode_rune (b # bs) = Some
    (if b < 0x80 then (b, bs)
     else if 0xC2 \<le> b \<and> b \<le> 0xDF then
       (case bs of c1 # r \<Rightarrow> if cont_byte c1 then ((b - 0xC0) * 64 + (c1 - 0x80), r) else (0xFFFD, bs) | _ \<Rightarrow> (0xFFFD, bs))
     else if 0xE0 \<le> b \<and> b \<le> 0xEF then
       (case bs of c1 # c2 # r \<Rightarrow>
          if (if b = 0xE0 then 0xA0 else 0x80) \<le> c1 \<and> c1 \<le> (if b = 0xED then 0x9F else 0xBF) \<and> cont_byte c2
          then ((b - 0xE0) * 4096 + (c1 - 0x80) * 64 + (c2 - 0x80), r) else (0xFFFD, bs)
        | _ \<Rightarrow> (0xFFFD, bs))
     else if 0xF0 \<le> b \<and> b \<le> 0xF4 then
       (case bs of c1 # c2 # c3 # r \<Rightarrow>
          if (if b = 0xF0 then 0x90 else 0x80) \<le> c1 \<and> c1 \<le> (if b = 0xF4 then 0x8F else 0xBF) \<and> cont_byte c2 \<and> cont_byte c3
          then ((b - 0xF0) * 262144 + (c1 - 0x80) * 4096 + (c2 - 0x80) * 64 + (c3 - 0x80), r) else (0xFFFD, bs)
        | _ \<Rightarrow> (0xFFFD, bs))
     else (0xFFFD, bs))"

lemma decode_rune_shorter: "decode_rune bs = Some (r, rest) \<Longrightarrow> length rest < length bs"
  by (cases bs) (auto split: if_splits list.splits)

function runes_of :: "nat list \<Rightarrow> nat list" where
  "runes_of bs = (case decode_rune bs of None \<Rightarrow> [] | Some (r, rest) \<Rightarrow> r # runes_of rest)"
  by pat_completeness auto
termination
  by (relation "measure length") (auto dest: decode_rune_shorter)

declare runes_of.simps [simp del]

definition encode_rune :: "nat \<Rightarrow> nat list" where
  "encode_rune c =
    (let c = (if c < 0xD800 \<or> 0xE000 \<le> c \<and> c < 0x110000 then c else 0xFFFD)
     in if c < 0x80 then [c]
        else if c < 0x800 then [0xC0 + c div 64, 0x80 + c mod 64]
        else if c < 0x10000 then [0xE0 + c div 4096, 0x80 + c div 64 mod 64, 0x80 + c mod 64]
        else [0xF0 + c div 262144, 0x80 + c div 4096 mod 64, 0x80 + c div 64 mod 64, 0x80 + c mod 64])"

definition str_runes :: "string \<Rightarrow> nat list" where
  "str_runes s = runes_of (map of_char s)"

definition ascii_lower_nat :: "nat \<Rightarrow> nat" where
  "ascii_lower_nat n = (if 65 \<le> n \<and> n \<le> 90 then n + 32 else n)"

definition is_ascii :: "string \<Rightarrow> bool" where
  "is_ascii s \<longleftrightarrow> list_all (\<lambda>c. (of_char c :: nat) < 128) s"

text \<open>
  Two runes in one simple-folding orbit. The orbits that reach into ASCII are those of letters, with
  \<open>K\<close> also holding U+212A and \<open>S\<close> also U+017F.
\<close>

definition rune_eq :: "unicode \<Rightarrow> nat \<Rightarrow> nat \<Rightarrow> bool" where
  "rune_eq U a b \<longleftrightarrow>
     a = b \<or>
     (if a < 128 \<and> b < 128 then ascii_lower_nat a = ascii_lower_nat b
      else if a < 128 then ascii_lower_nat a = 107 \<and> b = 0x212A \<or> ascii_lower_nat a = 115 \<and> b = 0x17F
      else if b < 128 then ascii_lower_nat b = 107 \<and> a = 0x212A \<or> ascii_lower_nat b = 115 \<and> a = 0x17F
      else u_fold U a b)"

definition EqualFold :: "unicode \<Rightarrow> string \<Rightarrow> string \<Rightarrow> bool" where
  "EqualFold U s t \<longleftrightarrow> list_all2 (rune_eq U) (str_runes s) (str_runes t)"

definition rune_lower :: "unicode \<Rightarrow> nat \<Rightarrow> nat" where
  "rune_lower U r = (if r < 128 then ascii_lower_nat r else u_lower U r)"

definition ToLower :: "unicode \<Rightarrow> string \<Rightarrow> string" where
  "ToLower U s =
    (if is_ascii s then map (\<lambda>c. char_of (ascii_lower_nat (of_char c))) s
     else map char_of (concat (map (encode_rune \<circ> rune_lower U) (str_runes s))))"

lemma EqualFold_refl [simp]: "EqualFold U s s"
  by (simp add: EqualFold_def list_all2_refl rune_eq_def)

definition lower_ascii :: "char \<Rightarrow> bool" where
  "lower_ascii c \<longleftrightarrow> (of_char c :: nat) < 128 \<and> \<not> (65 \<le> (of_char c :: nat) \<and> (of_char c :: nat) \<le> 90)"

lemma ToLower_lower:
  assumes "list_all lower_ascii s"
  shows "ToLower U s = s"
proof -
  have "is_ascii s" using assms by (auto simp: is_ascii_def lower_ascii_def list_all_iff)
  moreover have "map (\<lambda>c. char_of (ascii_lower_nat (of_char c))) s = s"
    using assms by (induction s) (auto simp: lower_ascii_def ascii_lower_nat_def)
  ultimately show ?thesis by (simp add: ToLower_def)
qed

section \<open>Numbers\<close>

definition digit_val :: "char \<Rightarrow> nat option" where
  "digit_val c = (let n = of_char c in if 48 \<le> n \<and> n \<le> 57 then Some (n - 48) else None)"

fun digits_val :: "nat \<Rightarrow> string \<Rightarrow> nat option" where
  "digits_val acc [] = Some acc"
| "digits_val acc (c # cs) = (case digit_val c of None \<Rightarrow> None | Some d \<Rightarrow> digits_val (10 * acc + d) cs)"

text \<open>\<open>strconv.Atoi\<close> on a 64-bit int; \<open>None\<close> is any error.\<close>

definition Atoi :: "string \<Rightarrow> int option" where
  "Atoi s =
    (let (neg, ds) = (case s of [] \<Rightarrow> (False, [])
                        | c # r \<Rightarrow> if c = CHR ''-'' then (True, r) else if c = CHR ''+'' then (False, r) else (False, s))
     in if ds = [] then None
        else case digits_val 0 ds of
               None \<Rightarrow> None
             | Some n \<Rightarrow> if neg then (if n \<le> 2 ^ 63 then Some (- int n) else None)
                         else (if n < 2 ^ 63 then Some (int n) else None))"

fun nat_digits :: "nat \<Rightarrow> string" where
  "nat_digits n = (if n < 10 then [char_of (48 + n)] else nat_digits (n div 10) @ [char_of (48 + n mod 10)])"

declare nat_digits.simps [simp del]

definition Itoa :: "int \<Rightarrow> string" where
  "Itoa n = (if n < 0 then CHR ''-'' # nat_digits (nat (- n)) else nat_digits (nat n))"

lemma cut_plain: "c \<notin> set s \<Longrightarrow> cut c s = (s, [], False)"
  by (induction s) auto

lemma cut_at: "c \<notin> set s \<Longrightarrow> cut c (s @ c # t) = (s, t, True)"
  by (induction s) auto

lemma trim_char_absent: "c \<notin> set s \<Longrightarrow> trim_char c s = s"
proof -
  assume c: "c \<notin> set s"
  have "dropWhile (\<lambda>x. x = c) t = t" if "c \<notin> set t" for t
    using that by (cases t) auto
  with c show ?thesis by (simp add: trim_char_def)
qed

lemma digit_char: "m < 10 \<Longrightarrow> (of_char c :: nat) < 48 \<or> (of_char c :: nat) > 57 \<Longrightarrow> char_of (48 + m :: nat) \<noteq> c"
  by (auto dest: arg_cong [where f = "of_char :: char \<Rightarrow> nat"])

lemma digits_val_nat: "digits_val acc (nat_digits n @ s) = digits_val (acc * 10 ^ length (nat_digits n) + n) s"
proof (induction n arbitrary: acc s rule: nat_digits.induct)
  case (1 n)
  have d: "digit_val (char_of (48 + m)) = Some m" if "m < 10" for m :: nat
    using that by (simp add: digit_val_def Let_def)
  show ?case
  proof (cases "n < 10")
    case True
    with d [of n] show ?thesis by (simp add: nat_digits.simps [of n] mult.commute)
  next
    case False
    have n: "nat_digits n = nat_digits (n div 10) @ [char_of (48 + n mod 10)]"
      using False by (subst nat_digits.simps) simp
    have "digits_val acc (nat_digits n @ s) = digits_val (acc * 10 ^ length (nat_digits (n div 10)) + n div 10) (char_of (48 + n mod 10) # s)"
      using 1 [OF False, of acc "char_of (48 + n mod 10) # s"] by (simp add: n)
    also have "\<dots> = digits_val (10 * (acc * 10 ^ length (nat_digits (n div 10)) + n div 10) + n mod 10) s"
      using d [of "n mod 10"] by simp
    also have "10 * (acc * 10 ^ length (nat_digits (n div 10)) + n div 10) + n mod 10 = acc * 10 ^ length (nat_digits n) + n"
      by (simp add: n algebra_simps)
    finally show ?thesis .
  qed
qed

text \<open>\<open>strconv.Atoi\<close> reads back what \<open>strconv.Itoa\<close> prints.\<close>

lemma Atoi_Itoa:
  assumes "0 \<le> n" "n < 2 ^ 63"
  shows "Atoi (Itoa n) = Some n"
proof -
  have tk: "nat_digits (nat n) \<noteq> []" by (subst nat_digits.simps) simp
  have hd: "\<exists>m<10. hd (nat_digits k) = char_of (48 + m :: nat)" for k :: nat
  proof (induction k rule: nat_digits.induct)
    case (1 k)
    show ?case
    proof (cases "k < 10")
      case True
      then show ?thesis by (subst nat_digits.simps) auto
    next
      case False
      moreover have "nat_digits (k div 10) \<noteq> []" by (subst nat_digits.simps) simp
      ultimately show ?thesis using 1 [OF False] by (subst nat_digits.simps) simp
    qed
  qed
  obtain c r where cr: "nat_digits (nat n) = c # r" using tk by (cases "nat_digits (nat n)") auto
  obtain m :: nat where m: "m < 10" "c = char_of (48 + m)" using hd [of "nat n"] cr by auto
  have c: "c \<noteq> CHR ''-''" "c \<noteq> CHR ''+''" using m by (simp_all add: digit_char)
  have "digits_val 0 (c # r) = Some (nat n)"
    using digits_val_nat [of 0 "nat n" "[]"] cr by simp
  moreover have "nat n < 2 ^ 63" using assms by (metis nat_less_iff nat_numeral_as_int of_nat_numeral of_nat_power)
  ultimately show ?thesis
    using assms c by (simp add: Itoa_def cr Atoi_def Let_def del: digits_val.simps)
qed

end
