(* ===== verification/Go_Crypto.thy ===== *)
theory Go_Crypto
  imports Ews_Prelude
begin

text \<open>
  What the handshake uses of \<^verbatim>\<open>encoding/base64\<close> (the padded standard alphabet) and
  \<^verbatim>\<open>crypto/sha1\<close>. Strings are lists of \<^typ>\<open>char\<close>, data are bytes.
\<close>

section \<open>base64.StdEncoding\<close>

definition b64_char :: "nat \<Rightarrow> char" where
  "b64_char n = char_of (if n < 26 then 65 + n else if n < 52 then 71 + n else if n < 62 then n - 4
                         else if n = 62 then 43 else (47 :: nat))"

definition b64_val :: "char \<Rightarrow> nat option" where
  "b64_val c = (let n = (of_char c :: nat)
     in if 65 \<le> n \<and> n \<le> 90 then Some (n - 65)
        else if 97 \<le> n \<and> n \<le> 122 then Some (n - 71)
        else if 48 \<le> n \<and> n \<le> 57 then Some (n + 4)
        else if n = 43 then Some 62 else if n = 47 then Some 63 else None)"

fun b64_encode :: "bytes \<Rightarrow> string" where
  "b64_encode [] = []"
| "b64_encode [a] =
    (let n = unat a in [b64_char (n div 4), b64_char (n mod 4 * 16), CHR ''='', CHR ''=''])"
| "b64_encode [a, b] =
    (let n = unat a; m = unat b
     in [b64_char (n div 4), b64_char (n mod 4 * 16 + m div 16), b64_char (m mod 16 * 4), CHR ''=''])"
| "b64_encode (a # b # c # rest) =
    (let n = unat a; m = unat b; l = unat c
     in [b64_char (n div 4), b64_char (n mod 4 * 16 + m div 16), b64_char (m mod 16 * 4 + l div 64), b64_char (l mod 64)]
        @ b64_encode rest)"

text \<open>Four characters at a time; padding only in the last group, and nothing after it.\<close>

fun b64_quads :: "string \<Rightarrow> bytes option" where
  "b64_quads [] = Some []"
| "b64_quads (w # x # y # z # rest) =
    (case (b64_val w, b64_val x) of
       (Some p, Some q) \<Rightarrow>
         (if y = CHR ''='' then
            (if z = CHR ''='' \<and> rest = [] then Some [of_nat (p * 4 + q div 16)] else None)
          else case b64_val y of
            None \<Rightarrow> None
          | Some r \<Rightarrow>
             (if z = CHR ''='' then
                (if rest = [] then Some [of_nat (p * 4 + q div 16), of_nat (q mod 16 * 16 + r div 4)] else None)
              else case b64_val z of
                None \<Rightarrow> None
              | Some s \<Rightarrow>
                 map_option (\<lambda>bs. [of_nat (p * 4 + q div 16), of_nat (q mod 16 * 16 + r div 4), of_nat (r mod 4 * 64 + s)] @ bs)
                   (b64_quads rest)))
     | _ \<Rightarrow> None)"
| "b64_quads _ = None"

text \<open>\<open>DecodeString\<close> skips carriage returns and line feeds.\<close>

definition b64_decode :: "string \<Rightarrow> bytes option" where
  "b64_decode s = b64_quads (filter (\<lambda>c. of_char c \<noteq> (10::nat) \<and> of_char c \<noteq> (13::nat)) s)"

lemma of_char_b64: "n < 64 \<Longrightarrow> (of_char (b64_char n) :: nat) =
    (if n < 26 then 65 + n else if n < 52 then 71 + n else if n < 62 then n - 4 else if n = 62 then 43 else 47)"
  by (simp add: b64_char_def)

lemma b64_char [simp]:
  assumes "n < 64"
  shows "b64_val (b64_char n) = Some n" "b64_char n \<noteq> CHR ''=''"
    "of_char (b64_char n) \<noteq> (10::nat)" "of_char (b64_char n) \<noteq> (13::nat)"
proof -
  show "b64_val (b64_char n) = Some n" using assms by (simp add: b64_val_def of_char_b64 Let_def) presburger
  have "(of_char (b64_char n) :: nat) \<noteq> 61" using assms by (simp add: of_char_b64) presburger
  then show "b64_char n \<noteq> CHR ''=''" by auto
  show "of_char (b64_char n) \<noteq> (10::nat)" using assms by (simp add: of_char_b64) presburger
  show "of_char (b64_char n) \<noteq> (13::nat)" using assms by (simp add: of_char_b64) presburger
qed

lemma byte_less: "unat (b :: byte) < 256"
  using unsigned_less [of b] by simp

lemma filter_encode:
  "filter (\<lambda>c. of_char c \<noteq> (10::nat) \<and> of_char c \<noteq> (13::nat)) (b64_encode bs) = b64_encode bs"
proof (induction bs rule: b64_encode.induct)
  case (2 a)
  then show ?case using byte_less [of a] by (simp add: Let_def)
next
  case (3 a b)
  then show ?case using byte_less [of a] byte_less [of b] by (simp add: Let_def)
next
  case (4 a b c rest)
  then show ?case using byte_less [of a] byte_less [of b] byte_less [of c] by (simp add: Let_def)
qed simp

lemma b64_quads_encode: "b64_quads (b64_encode bs) = Some bs"
proof (induction bs rule: b64_encode.induct)
  case (2 a)
  have "unat a div 4 * 4 + unat a mod 4 = unat a" by simp
  then show ?case using byte_less [of a] by (simp add: Let_def)
next
  case (3 a b)
  have "(unat a mod 4 * 16 + unat b div 16) div 16 = unat a mod 4" "(unat a mod 4 * 16 + unat b div 16) mod 16 = unat b div 16"
    using byte_less [of b] by simp_all
  then show ?case using byte_less [of a] byte_less [of b] by (simp add: Let_def)
next
  case (4 a b c rest)
  have "(unat a mod 4 * 16 + unat b div 16) div 16 = unat a mod 4" "(unat a mod 4 * 16 + unat b div 16) mod 16 = unat b div 16"
    "(unat b mod 16 * 4 + unat c div 64) div 4 = unat b mod 16" "(unat b mod 16 * 4 + unat c div 64) mod 4 = unat c div 64"
    using byte_less [of b] byte_less [of c] by simp_all
  then show ?case using 4 byte_less [of a] byte_less [of b] byte_less [of c] by (simp add: Let_def)
qed simp

lemma b64_decode_encode: "b64_decode (b64_encode bs) = Some bs"
  by (simp add: b64_decode_def filter_encode b64_quads_encode)

section \<open>crypto/sha1\<close>

definition rotl32 :: "nat \<Rightarrow> u32 \<Rightarrow> u32" where
  "rotl32 n w = push_bit n w OR drop_bit (32 - n) w"

definition sha1_pad :: "bytes \<Rightarrow> bytes" where
  "sha1_pad m = m @ [0x80] @ replicate ((119 - length m mod 64) mod 64) 0 @ be_put 8 (of_nat (8 * length m) :: u64)"

fun sha1_words :: "bytes \<Rightarrow> u32 list" where
  "sha1_words (a # b # c # d # rest) = be_get [a, b, c, d] # sha1_words rest"
| "sha1_words _ = []"

fun sha1_extend :: "nat \<Rightarrow> u32 list \<Rightarrow> u32 list" where
  "sha1_extend 0 w = w"
| "sha1_extend (Suc k) w =
    (let n = length w
     in sha1_extend k (w @ [rotl32 1 (w ! (n - 3) XOR w ! (n - 8) XOR w ! (n - 14) XOR w ! (n - 16))]))"

definition sha1_f :: "nat \<Rightarrow> u32 \<Rightarrow> u32 \<Rightarrow> u32 \<Rightarrow> u32 \<times> u32" where
  "sha1_f i b c d =
    (if i < 20 then ((b AND c) OR (NOT b AND d), 0x5A827999)
     else if i < 40 then (b XOR c XOR d, 0x6ED9EBA1)
     else if i < 60 then (((b OR c) AND d) OR (b AND c), 0x8F1BBCDC)
     else (b XOR c XOR d, 0xCA62C1D6))"

type_synonym sha1_state = "u32 \<times> u32 \<times> u32 \<times> u32 \<times> u32"

fun sha1_round :: "nat \<times> u32 \<Rightarrow> sha1_state \<Rightarrow> sha1_state" where
  "sha1_round (i, w) (a, b, c, d, e) =
    (let (f, k) = sha1_f i b c d in (rotl32 5 a + f + e + k + w, a, rotl32 30 b, c, d))"

fun sha1_block :: "sha1_state \<Rightarrow> bytes \<Rightarrow> sha1_state" where
  "sha1_block (h0, h1, h2, h3, h4) blk =
    (let ws = sha1_extend 64 (sha1_words blk);
         (a, b, c, d, e) = fold sha1_round (enumerate 0 ws) (h0, h1, h2, h3, h4)
     in (h0 + a, h1 + b, h2 + c, h3 + d, h4 + e))"

fun sha1_blocks :: "nat \<Rightarrow> bytes \<Rightarrow> sha1_state \<Rightarrow> sha1_state" where
  "sha1_blocks 0 m st = st"
| "sha1_blocks (Suc n) m st = sha1_blocks n (drop 64 m) (sha1_block st (take 64 m))"

definition sha1 :: "bytes \<Rightarrow> bytes" where
  "sha1 m =
    (let p = sha1_pad m;
         (a, b, c, d, e) = sha1_blocks (length p div 64) p (0x67452301, 0xEFCDAB89, 0x98BADCFE, 0x10325476, 0xC3D2E1F0)
     in concat (map (be_put 4) [a, b, c, d, e]))"

lemma length_sha1 [simp]: "length (sha1 m) = 20"
  by (simp add: sha1_def Let_def split_def)

end
