(* ===== verification/Handshake.thy ===== *)
theory Handshake
  imports Go_Strings Go_Crypto
begin

text \<open>
  The opening handshake, \<^verbatim>\<open>src/handshake\<close>: the request a client sends, what a server
  negotiates from it, and what the client accepts of the response. \<open>U\<close> is the Unicode data that
  case folding outside ASCII uses, \<open>rnd\<close> the 16 bytes \<open>rand.Read\<close> delivers for a key.
\<close>

section \<open>handshake.go\<close>

datatype handshake_error =
    ErrNotWebSocket
  | ErrBadVersion
  | ErrBadKey
  | ErrBadExtension
  | ErrBadAccept
  | ErrBadStatus
  | ErrBadProtocol
  | ErrInvalidOptions

definition Version :: string where "Version = ''13''"

record CompressOpts =
  Level :: int
  MinSize :: int
  ContextTakeover :: bool

record Options =
  opt_Compression :: "CompressOpts option"
  opt_Protocols :: "string list"

record Compression =
  cp_Level :: int
  cp_MinSize :: int
  SendContextTakeover :: bool
  ReceiveContextTakeover :: bool
  SendWindowBits :: int
  ReceiveWindowBits :: int

record Result =
  res_Compression :: "Compression option"
  res_Protocol :: string

record Request =
  rq_Method :: string
  rq_Upgrade :: string
  rq_Connection :: string
  rq_Version :: string
  rq_Key :: string
  rq_Extensions :: string
  rq_Protocols :: string

record Response =
  rp_Status :: int
  rp_Upgrade :: string
  rp_Connection :: string
  rp_Accept :: string
  rp_Extensions :: string
  rp_Protocol :: string

definition str_bytes :: "string \<Rightarrow> bytes" where
  "str_bytes s = map of_char s"

definition Accept :: "string \<Rightarrow> string" where
  "Accept key = b64_encode (sha1 (str_bytes key @ str_bytes ''258EAFA5-E914-47DA-95CA-C5AB0DC85B11''))"

definition NewKey :: "bytes \<Rightarrow> string" where
  "NewKey rnd = b64_encode rnd"

definition StatusCode :: "handshake_error \<Rightarrow> int" where
  "StatusCode err = (if err = ErrBadVersion then 426 else 400)"

definition validKey :: "string \<Rightarrow> bool" where
  "validKey key = (case b64_decode key of None \<Rightarrow> False | Some b \<Rightarrow> length b = 16)"

definition hasToken :: "unicode \<Rightarrow> string \<Rightarrow> string \<Rightarrow> bool" where
  "hasToken U header token = list_ex (\<lambda>t. EqualFold U (TrimSpace t) token) (split_on CHR '','' header)"

definition validOptions :: "Options \<Rightarrow> handshake_error option" where
  "validOptions opts =
    (case opt_Compression opts of
       None \<Rightarrow> None
     | Some c \<Rightarrow> if Level c < -2 \<or> Level c > 9 \<or> MinSize c < 0 then Some ErrInvalidOptions else None)"

section \<open>extension.go\<close>

definition deflateName :: string where "deflateName = ''permessage-deflate''"

type_synonym param = "string \<times> string"

record extension =
  ext_name :: string
  ext_params :: "param list"

fun parse_params :: "string list \<Rightarrow> (handshake_error + param list)" where
  "parse_params [] = Inr []"
| "parse_params (p # ps) =
    (let (name, value, _) = cut CHR ''='' (TrimSpace p);
         name = TrimSpace name;
         value = trim_char (CHR 0x22) (TrimSpace value)
     in if name = [] then Inl ErrBadExtension
        else case parse_params ps of Inl e \<Rightarrow> Inl e | Inr r \<Rightarrow> Inr ((name, value) # r))"

fun parse_offers :: "string list \<Rightarrow> (handshake_error + extension list)" where
  "parse_offers [] = Inr []"
| "parse_offers (offer # rest) =
    (let offer = TrimSpace offer
     in if offer = [] then parse_offers rest
        else
          (let parts = split_on CHR '';'' offer; name = TrimSpace (hd parts)
           in if name = [] then Inl ErrBadExtension
              else case parse_params (tl parts) of
                     Inl e \<Rightarrow> Inl e
                   | Inr params \<Rightarrow>
                       (case parse_offers rest of
                          Inl e \<Rightarrow> Inl e
                        | Inr out \<Rightarrow> Inr (\<lparr>ext_name = name, ext_params = params\<rparr> # out))))"

definition parseExtensions :: "string \<Rightarrow> (handshake_error + extension list)" where
  "parseExtensions header = parse_offers (split_on CHR '','' header)"

record deflateParams =
  serverNoContextTakeover :: bool
  clientNoContextTakeover :: bool
  serverMaxWindowBits :: int
  clientMaxWindowBits :: int

definition no_params :: deflateParams where
  "no_params = \<lparr>serverNoContextTakeover = False, clientNoContextTakeover = False,
     serverMaxWindowBits = 0, clientMaxWindowBits = 0\<rparr>"

definition windowBits :: "string \<Rightarrow> int option" where
  "windowBits value =
    (if value = [] then Some 0
     else case Atoi value of
            None \<Rightarrow> None
          | Some n \<Rightarrow> if n < 8 \<or> n > 15 then None else Some n)"

definition deflate_param :: "string \<Rightarrow> string \<Rightarrow> deflateParams \<Rightarrow> deflateParams option" where
  "deflate_param name value p =
    (if name = ''server_no_context_takeover'' then
       (if value \<noteq> [] then None else Some (p\<lparr>serverNoContextTakeover := True\<rparr>))
     else if name = ''client_no_context_takeover'' then
       (if value \<noteq> [] then None else Some (p\<lparr>clientNoContextTakeover := True\<rparr>))
     else if name = ''server_max_window_bits'' then
       (case windowBits value of
          None \<Rightarrow> None
        | Some bits \<Rightarrow> if bits = 0 then None else Some (p\<lparr>serverMaxWindowBits := bits\<rparr>))
     else if name = ''client_max_window_bits'' then
       (case windowBits value of
          None \<Rightarrow> None
        | Some bits \<Rightarrow> Some (p\<lparr>clientMaxWindowBits := (if bits = 0 then 15 else bits)\<rparr>))
     else None)"

fun parse_deflate_from :: "unicode \<Rightarrow> string list \<Rightarrow> param list \<Rightarrow> deflateParams \<Rightarrow> deflateParams option" where
  "parse_deflate_from U seen [] p = Some p"
| "parse_deflate_from U seen ((k, v) # kvs) p =
    (let name = ToLower U k
     in if List.member seen name then None
        else case deflate_param name v p of
               None \<Rightarrow> None
             | Some p \<Rightarrow> parse_deflate_from U (name # seen) kvs p)"

definition parseDeflate :: "unicode \<Rightarrow> extension \<Rightarrow> deflateParams option" where
  "parseDeflate U e = parse_deflate_from U [] (ext_params e) no_params"

definition formatDeflate :: "Compression \<Rightarrow> string" where
  "formatDeflate c =
    deflateName
    @ (if \<not> SendContextTakeover c then ''; server_no_context_takeover'' else [])
    @ (if \<not> ReceiveContextTakeover c then ''; client_no_context_takeover'' else [])
    @ (if SendWindowBits c \<noteq> 0 \<and> SendWindowBits c \<noteq> 15
       then ''; server_max_window_bits='' @ Itoa (SendWindowBits c) else [])"

section \<open>server.go\<close>

fun selectProtocol :: "unicode \<Rightarrow> string \<Rightarrow> string list \<Rightarrow> string" where
  "selectProtocol U requested [] = []"
| "selectProtocol U requested (s # ss) = (if hasToken U requested s then s else selectProtocol U requested ss)"

definition server_compression :: "CompressOpts \<Rightarrow> deflateParams \<Rightarrow> Compression" where
  "server_compression c p =
    \<lparr>cp_Level = Level c, cp_MinSize = MinSize c,
     SendContextTakeover = (ContextTakeover c \<and> \<not> serverNoContextTakeover p),
     ReceiveContextTakeover = (ContextTakeover c \<and> \<not> clientNoContextTakeover p),
     SendWindowBits = serverMaxWindowBits p, ReceiveWindowBits = clientMaxWindowBits p\<rparr>"

text \<open>The first offer of permessage-deflate that can be honoured.\<close>

fun choose_offer :: "unicode \<Rightarrow> CompressOpts \<Rightarrow> extension list \<Rightarrow> Compression option" where
  "choose_offer U c [] = None"
| "choose_offer U c (e # es) =
    (if \<not> EqualFold U (ext_name e) deflateName then choose_offer U c es
     else case parseDeflate U e of
            None \<Rightarrow> choose_offer U c es
          | Some p \<Rightarrow> Some (server_compression c p))"

definition Negotiate :: "unicode \<Rightarrow> Request \<Rightarrow> Options \<Rightarrow> (handshake_error + Response \<times> Result)" where
  "Negotiate U req opts =
    (case validOptions opts of
       Some err \<Rightarrow> Inl err
     | None \<Rightarrow>
        if rq_Method req \<noteq> ''GET'' \<or> \<not> hasToken U (rq_Upgrade req) ''websocket''
           \<or> \<not> hasToken U (rq_Connection req) ''Upgrade'' then Inl ErrNotWebSocket
        else if rq_Version req \<noteq> Version then Inl ErrBadVersion
        else if \<not> validKey (rq_Key req) then Inl ErrBadKey
        else
          (let exts = (case opt_Compression opts of
                         None \<Rightarrow> Inr None
                       | Some c \<Rightarrow> (case parseExtensions (rq_Extensions req) of
                                      Inl err \<Rightarrow> Inl err
                                    | Inr es \<Rightarrow> Inr (choose_offer U c es)))
           in case exts of
                Inl err \<Rightarrow> Inl err
              | Inr co \<Rightarrow>
                  (let proto = selectProtocol U (rq_Protocols req) (opt_Protocols opts)
                   in Inr (\<lparr>rp_Status = 101, rp_Upgrade = ''websocket'', rp_Connection = ''Upgrade'',
                            rp_Accept = Accept (rq_Key req),
                            rp_Extensions = (case co of None \<Rightarrow> [] | Some c \<Rightarrow> formatDeflate c),
                            rp_Protocol = proto\<rparr>,
                           \<lparr>res_Compression = co, res_Protocol = proto\<rparr>))))"

section \<open>client.go\<close>

definition NewRequest :: "bytes \<Rightarrow> Options \<Rightarrow> (handshake_error + Request)" where
  "NewRequest rnd opts =
    (case validOptions opts of
       Some err \<Rightarrow> Inl err
     | None \<Rightarrow> Inr
        \<lparr>rq_Method = ''GET'', rq_Upgrade = ''websocket'', rq_Connection = ''Upgrade'', rq_Version = Version,
         rq_Key = NewKey rnd,
         rq_Extensions =
           (case opt_Compression opts of
              None \<Rightarrow> []
            | Some c \<Rightarrow> deflateName @ ''; client_max_window_bits''
                @ (if \<not> ContextTakeover c then ''; client_no_context_takeover; server_no_context_takeover'' else [])),
         rq_Protocols = join '', '' (opt_Protocols opts)\<rparr>)"

definition client_compression :: "CompressOpts \<Rightarrow> deflateParams \<Rightarrow> Compression" where
  "client_compression c p =
    \<lparr>cp_Level = Level c, cp_MinSize = MinSize c,
     SendContextTakeover = (ContextTakeover c \<and> \<not> clientNoContextTakeover p),
     ReceiveContextTakeover = (ContextTakeover c \<and> \<not> serverNoContextTakeover p),
     SendWindowBits = clientMaxWindowBits p, ReceiveWindowBits = serverMaxWindowBits p\<rparr>"

definition confirm_extensions :: "unicode \<Rightarrow> Response \<Rightarrow> Options \<Rightarrow> (handshake_error + Result)" where
  "confirm_extensions U resp opts =
    (case parseExtensions (rp_Extensions resp) of
       Inl err \<Rightarrow> Inl err
     | Inr [] \<Rightarrow> Inr \<lparr>res_Compression = None, res_Protocol = rp_Protocol resp\<rparr>
     | Inr [e] \<Rightarrow>
         (case opt_Compression opts of
            None \<Rightarrow> Inl ErrBadExtension
          | Some c \<Rightarrow>
              if \<not> EqualFold U (ext_name e) deflateName then Inl ErrBadExtension
              else (case parseDeflate U e of
                      None \<Rightarrow> Inl ErrBadExtension
                    | Some p \<Rightarrow> Inr \<lparr>res_Compression = Some (client_compression c p), res_Protocol = rp_Protocol resp\<rparr>))
     | Inr _ \<Rightarrow> Inl ErrBadExtension)"

definition Confirm :: "unicode \<Rightarrow> Request \<Rightarrow> Response \<Rightarrow> Options \<Rightarrow> (handshake_error + Result)" where
  "Confirm U req resp opts =
    (if rp_Status resp \<noteq> 101 then Inl ErrBadStatus
     else if \<not> hasToken U (rp_Upgrade resp) ''websocket'' \<or> \<not> hasToken U (rp_Connection resp) ''Upgrade''
     then Inl ErrNotWebSocket
     else if rp_Accept resp \<noteq> Accept (rq_Key req) then Inl ErrBadAccept
     else if rp_Protocol resp \<noteq> [] \<and> \<not> hasToken U (rq_Protocols req) (rp_Protocol resp) then Inl ErrBadProtocol
     else confirm_extensions U resp opts)"

end
