(* ===== verification/Handshake_Props.thy ===== *)
theory Handshake_Props
  imports Handshake
begin

text \<open>
  What the handshake guarantees: header values built from tokens are read back, two endpoints
  of this library agree for every configuration, a server's response always describes what the
  server does, and the subprotocol is the server's first preference.
\<close>

section \<open>Reading back a header value built from tokens\<close>

definition is_token :: "string \<Rightarrow> bool" where
  "is_token s \<longleftrightarrow> s \<noteq> [] \<and> list_all (\<lambda>c. visible c \<and> c \<noteq> CHR '','' \<and> c \<noteq> CHR '';'' \<and> c \<noteq> CHR ''='' \<and> c \<noteq> CHR 0x22) s"

definition format_param :: "param \<Rightarrow> string" where
  "format_param kv = '' '' @ fst kv @ (if snd kv = [] then [] else ''='' @ snd kv)"

definition format_ext :: "string \<Rightarrow> param list \<Rightarrow> string" where
  "format_ext name kvs = name @ concat (map (\<lambda>kv. '';'' @ format_param kv) kvs)"

definition param_ok :: "param \<Rightarrow> bool" where
  "param_ok kv \<longleftrightarrow> is_token (fst kv) \<and> (snd kv = [] \<or> is_token (snd kv))"

lemma token_trim: "is_token s \<Longrightarrow> TrimSpace s = s"
  by (rule TrimSpace_visible) (auto simp: is_token_def list_all_iff)

lemma token_no: "is_token s \<Longrightarrow> CHR '','' \<notin> set s \<and> CHR '';'' \<notin> set s \<and> CHR ''='' \<notin> set s \<and> CHR 0x22 \<notin> set s"
  by (auto simp: is_token_def list_all_iff)

lemma token_last: "is_token s \<Longrightarrow> visible (last s)" and token_hd: "is_token s \<Longrightarrow> visible (hd s)"
  by (auto simp: is_token_def list_all_iff)

lemma param_trim:
  assumes "param_ok kv"
  shows "TrimSpace (format_param kv) = fst kv @ (if snd kv = [] then [] else ''='' @ snd kv)"
proof -
  have "TrimSpace (format_param kv) = TrimSpace (fst kv @ (if snd kv = [] then [] else ''='' @ snd kv))"
    by (simp add: format_param_def)
  also have "\<dots> = fst kv @ (if snd kv = [] then [] else ''='' @ snd kv)"
    using assms token_hd token_last by (intro TrimSpace_visible) (auto simp: param_ok_def is_token_def)
  finally show ?thesis .
qed

lemma parse_params_format: "list_all param_ok kvs \<Longrightarrow> parse_params (map format_param kvs) = Inr kvs"
proof (induction kvs)
  case (Cons kv kvs)
  then have ok: "param_ok kv" by simp
  obtain k v where kv: "kv = (k, v)" by (cases kv)
  have k: "is_token k" and v: "v = [] \<or> is_token v" using ok by (auto simp: kv param_ok_def)
  have "\<exists>f. cut CHR ''='' (TrimSpace (format_param kv)) = (k, v, f)"
    using param_trim [OF ok] token_no [OF k] by (auto simp: kv cut_plain cut_at)
  moreover have "trim_char (CHR 0x22) (TrimSpace v) = v"
    using v token_no [of v] by (auto simp: trim_char_absent token_trim)
  moreover have "TrimSpace k = k" "k \<noteq> []" using k token_trim by (auto simp: is_token_def)
  ultimately show ?case using Cons by (auto simp: kv Let_def)
qed simp

lemma format_param_no:
  assumes "param_ok kv"
  shows "CHR '','' \<notin> set (format_param kv)" "CHR '';'' \<notin> set (format_param kv)"
  using assms token_no by (auto simp: param_ok_def format_param_def)

lemma split_ext:
  "is_token name \<Longrightarrow> list_all param_ok kvs \<Longrightarrow> split_on CHR '';'' (format_ext name kvs) = name # map format_param kvs"
proof -
  have "split_on CHR '';'' (s @ concat (map (\<lambda>kv. '';'' @ format_param kv) kvs)) = s # map format_param kvs"
    if "CHR '';'' \<notin> set s" "list_all param_ok kvs" for s
    using that format_param_no(2)
    by (induction kvs arbitrary: s) (auto simp: split_on_plain split_on_append)
  then show "is_token name \<Longrightarrow> list_all param_ok kvs \<Longrightarrow> split_on CHR '';'' (format_ext name kvs) = name # map format_param kvs"
    using token_no by (auto simp: format_ext_def)
qed

lemma format_ext_last: "is_token name \<Longrightarrow> list_all param_ok kvs \<Longrightarrow> visible (last (format_ext name kvs))"
proof (induction kvs rule: rev_induct)
  case Nil
  then show ?case by (simp add: format_ext_def token_last)
next
  case (snoc kv kvs)
  then have "param_ok kv" by simp
  then have "visible (last (format_param kv))" "format_param kv \<noteq> []"
    using token_last by (auto simp: format_param_def param_ok_def is_token_def)
  then show ?case by (simp add: format_ext_def)
qed

text \<open>Parsing what was formatted from tokens gives the same extension.\<close>

lemma parse_format_ext:
  assumes "is_token name" "list_all param_ok kvs"
  shows "parseExtensions (format_ext name kvs) = Inr [\<lparr>ext_name = name, ext_params = kvs\<rparr>]"
proof -
  let ?s = "format_ext name kvs"
  have "CHR '','' \<notin> set ?s"
    using assms token_no format_param_no(1) by (auto simp: format_ext_def list_all_iff)
  then have s: "split_on CHR '','' ?s = [?s]" by (rule split_on_plain)
  have "?s \<noteq> []" "visible (hd ?s)"
    using assms(1) token_hd by (auto simp: format_ext_def is_token_def)
  then have t: "TrimSpace ?s = ?s" "?s \<noteq> []" using format_ext_last [OF assms] by (auto intro: TrimSpace_visible)
  show ?thesis
    using assms s t split_ext [OF assms] parse_params_format [OF assms(2)] token_trim [OF assms(1)]
    by (simp add: parseExtensions_def Let_def is_token_def)
qed

lemma deflateName_token: "is_token deflateName"
  by (simp add: is_token_def deflateName_def visible_def)

definition flag :: "bool \<Rightarrow> string \<Rightarrow> param list" where
  "flag b name = (if b then [(name, [])] else [])"

definition response_params :: "Compression \<Rightarrow> param list" where
  "response_params c = flag (\<not> SendContextTakeover c) ''server_no_context_takeover''
     @ flag (\<not> ReceiveContextTakeover c) ''client_no_context_takeover''
     @ (if SendWindowBits c \<noteq> 0 \<and> SendWindowBits c \<noteq> 15 then [(''server_max_window_bits'', Itoa (SendWindowBits c))] else [])"

lemma param_tokens:
  "is_token ''server_no_context_takeover''" "is_token ''client_no_context_takeover''" "is_token ''server_max_window_bits''"
  "is_token ''client_max_window_bits''"
  by (simp_all add: is_token_def visible_def)

lemma nat_digits_visible: "n < 2 ^ 63 \<Longrightarrow> is_token (nat_digits n)"
proof (induction n rule: nat_digits.induct)
  case (1 n)
  have d: "is_token [char_of (48 + m)]" if "m < 10" for m :: nat
  proof -
    have "(of_char (char_of (48 + m)) :: nat) = 48 + m" using that by simp
    with that show ?thesis by (simp add: is_token_def visible_def digit_char)
  qed
  show ?case
  proof (cases "n < 10")
    case True
    with d [of n] show ?thesis by (subst nat_digits.simps) simp
  next
    case False
    with 1 have "is_token (nat_digits (n div 10))" by simp
    with d [of "n mod 10"] False show ?thesis by (subst nat_digits.simps) (simp add: is_token_def)
  qed
qed

section \<open>The two headers\<close>

lemma nat_digits_nonempty [simp]: "nat_digits n \<noteq> []"
  by (subst nat_digits.simps) simp

lemma Itoa_nonempty [simp]: "Itoa n \<noteq> []"
  by (simp add: Itoa_def)

lemma formatDeflate_ext: "formatDeflate c = format_ext deflateName (response_params c)"
  by (auto simp: formatDeflate_def format_ext_def response_params_def flag_def format_param_def)

definition bits_ok :: "int \<Rightarrow> bool" where
  "bits_ok b \<longleftrightarrow> b = 0 \<or> 8 \<le> b \<and> b \<le> 15"

lemma Itoa_token: "0 \<le> n \<Longrightarrow> n < 2 ^ 63 \<Longrightarrow> is_token (Itoa n)"
  using nat_digits_visible [of "nat n"] by (simp add: Itoa_def nat_less_iff)

lemma response_params_ok: "bits_ok (SendWindowBits c) \<Longrightarrow> list_all param_ok (response_params c)"
  by (auto simp: response_params_def flag_def param_ok_def param_tokens bits_ok_def intro: Itoa_token)

lemma names_lower:
  "list_all lower_ascii ''server_no_context_takeover''" "list_all lower_ascii ''client_no_context_takeover''"
  "list_all lower_ascii ''server_max_window_bits''" "list_all lower_ascii ''client_max_window_bits''"
  by (simp_all add: lower_ascii_def)

lemmas names_ToLower = names_lower [THEN ToLower_lower]

lemma windowBits_Itoa: "8 \<le> b \<Longrightarrow> b \<le> 15 \<Longrightarrow> windowBits (Itoa b) = Some b"
  using Atoi_Itoa [of b] by (simp add: windowBits_def)

lemma parse_response_params:
  assumes "bits_ok (SendWindowBits c)"
  shows "parseDeflate U \<lparr>ext_name = deflateName, ext_params = response_params c\<rparr> =
    Some \<lparr>serverNoContextTakeover = (\<not> SendContextTakeover c), clientNoContextTakeover = (\<not> ReceiveContextTakeover c),
      serverMaxWindowBits = (if SendWindowBits c = 15 then 0 else SendWindowBits c), clientMaxWindowBits = 0\<rparr>"
proof (cases "SendWindowBits c = 0 \<or> SendWindowBits c = 15")
  case True
  then show ?thesis
    by (auto simp: parseDeflate_def response_params_def flag_def names_ToLower deflate_param_def no_params_def Let_def)
next
  case False
  with assms have "windowBits (Itoa (SendWindowBits c)) = Some (SendWindowBits c)"
    by (auto simp: bits_ok_def windowBits_Itoa)
  with False show ?thesis
    by (auto simp: parseDeflate_def response_params_def flag_def names_ToLower deflate_param_def no_params_def Let_def)
qed

definition request_params :: "CompressOpts \<Rightarrow> param list" where
  "request_params c = [(''client_max_window_bits'', [])]
     @ flag (\<not> ContextTakeover c) ''client_no_context_takeover'' @ flag (\<not> ContextTakeover c) ''server_no_context_takeover''"

lemma request_ext:
  "deflateName @ ''; client_max_window_bits''
     @ (if \<not> ContextTakeover c then ''; client_no_context_takeover; server_no_context_takeover'' else [])
   = format_ext deflateName (request_params c)"
  by (simp add: format_ext_def request_params_def flag_def format_param_def)

lemma NewRequest_eq:
  "validOptions opts = None \<Longrightarrow> NewRequest rnd opts = Inr
     \<lparr>rq_Method = ''GET'', rq_Upgrade = ''websocket'', rq_Connection = ''Upgrade'', rq_Version = Version,
      rq_Key = NewKey rnd,
      rq_Extensions = (case opt_Compression opts of None \<Rightarrow> [] | Some c \<Rightarrow> format_ext deflateName (request_params c)),
      rq_Protocols = join '', '' (opt_Protocols opts)\<rparr>"
  by (simp only: NewRequest_def request_ext option.case)

lemma parse_request_params:
  "parseDeflate U \<lparr>ext_name = deflateName, ext_params = request_params c\<rparr> =
    Some \<lparr>serverNoContextTakeover = (\<not> ContextTakeover c), clientNoContextTakeover = (\<not> ContextTakeover c),
      serverMaxWindowBits = 0, clientMaxWindowBits = 15\<rparr>"
  by (auto simp: parseDeflate_def request_params_def flag_def names_ToLower deflate_param_def no_params_def Let_def windowBits_def)

lemma parse_response:
  "bits_ok (SendWindowBits c) \<Longrightarrow>
     parseExtensions (formatDeflate c) = Inr [\<lparr>ext_name = deflateName, ext_params = response_params c\<rparr>]"
  unfolding formatDeflate_ext by (intro parse_format_ext deflateName_token response_params_ok)

lemma parse_request:
  "parseExtensions (format_ext deflateName (request_params c)) = Inr [\<lparr>ext_name = deflateName, ext_params = request_params c\<rparr>]"
  by (intro parse_format_ext deflateName_token) (simp add: request_params_def flag_def param_ok_def param_tokens)

lemma parse_empty: "parseExtensions [] = Inr []"
  by (simp add: parseExtensions_def)

lemma hasToken_self: "is_token s \<Longrightarrow> hasToken U s s"
  using token_no [of s] by (simp add: hasToken_def split_on_plain token_trim)

lemma header_tokens: "is_token ''websocket''" "is_token ''Upgrade''"
  by (simp_all add: is_token_def visible_def)

lemma validKey_NewKey: "length rnd = 16 \<Longrightarrow> validKey (NewKey rnd)"
  by (simp add: validKey_def NewKey_def b64_decode_encode)

section \<open>What an accepted offer may contain\<close>

lemma deflate_param_bits:
  "deflate_param name v p = Some p' \<Longrightarrow> bits_ok (serverMaxWindowBits p) \<Longrightarrow> bits_ok (clientMaxWindowBits p) \<Longrightarrow>
     bits_ok (serverMaxWindowBits p') \<and> bits_ok (clientMaxWindowBits p')"
  by (auto simp: deflate_param_def windowBits_def bits_ok_def split: if_splits option.splits)

lemma parse_deflate_bits:
  "parse_deflate_from U seen kvs p = Some p' \<Longrightarrow> bits_ok (serverMaxWindowBits p) \<Longrightarrow> bits_ok (clientMaxWindowBits p) \<Longrightarrow>
     bits_ok (serverMaxWindowBits p') \<and> bits_ok (clientMaxWindowBits p')"
  by (induction U seen kvs p rule: parse_deflate_from.induct)
     (auto simp: Let_def split: if_splits option.splits dest: deflate_param_bits)

lemma parseDeflate_bits: "parseDeflate U e = Some p \<Longrightarrow> bits_ok (serverMaxWindowBits p) \<and> bits_ok (clientMaxWindowBits p)"
  unfolding parseDeflate_def by (erule parse_deflate_bits) (simp_all add: no_params_def bits_ok_def)

lemma choose_offer_ok:
  "choose_offer U c es = Some co \<Longrightarrow>
     \<exists>e\<in>set es. \<exists>p. EqualFold U (ext_name e) deflateName \<and> parseDeflate U e = Some p \<and> co = server_compression c p"
  by (induction es) (auto split: if_splits option.splits)

lemma selectProtocol_offered: "selectProtocol U r ss = [] \<or> (selectProtocol U r ss \<in> set ss \<and> hasToken U r (selectProtocol U r ss))"
  by (induction ss) auto

lemma Negotiate_ok:
  assumes "Negotiate U req sopts = Inr (resp, sres)"
  shows "rp_Status resp = 101" "rp_Upgrade resp = ''websocket''" "rp_Connection resp = ''Upgrade''"
    "rp_Accept resp = Accept (rq_Key req)" "rp_Protocol resp = res_Protocol sres"
    "res_Protocol sres = selectProtocol U (rq_Protocols req) (opt_Protocols sopts)"
    "rp_Extensions resp = (case res_Compression sres of None \<Rightarrow> [] | Some c \<Rightarrow> formatDeflate c)"
    "case opt_Compression sopts of
       None \<Rightarrow> res_Compression sres = None
     | Some c \<Rightarrow> \<exists>es. parseExtensions (rq_Extensions req) = Inr es \<and> res_Compression sres = choose_offer U c es"
  using assms
  by (auto simp: Negotiate_def Let_def split: option.splits if_splits sum.splits)

lemma Negotiate_bits:
  assumes "Negotiate U req sopts = Inr (resp, sres)" "res_Compression sres = Some c"
  shows "bits_ok (SendWindowBits c) \<and> bits_ok (ReceiveWindowBits c)"
proof -
  obtain co es where "choose_offer U co es = Some c"
    using Negotiate_ok(8) [OF assms(1)] assms(2) by (cases "opt_Compression sopts") auto
  then obtain e p where "parseDeflate U e = Some p" "c = server_compression co p"
    using choose_offer_ok by blast
  with parseDeflate_bits show ?thesis by (auto simp: server_compression_def)
qed

definition full_bits :: "int \<Rightarrow> int" where
  "full_bits b = (if b = 0 then 15 else b)"

text \<open>C6: Two endpoints of this library always agree. For every pair of valid configurations the
  client's request is accepted by the server and the server's response by the client; both select the same
  subprotocol; compression is on exactly when both configured it; each direction uses
  context takeover exactly when both allow it, and the two ends name the same directions; and the window a sender compresses with is
  never larger than the one its peer keeps for decoding.\<close>

theorem handshake_agreement:
  assumes "length rnd = 16" "validOptions copts = None" "validOptions sopts = None"
  shows "\<exists>req resp sres cres. NewRequest rnd copts = Inr req
    \<and> Negotiate U req sopts = Inr (resp, sres) \<and> Confirm U req resp copts = Inr cres
    \<and> res_Protocol cres = res_Protocol sres
    \<and> (case (opt_Compression copts, opt_Compression sopts) of
         (Some cc, Some sc) \<Rightarrow>
            (\<exists>c s. res_Compression cres = Some c \<and> res_Compression sres = Some s
               \<and> SendContextTakeover c = (ContextTakeover cc \<and> ContextTakeover sc)
               \<and> ReceiveContextTakeover s = SendContextTakeover c
               \<and> SendContextTakeover s = (ContextTakeover cc \<and> ContextTakeover sc)
               \<and> ReceiveContextTakeover c = SendContextTakeover s
               \<and> full_bits (SendWindowBits c) \<le> full_bits (ReceiveWindowBits s)
               \<and> full_bits (SendWindowBits s) \<le> full_bits (ReceiveWindowBits c)
               \<and> (cp_Level c, cp_MinSize c) = (Level cc, MinSize cc) \<and> (cp_Level s, cp_MinSize s) = (Level sc, MinSize sc))
       | _ \<Rightarrow> res_Compression cres = None \<and> res_Compression sres = None)"
proof -
  obtain req where req: "NewRequest rnd copts = Inr req" using assms(2) by (simp add: NewRequest_eq)
  then have rq: "rq_Method req = ''GET''" "rq_Upgrade req = ''websocket''" "rq_Connection req = ''Upgrade''"
    "rq_Version req = Version" "validKey (rq_Key req)"
    "rq_Extensions req = (case opt_Compression copts of None \<Rightarrow> [] | Some c \<Rightarrow> format_ext deflateName (request_params c))"
    using assms(1,2) by (auto simp: NewRequest_eq validKey_NewKey)
  define pc where "pc = (\<lambda>c :: CompressOpts. \<lparr>serverNoContextTakeover = (\<not> ContextTakeover c), clientNoContextTakeover = (\<not> ContextTakeover c),
      serverMaxWindowBits = 0, clientMaxWindowBits = 15\<rparr>)"
  define co where "co = (case (opt_Compression copts, opt_Compression sopts) of
      (Some cc, Some sc) \<Rightarrow> Some (server_compression sc (pc cc)) | _ \<Rightarrow> None)"
  have "\<exists>resp sres. Negotiate U req sopts = Inr (resp, sres) \<and> res_Compression sres = co"
    using rq assms(3) hasToken_self [OF header_tokens(1), of U] hasToken_self [OF header_tokens(2), of U]
    by (auto simp: Negotiate_def co_def pc_def Let_def parse_empty parse_request parse_request_params split: option.splits)
  then obtain resp sres where n: "Negotiate U req sopts = Inr (resp, sres)" and co: "res_Compression sres = co" by blast
  note ok = Negotiate_ok(1-7) [OF n]
  have proto: "\<not> (rp_Protocol resp \<noteq> [] \<and> \<not> hasToken U (rq_Protocols req) (rp_Protocol resp))"
    using selectProtocol_offered [of U "rq_Protocols req" "opt_Protocols sopts"] ok(5,6) by auto
  have cf: "Confirm U req resp copts = confirm_extensions U resp copts"
    using ok(1-4) proto hasToken_self [OF header_tokens(1), of U] hasToken_self [OF header_tokens(2), of U]
    by (auto simp: Confirm_def)
  show ?thesis
  proof (cases co)
    case None
    then have "Confirm U req resp copts = Inr \<lparr>res_Compression = None, res_Protocol = rp_Protocol resp\<rparr>"
      using ok(7) co by (simp add: cf confirm_extensions_def parse_empty)
    moreover have "opt_Compression copts = None \<or> opt_Compression sopts = None"
      using None by (auto simp: co_def split: option.splits)
    ultimately show ?thesis using req n ok(5) co None by (auto split: option.split)
  next
    case (Some c)
    then obtain cc sc where o: "opt_Compression copts = Some cc" "opt_Compression sopts = Some sc"
      and c: "c = server_compression sc (pc cc)" by (auto simp: co_def split: option.splits)
    have b: "bits_ok (SendWindowBits c)" by (simp add: c server_compression_def pc_def bits_ok_def)
    have "Confirm U req resp copts = Inr \<lparr>res_Compression = Some (client_compression cc
        \<lparr>serverNoContextTakeover = (\<not> SendContextTakeover c), clientNoContextTakeover = (\<not> ReceiveContextTakeover c),
         serverMaxWindowBits = (if SendWindowBits c = 15 then 0 else SendWindowBits c), clientMaxWindowBits = 0\<rparr>),
        res_Protocol = rp_Protocol resp\<rparr>"
      using ok(7) co Some o parse_response [OF b] parse_response_params [OF b, of U] by (simp add: cf confirm_extensions_def)
    then show ?thesis
      using req n ok(5) co Some o
      by (auto simp: client_compression_def c server_compression_def pc_def full_bits_def)
  qed
qed

text \<open>Unicode data of a program that sees ASCII only, for concrete runs.\<close>

definition ascii_unicode :: unicode where
  "ascii_unicode = \<lparr>u_fold = (\<lambda>a b. a = b), u_lower = (\<lambda>r. r)\<rparr>"

theorem handshake_agreement_witness:
  "\<exists>req resp sres cres.
     NewRequest (replicate 16 7) \<lparr>opt_Compression = Some \<lparr>Level = 1, MinSize = 0, ContextTakeover = True\<rparr>, opt_Protocols = [''chat'']\<rparr> = Inr req
     \<and> Negotiate ascii_unicode req \<lparr>opt_Compression = Some \<lparr>Level = 9, MinSize = 1, ContextTakeover = True\<rparr>, opt_Protocols = []\<rparr> = Inr (resp, sres)
     \<and> Confirm ascii_unicode req resp \<lparr>opt_Compression = Some \<lparr>Level = 1, MinSize = 0, ContextTakeover = True\<rparr>, opt_Protocols = [''chat'']\<rparr> = Inr cres
     \<and> map_option SendContextTakeover (res_Compression cres) = Some True"
proof -
  let ?c = "\<lparr>opt_Compression = Some \<lparr>Level = 1, MinSize = 0, ContextTakeover = True\<rparr>, opt_Protocols = [''chat'']\<rparr>"
  let ?s = "\<lparr>opt_Compression = Some \<lparr>Level = 9, MinSize = 1, ContextTakeover = True\<rparr>, opt_Protocols = []\<rparr>"
  have v: "length (replicate 16 (7 :: byte)) = 16" "validOptions ?c = None" "validOptions ?s = None"
    by (simp_all add: validOptions_def)
  from handshake_agreement [OF v, of ascii_unicode] show ?thesis by fastforce
qed



section \<open>Subprotocols\<close>

lemma split_join:
  "ps \<noteq> [] \<Longrightarrow> list_all is_token ps \<Longrightarrow>
     split_on CHR '','' (join '', '' ps) = hd ps # map (\<lambda>p. CHR '' '' # p) (tl ps)"
proof (induction ps rule: induct_list012)
  case (3 x y zs)
  then have x: "CHR '','' \<notin> set x" using token_no by auto
  have y: "CHR '','' \<notin> set y" using 3 token_no by auto
  have sp: "split_on CHR '','' (CHR '' '' # t) = (CHR '' '' # hd (split_on CHR '','' t)) # tl (split_on CHR '','' t)" for t
    by (cases "split_on CHR '','' t") auto
  have "split_on CHR '','' (join '', '' (y # zs)) = y # map (\<lambda>p. CHR '' '' # p) zs" using 3 by simp
  with x show ?case by (simp add: split_on_append sp)
qed (use token_no in \<open>auto simp: split_on_plain\<close>)

lemma hasToken_join:
  assumes "list_all is_token ps" "s \<noteq> []"
  shows "hasToken U (join '', '' ps) s \<longleftrightarrow> (\<exists>p\<in>set ps. EqualFold U p s)"
proof (cases "ps = []")
  case True
  obtain c r where s: "s = c # r" using assms(2) by (cases s) auto
  have "\<not> EqualFold U [] s"
    by (auto simp: s EqualFold_def str_runes_def runes_of.simps [of "[]"] runes_of.simps [of "_ # _"] split: prod.split)
  with True show ?thesis by (simp add: hasToken_def)
next
  case False
  then have t: "\<And>p. p \<in> set ps \<Longrightarrow> TrimSpace p = p" using assms(1) token_trim by (auto simp: list_all_iff)
  have "ps = hd ps # tl ps" using False by simp
  then have "set ps = insert (hd ps) (set (tl ps))" by (metis list.simps(15))
  with t split_join [OF False assms(1)] show ?thesis
    by (auto simp: hasToken_def list_ex_iff)
qed

text \<open>C32: The server picks its own most preferred subprotocol among those the client listed, comparing
  case-insensitively, and none when they have none in common: for client and server lists of
  tokens the result is the first server entry that some client entry folds to.\<close>

theorem protocol_by_server_preference:
  assumes "list_all is_token cps" "list_all (\<lambda>s. s \<noteq> []) sps"
  shows "selectProtocol U (join '', '' cps) sps =
    (case List.find (\<lambda>s. \<exists>p\<in>set cps. EqualFold U p s) sps of None \<Rightarrow> [] | Some s \<Rightarrow> s)"
  using assms(2)
proof (induction sps)
  case (Cons s sps)
  then show ?case using hasToken_join [OF assms(1), of s U] by simp
qed simp

theorem protocol_by_server_preference_witness:
  "selectProtocol ascii_unicode (join '', '' [''a'', ''b'']) [''b''] = ''b''"
  using protocol_by_server_preference [of "[''a'', ''b'']" "[''b'']" ascii_unicode]
  by (simp add: is_token_def visible_def)

end
