(* ===== verification/Broadcast.thy ===== *)
theory Broadcast
  imports Compressor Queue Handshake_Props "HOL-Library.Monad_Syntax"
begin

text \<open>
  Messages encoded once for many connections (\<^verbatim>\<open>src/ws/prepared.go\<close>), and the pools the
  compressors come from (first half of \<^verbatim>\<open>src/ws/conn_compress.go\<close>). The pools are shared by all
  connections and are explicit state; which pooled compressor \<open>sync.Pool\<close> hands out, if
  any, is the argument \<open>pick\<close>. A run-time panic (nil dereference, index out of range) is
  \<open>None\<close>.
\<close>

section \<open>Compressor pools\<close>

text \<open>A slice expression out of range panics; every other error of a compressor is handed on.\<close>

definition unless_panic :: "(deflate_error + 'a) \<times> 'b \<Rightarrow> ((deflate_error + 'a) \<times> 'b) option" where
  "unless_panic r = (if fst r = Inl SlicePanic then None else Some r)"

datatype pool_id = LevelPool nat | WindowPool nat

type_synonym 'w comp_pools = "pool_id \<Rightarrow> 'w compressor list"

definition compressorPool :: "Compression \<Rightarrow> pool_id option" where
  "compressorPool cfg =
    (let bits = SendWindowBits cfg
     in if bits \<noteq> 0 \<and> bits \<noteq> 15
        then (if 0 \<le> bits - 8 \<and> bits - 8 < 7 then Some (WindowPool (nat (bits - 8))) else None)
        else (if 0 \<le> cp_Level cfg + 2 \<and> cp_Level cfg + 2 < 12 then Some (LevelPool (nat (cp_Level cfg + 2))) else None))"

text \<open>\<open>None\<close> is the nil pointer a failed constructor leaves.\<close>

definition newCompressor :: "'w flate_writer \<Rightarrow> Compression \<Rightarrow> 'w compressor option" where
  "newCompressor F cfg =
    (let bits = SendWindowBits cfg
     in if bits \<noteq> 0 \<and> bits \<noteq> 15
        then (case NewCompressorWindow F bits of Inl _ \<Rightarrow> None | Inr c \<Rightarrow> Some c)
        else (case NewCompressor F (cp_Level cfg) of Inl _ \<Rightarrow> None | Inr c \<Rightarrow> Some c))"

definition pool_take :: "nat option \<Rightarrow> pool_id \<Rightarrow> 'w comp_pools \<Rightarrow> 'w compressor option \<times> 'w comp_pools" where
  "pool_take pick i ps =
    (case pick of
       Some k \<Rightarrow> if k < length (ps i) then (Some (ps i ! k), ps(i := take k (ps i) @ drop (Suc k) (ps i))) else (None, ps)
     | None \<Rightarrow> (None, ps))"

definition getCompressor ::
    "'w flate_writer \<Rightarrow> nat option \<Rightarrow> Compression \<Rightarrow> 'w comp_pools \<Rightarrow> ('w compressor option \<times> 'w comp_pools) option" where
  "getCompressor F pick cfg ps =
    do {
      i \<leftarrow> compressorPool cfg;
      Some (case pool_take pick i ps of
              (Some c, ps') \<Rightarrow> (Some c, ps')
            | (None, ps') \<Rightarrow> (newCompressor F cfg, ps'))
    }"

definition putCompressor ::
    "'w flate_writer \<Rightarrow> Compression \<Rightarrow> 'w compressor \<Rightarrow> 'w comp_pools \<Rightarrow> 'w comp_pools option" where
  "putCompressor F cfg c ps =
    do {
      i \<leftarrow> compressorPool cfg;
      Some (ps(i := comp_Reset F c # ps i))
    }"

section \<open>prepared.go\<close>

type_synonym compressKey = "int \<times> int"

record Prepared =
  pr_op :: opcode
  pr_frame :: bytes
  pr_payload :: bytes
  pr_variants :: "(compressKey \<times> bytes) list"

definition Prepare :: "(nat \<Rightarrow> nat \<Rightarrow> nat) \<Rightarrow> opcode \<Rightarrow> bytes \<Rightarrow> go_error + Prepared" where
  "Prepare gc op payload =
    (if op \<noteq> Text \<and> op \<noteq> Binary then Inl ErrProtocol
     else case Encode gc True op payload None zero_encoder of
            (Some e, _) \<Rightarrow> Inl (CodecError e)
          | (None, enc) \<Rightarrow>
              (let header = HeaderBytes enc; frame = header @ payload
               in Inr \<lparr>pr_op = op, pr_frame = frame, pr_payload = drop (length header) frame, pr_variants = []\<rparr>))"

definition PrepareAppend ::
    "(nat \<Rightarrow> nat \<Rightarrow> nat) \<Rightarrow> opcode \<Rightarrow> (bytes \<Rightarrow> go_error + bytes) \<Rightarrow> go_error + Prepared" where
  "PrepareAppend gc op fill =
    (if op \<noteq> Text \<and> op \<noteq> Binary then Inl ErrProtocol
     else case fill (replicate MaxHeaderSize 0) of
            Inl e \<Rightarrow> Inl e
          | Inr buf \<Rightarrow>
             (if length buf < MaxHeaderSize then Inl ErrProtocol
              else
                (let payload = drop MaxHeaderSize buf
                 in case Encode gc True op payload None zero_encoder of
                      (Some e, _) \<Rightarrow> Inl (CodecError e)
                    | (None, enc) \<Rightarrow>
                       (let header = HeaderBytes enc;
                            start = MaxHeaderSize - length header;
                            buf = put_at start header buf;
                            frame = drop start buf
                        in Inr \<lparr>pr_op = op, pr_frame = frame, pr_payload = drop (length header) frame, pr_variants = []\<rparr>))))"

definition compressedFor ::
    "'w flate_writer \<Rightarrow> (nat \<Rightarrow> nat \<Rightarrow> nat) \<Rightarrow> nat option \<Rightarrow> Compression \<Rightarrow> Prepared \<Rightarrow> 'w comp_pools
     \<Rightarrow> (bytes \<times> Prepared \<times> 'w comp_pools) option" where
  "compressedFor F gc pick cfg p ps =
    (let key = (cp_Level cfg, SendWindowBits cfg)
     in case map_of (pr_variants p) key of
          Some frame \<Rightarrow> Some (frame, p, ps)
        | None \<Rightarrow>
           do {
             (cp, ps) \<leftarrow> getCompressor F pick cfg ps;
             cp \<leftarrow> cp;
             (r, _, cp) \<leftarrow> unless_panic (Compress F gc (pr_payload p) None cp);
             (let frame = (case r of
                             Inl _ \<Rightarrow> pr_frame p
                           | Inr compressed \<Rightarrow>
                               (case EncodeCompressed gc True (pr_op p) compressed None zero_encoder of
                                  (Some _, _) \<Rightarrow> pr_frame p
                                | (None, enc) \<Rightarrow> HeaderBytes enc @ compressed))
              in do {
                ps \<leftarrow> putCompressor F cfg cp ps;
                Some (frame, p\<lparr>pr_variants := pr_variants p @ [(key, frame)]\<rparr>, ps)
              })
           })"

end
