(* ===== verification/ConnWrite.thy ===== *)
theory ConnWrite
  imports Broadcast
begin

text \<open>
  The write side of a connection: \<^verbatim>\<open>src/ws/conn_write.go\<close>, the send half of
  \<^verbatim>\<open>conn_compress.go\<close>, \<open>WritePrepared\<close> of \<^verbatim>\<open>prepared.go\<close> and \<open>Send\<close>/\<open>SendPrepared\<close> of
  \<^verbatim>\<open>queue.go\<close>. Each definition is the region a call runs under the connection's write lock.

  What the environment decides is one record: the encoder library, the growth of slices, the
  random bytes and the pooled compressor of each draw (numbered by \<open>w_tick\<close>), and what waiting for a
  queued frame returns. A call that panics is \<open>None\<close>.
\<close>

section \<open>The transport\<close>

text \<open>
  The bytes the peer gets, and the failures to come: a write that fails has delivered some
  prefix of its bytes.
\<close>

record net =
  n_out :: bytes
  n_script :: "(nat \<times> go_error) option list"

definition net_write :: "bytes \<Rightarrow> net \<Rightarrow> go_error option \<times> net" where
  "net_write b n =
    (case n_script n of
       Some (k, e) # r \<Rightarrow> (Some e, n\<lparr>n_out := n_out n @ take k b, n_script := r\<rparr>)
     | None # r \<Rightarrow> (None, n\<lparr>n_out := n_out n @ b, n_script := r\<rparr>)
     | [] \<Rightarrow> (None, n\<lparr>n_out := n_out n @ b\<rparr>))"

section \<open>State\<close>

record 'w env =
  e_flate :: "'w flate_writer"
  e_gc :: "nat \<Rightarrow> nat \<Rightarrow> nat"
  e_rand :: "nat \<Rightarrow> bytes"
  e_pick :: "nat \<Rightarrow> nat option"
  e_wait :: "u64 \<Rightarrow> go_error option"

record 'w compressorContext =
  cc_config :: "Compression option"
  cc_minSize :: int
  cc_shared :: bool
  cc_window :: window_ref
  cc_attached :: "'w compressor option"
  cc_scratch :: bytes
  cc_pending :: "Prepared list"
  cc_pendingBytes :: int

record fragmentState =
  fr_op :: opcode
  fr_first :: bool
  fr_compressed :: bool
  fr_held :: bool

record 'w wconn =
  w_role :: Role
  w_vectored :: bool
  w_fragmentSize :: int
  w_tx :: sender
  w_queue :: "queue option"
  w_comp :: "'w compressorContext"
  w_frag :: fragmentState
  w_net :: net
  w_pools :: "'w comp_pools"
  w_tick :: nat

text \<open>The three results of a send: the queue's sequence number to wait for, if any, and the error.\<close>

type_synonym send_result = "u64 option \<times> go_error option"

definition sync_result :: "'w env \<Rightarrow> send_result \<Rightarrow> go_error option" where
  "sync_result E r =
    (if snd r \<noteq> None then snd r else case fst r of None \<Rightarrow> None | Some seq \<Rightarrow> e_wait E seq)"

section \<open>conn\_write.go: the transport\<close>

definition coalesceLimit :: nat where "coalesceLimit = 16 * 1024"

definition conn_write :: "bytes \<Rightarrow> bytes \<Rightarrow> 'w wconn \<Rightarrow> go_error option \<times> 'w wconn" where
  "conn_write header body c =
    (let (err, n) =
       (if length body = 0 then net_write header (w_net c)
        else if w_vectored c then net_write (header @ body) (w_net c)
        else if length body \<le> coalesceLimit then net_write (header @ body) (w_net c)
        else case net_write header (w_net c) of
               (Some e, n) \<Rightarrow> (Some e, n)
             | (None, n) \<Rightarrow> net_write body n)
     in (err, c\<lparr>w_net := n\<rparr>))"

definition sendFrame :: "bytes \<Rightarrow> bytes \<Rightarrow> 'w wconn \<Rightarrow> send_result \<times> 'w wconn" where
  "sendFrame header body c =
    (case w_queue c of
       Some q \<Rightarrow>
         (case enqueue header body None q of
            (Inl e, q) \<Rightarrow> ((Some 0, Some e), c\<lparr>w_queue := Some q\<rparr>)
          | (Inr (seq, _), q) \<Rightarrow> ((Some seq, None), c\<lparr>w_queue := Some q\<rparr>))
     | None \<Rightarrow> (let (err, c) = conn_write header body c in ((None, err), c)))"

section \<open>conn\_compress.go: the send side\<close>

definition pendingHistory :: nat where "pendingHistory = 8"

fun add_all :: "(nat \<Rightarrow> nat \<Rightarrow> nat) \<Rightarrow> bytes list \<Rightarrow> window_ref \<Rightarrow> window_ref option" where
  "add_all gc [] w = Some w"
| "add_all gc (p # ps) w =
    (case w of
       None \<Rightarrow> if length p = 0 then add_all gc ps w else None
     | Some (a, win) \<Rightarrow>
        (case Add gc p win of None \<Rightarrow> None | Some win' \<Rightarrow> add_all gc ps (Some (a, win'))))"

definition applyPending :: "'w env \<Rightarrow> 'w compressorContext \<Rightarrow> 'w compressorContext option" where
  "applyPending E cc =
    do {
      w \<leftarrow> add_all (e_gc E) (map pr_payload (cc_pending cc)) (cc_window cc);
      Some (cc\<lparr>cc_window := w, cc_pending := [], cc_pendingBytes := 0\<rparr>)
    }"

definition dropPending :: "'w compressorContext \<Rightarrow> 'w compressorContext" where
  "dropPending cc = cc\<lparr>cc_pending := [], cc_pendingBytes := 0\<rparr>"

definition dropOldestPending :: "'w compressorContext \<Rightarrow> 'w compressorContext" where
  "dropOldestPending cc =
     cc\<lparr>cc_pendingBytes := cc_pendingBytes cc - int (length (pr_payload (hd (cc_pending cc)))),
        cc_pending := tl (cc_pending cc)\<rparr>"

text \<open>The loop of \<open>notePrepared\<close>, bounded by the number of pending entries.\<close>

fun drop_covered :: "nat \<Rightarrow> int \<Rightarrow> int \<Rightarrow> 'w compressorContext \<Rightarrow> 'w compressorContext" where
  "drop_covered 0 n sz cc = cc"
| "drop_covered (Suc k) n sz cc =
    (if cc_pending cc \<noteq> [] \<and> cc_pendingBytes cc - int (length (pr_payload (hd (cc_pending cc)))) + n \<ge> sz
     then drop_covered k n sz (dropOldestPending cc) else cc)"

definition notePrepared :: "'w env \<Rightarrow> Prepared \<Rightarrow> 'w compressorContext \<Rightarrow> 'w compressorContext option" where
  "notePrepared E p cc =
    (case cc_window cc of
       None \<Rightarrow> None
     | Some (_, win) \<Rightarrow>
        (let sz = int (Size win); n = int (length (pr_payload p))
         in do {
              cc \<leftarrow>
                (if n \<ge> sz then Some (dropPending cc)
                 else
                   (let cc = drop_covered (length (cc_pending cc)) n sz cc
                    in if length (cc_pending cc) = pendingHistory then applyPending E cc else Some cc));
              if length (cc_pending cc) \<ge> pendingHistory then None
              else Some (cc\<lparr>cc_pending := cc_pending cc @ [p], cc_pendingBytes := cc_pendingBytes cc + n\<rparr>)
            }))"

text \<open>The compressor for the next message, and whether the caller returns it to the pool.\<close>

definition compressorFor :: "'w env \<Rightarrow> 'w wconn \<Rightarrow> ('w compressor option \<times> bool \<times> 'w wconn) option" where
  "compressorFor E c =
    (case cc_attached (w_comp c) of
       Some cmpr \<Rightarrow> Some (Some cmpr, False, c)
     | None \<Rightarrow>
        do {
          cfg \<leftarrow> cc_config (w_comp c);
          (cmpr, ps) \<leftarrow> getCompressor (e_flate E) (e_pick E (w_tick c)) cfg (w_pools c);
          (let c = c\<lparr>w_pools := ps, w_tick := Suc (w_tick c)\<rparr>
           in if cc_window (w_comp c) = None \<or> cc_shared (w_comp c) then Some (cmpr, True, c)
              else Some (cmpr, False, c\<lparr>w_comp := (w_comp c)\<lparr>cc_attached := cmpr\<rparr>\<rparr>))
        })"

definition put_back :: "'w env \<Rightarrow> 'w compressor \<Rightarrow> 'w wconn \<Rightarrow> 'w wconn option" where
  "put_back E cmpr c =
    do {
      cfg \<leftarrow> cc_config (w_comp c);
      ps \<leftarrow> putCompressor (e_flate E) cfg cmpr (w_pools c);
      Some (c\<lparr>w_pools := ps\<rparr>)
    }"

definition releaseCompressor :: "'w env \<Rightarrow> 'w wconn \<Rightarrow> 'w wconn option" where
  "releaseCompressor E c =
    (case cc_attached (w_comp c) of
       None \<Rightarrow> Some c
     | Some cmpr \<Rightarrow>
        do {
          c \<leftarrow> put_back E cmpr c;
          Some (c\<lparr>w_comp := (w_comp c)\<lparr>cc_attached := None\<rparr>\<rparr>)
        })"

section \<open>conn\_write.go: messages\<close>

text \<open>One call of the sender, with the key bytes of this draw.\<close>

definition with_tx ::
    "'w env \<Rightarrow> ((nat \<Rightarrow> nat \<Rightarrow> nat) \<Rightarrow> bytes \<Rightarrow> sender \<Rightarrow> frame_result \<times> sender) \<Rightarrow> 'w wconn \<Rightarrow> frame_result \<times> 'w wconn" where
  "with_tx E f c =
    (let (r, tx) = f (e_gc E) (e_rand E (w_tick c)) (w_tx c)
     in (r, c\<lparr>w_tx := tx, w_tick := Suc (w_tick c)\<rparr>))"

definition hand_on :: "deflate_error \<Rightarrow> go_error" where
  "hand_on e = (case e of FlateError n \<Rightarrow> IOError n | _ \<Rightarrow> IOError 0)"

definition encodeData :: "'w env \<Rightarrow> opcode \<Rightarrow> bytes \<Rightarrow> 'w wconn \<Rightarrow> (frame_result \<times> 'w wconn) option" where
  "encodeData E op payload c =
    (if cc_config (w_comp c) = None \<or> int (length payload) < cc_minSize (w_comp c)
     then Some (with_tx E (\<lambda>gc rnd. sender_Encode gc rnd op payload) c)
     else do {
       cc \<leftarrow> applyPending E (w_comp c);
       (cmpr, shared, c) \<leftarrow> compressorFor E (c\<lparr>w_comp := cc\<rparr>);
       cmpr \<leftarrow> cmpr;
       (r, w, cmpr) \<leftarrow> unless_panic (Compress (e_flate E) (e_gc E) payload (cc_window (w_comp c)) cmpr);
       (let c = c\<lparr>w_comp := (w_comp c)\<lparr>cc_window := w, cc_attached := (if shared then cc_attached (w_comp c) else Some cmpr)\<rparr>\<rparr>;
            (res, c) = (case r of
                     Inl e \<Rightarrow> (Inl (hand_on e), c)
                   | Inr compressed \<Rightarrow> with_tx E (\<lambda>gc rnd. sender_EncodeCompressed gc rnd op compressed) c)
        in if shared
           then do {
             c \<leftarrow> put_back E cmpr (c\<lparr>w_comp := (w_comp c)\<lparr>cc_scratch := (case res of Inr (h, b) \<Rightarrow> b | Inl _ \<Rightarrow> [])\<rparr>\<rparr>);
             Some (res, c)
           }
           else Some (res, c))
     })"

definition Write :: "'w env \<Rightarrow> opcode \<Rightarrow> bytes \<Rightarrow> 'w wconn \<Rightarrow> (send_result \<times> 'w wconn) option" where
  "Write E op payload c =
    (if op \<noteq> Text \<and> op \<noteq> Binary then Some ((None, Some ErrProtocol), c)
     else if fr_op (w_frag c) \<noteq> 0 then Some ((None, Some ErrMessageOpen), c)
     else do {
       (r, c) \<leftarrow> encodeData E op payload c;
       Some (case r of
               Inl e \<Rightarrow> ((None, Some e), c)
             | Inr (header, body) \<Rightarrow> sendFrame header body c)
     })"

definition BeginMessage :: "'w env \<Rightarrow> opcode \<Rightarrow> 'w wconn \<Rightarrow> (go_error option \<times> 'w wconn) option" where
  "BeginMessage E op c =
    (if op \<noteq> Text \<and> op \<noteq> Binary then Some (Some ErrProtocol, c)
     else if fr_op (w_frag c) \<noteq> 0 then Some (Some ErrMessageOpen, c)
     else if CloseSent (w_tx c) then Some (Some ErrClosing, c)
     else
       (let compressed = (cc_config (w_comp c) \<noteq> None);
            c = c\<lparr>w_frag := (w_frag c)\<lparr>fr_op := op, fr_first := True, fr_compressed := compressed\<rparr>\<rparr>
        in if compressed \<and> cc_attached (w_comp c) = None
           then do {
             cfg \<leftarrow> cc_config (w_comp c);
             (cmpr, ps) \<leftarrow> getCompressor (e_flate E) (e_pick E (w_tick c)) cfg (w_pools c);
             Some (None, c\<lparr>w_pools := ps, w_tick := Suc (w_tick c), w_comp := (w_comp c)\<lparr>cc_attached := cmpr\<rparr>,
                           w_frag := (w_frag c)\<lparr>fr_held := True\<rparr>\<rparr>)
           }
           else Some (None, c)))"

definition endFragmented :: "'w env \<Rightarrow> 'w wconn \<Rightarrow> 'w wconn option" where
  "endFragmented E c =
    (let held = fr_held (w_frag c);
         c = c\<lparr>w_frag := (w_frag c)\<lparr>fr_op := 0, fr_held := False\<rparr>\<rparr>
     in if held \<and> (cc_shared (w_comp c) \<or> cc_window (w_comp c) = None) then releaseCompressor E c else Some c)"

definition end_with :: "'w env \<Rightarrow> send_result \<Rightarrow> 'w wconn \<Rightarrow> (send_result \<times> 'w wconn) option" where
  "end_with E r c = do { c \<leftarrow> endFragmented E c; Some (r, c) }"

definition fragment :: "'w env \<Rightarrow> bytes \<Rightarrow> bool \<Rightarrow> 'w wconn \<Rightarrow> (send_result \<times> 'w wconn) option" where
  "fragment E payload final c =
    (if fr_op (w_frag c) = 0 then Some ((None, Some ErrNoMessage), c)
     else
       (let op = (if fr_first (w_frag c) then fr_op (w_frag c) else Continuation)
        in do {
          (z, c) \<leftarrow>
            (if fr_compressed (w_frag c)
             then do {
               cc \<leftarrow> applyPending E (w_comp c);
               cmpr \<leftarrow> cc_attached cc;
               (r, w, cmpr) \<leftarrow> unless_panic (CompressChunk (e_flate E) (e_gc E) payload (cc_window cc) final cmpr);
               Some (r, c\<lparr>w_comp := cc\<lparr>cc_window := w, cc_attached := Some cmpr\<rparr>\<rparr>)
             }
             else Some (Inr payload, c));
          (case z of
             Inl e \<Rightarrow> end_with E (None, Some (hand_on e)) c
           | Inr payload \<Rightarrow>
              (case with_tx E (\<lambda>gc rnd. EncodeFragment gc rnd op final payload (fr_compressed (w_frag c))) c of
                 (Inl e, c) \<Rightarrow> end_with E (None, Some e) c
               | (Inr (header, body), c) \<Rightarrow>
                  (case sendFrame header body c of
                     ((q, Some e), c) \<Rightarrow> end_with E (None, Some e) c
                   | ((q, None), c) \<Rightarrow>
                      (let c = c\<lparr>w_frag := (w_frag c)\<lparr>fr_first := False\<rparr>\<rparr>
                       in if final then end_with E (q, None) c else Some ((q, None), c)))))
        }))"

definition writeFragment :: "'w env \<Rightarrow> bytes \<Rightarrow> bool \<Rightarrow> 'w wconn \<Rightarrow> (go_error option \<times> 'w wconn) option" where
  "writeFragment E payload final c =
     do { (r, c) \<leftarrow> fragment E payload final c; Some (sync_result E r, c) }"

definition WriteChunk :: "'w env \<Rightarrow> bytes \<Rightarrow> 'w wconn \<Rightarrow> (go_error option \<times> 'w wconn) option" where
  "WriteChunk E payload c = writeFragment E payload False c"

definition EndMessage :: "'w env \<Rightarrow> 'w wconn \<Rightarrow> (go_error option \<times> 'w wconn) option" where
  "EndMessage E c = writeFragment E [] True c"

section \<open>WriteFrom\<close>

text \<open>
  A reader is the data it will deliver and how it ends: with \<open>io.EOF\<close> or with another error.
  \<open>io.ReadFull\<close> fills a buffer of \<open>n\<close> bytes.
\<close>

record reader =
  r_data :: bytes
  r_end :: "go_error option"

definition ReadFull :: "nat \<Rightarrow> reader \<Rightarrow> bytes \<times> go_error option \<times> reader" where
  "ReadFull n r =
    (if n \<le> length (r_data r) then (take n (r_data r), None, r\<lparr>r_data := drop n (r_data r)\<rparr>)
     else
       (r_data r,
        Some (case r_end r of
                Some e \<Rightarrow> if e = EOF \<and> r_data r \<noteq> [] then UnexpectedEOF else e
              | None \<Rightarrow> if r_data r = [] then EOF else UnexpectedEOF),
        r\<lparr>r_data := []\<rparr>))"

text \<open>
  The loop of \<open>WriteFrom\<close>: \<open>cur\<close> is the chunk read ahead. \<open>NewConn\<close> never makes a
  fragment size of zero, with which the loop would not end; it is \<open>None\<close> here.
\<close>

function write_from_loop ::
    "'w env \<Rightarrow> nat \<Rightarrow> bytes \<Rightarrow> int \<Rightarrow> reader \<Rightarrow> 'w wconn \<Rightarrow> ((int \<times> go_error option) \<times> 'w wconn) option" where
  "write_from_loop E sz cur tot r c =
    (if sz = 0 then None
     else
       (let (nxt, err, r') = ReadFull sz r
        in if err \<noteq> None \<and> err \<noteq> Some EOF \<and> err \<noteq> Some UnexpectedEOF then Some ((tot, err), c)
           else
             (let final = (err = Some EOF)
              in case writeFragment E cur final c of
                   None \<Rightarrow> None
                 | Some (Some werr, c) \<Rightarrow> Some ((tot, Some werr), c)
                 | Some (None, c) \<Rightarrow>
                    (let tot = tot + int (length cur)
                     in if final then Some ((tot, None), c)
                        else if err = Some UnexpectedEOF
                        then (case writeFragment E nxt True c of
                                None \<Rightarrow> None
                              | Some (Some werr, c) \<Rightarrow> Some ((tot, Some werr), c)
                              | Some (None, c) \<Rightarrow> Some ((tot + int (length nxt), None), c))
                        else write_from_loop E sz nxt tot r' c))))"
  by pat_completeness auto
termination
  by (relation "measure (\<lambda>(E, sz, cur, tot, r, c). length (r_data r))")
     (auto simp: ReadFull_def split: if_splits)

declare write_from_loop.simps [simp del]

definition WriteFrom ::
    "'w env \<Rightarrow> opcode \<Rightarrow> reader \<Rightarrow> 'w wconn \<Rightarrow> ((int \<times> go_error option) \<times> 'w wconn) option" where
  "WriteFrom E op r c =
    (if op \<noteq> Text \<and> op \<noteq> Binary then Some ((0, Some ErrProtocol), c)
     else
       (let sz = nat (w_fragmentSize c); (cur, err, r) = ReadFull sz r
        in if err = Some EOF \<or> err = Some UnexpectedEOF
           then do { (res, c) \<leftarrow> Write E op cur c; Some ((int (length cur), sync_result E res), c) }
           else if err \<noteq> None then Some ((0, err), c)
           else do {
             (err, c) \<leftarrow> BeginMessage E op c;
             (if err \<noteq> None then Some ((0, err), c) else write_from_loop E sz cur 0 r c)
           }))"

section \<open>Control frames\<close>

definition conn_send :: "'w env \<Rightarrow> opcode \<Rightarrow> bytes \<Rightarrow> 'w wconn \<Rightarrow> go_error option \<times> 'w wconn" where
  "conn_send E op payload c =
    (if fr_op (w_frag c) \<noteq> 0 \<and> op \<noteq> Header.Ping \<and> op \<noteq> Header.Pong \<and> op \<noteq> Header.Close then (Some ErrMessageOpen, c)
     else case with_tx E (\<lambda>gc rnd. sender_Encode gc rnd op payload) c of
            (Inl e, c) \<Rightarrow> (Some e, c)
          | (Inr (header, body), c) \<Rightarrow> conn_write header body c)"

definition conn_Ping :: "'w env \<Rightarrow> bytes \<Rightarrow> 'w wconn \<Rightarrow> go_error option \<times> 'w wconn" where
  "conn_Ping E payload c = conn_send E Header.Ping payload c"

definition conn_Pong :: "'w env \<Rightarrow> bytes \<Rightarrow> 'w wconn \<Rightarrow> go_error option \<times> 'w wconn" where
  "conn_Pong E payload c = conn_send E Header.Pong payload c"

definition conn_Close :: "'w env \<Rightarrow> u16 \<Rightarrow> bytes \<Rightarrow> 'w wconn \<Rightarrow> send_result \<times> 'w wconn" where
  "conn_Close E code reason c =
    (case with_tx E (\<lambda>gc rnd. EncodeClose gc rnd code reason) c of
       (Inl e, c) \<Rightarrow> ((None, Some e), c)
     | (Inr (header, body), c) \<Rightarrow> sendFrame header body c)"

definition conn_CloseSent :: "'w wconn \<Rightarrow> bool" where
  "conn_CloseSent c = CloseSent (w_tx c)"

definition sendClose :: "'w env \<Rightarrow> u16 \<Rightarrow> 'w wconn \<Rightarrow> 'w wconn" where
  "sendClose E code c =
    (if CloseSent (w_tx c) then c
     else case with_tx E (\<lambda>gc rnd. EncodeClose gc rnd code []) c of
            (Inl _, c) \<Rightarrow> c
          | (Inr (header, body), c) \<Rightarrow> snd (conn_write header body c))"

section \<open>Prepared messages and the queue\<close>

definition frameFor :: "'w env \<Rightarrow> Prepared \<Rightarrow> 'w wconn \<Rightarrow> (bytes \<times> bool \<times> Prepared \<times> 'w wconn) option" where
  "frameFor E p c =
    (case cc_config (w_comp c) of
       None \<Rightarrow> Some (pr_frame p, False, p, c)
     | Some cfg \<Rightarrow>
        if int (length (pr_payload p)) < cc_minSize (w_comp c) then Some (pr_frame p, False, p, c)
        else do {
          (frame, p, ps) \<leftarrow> compressedFor (e_flate E) (e_gc E) (e_pick E (w_tick c)) cfg p (w_pools c);
          Some (frame, True, p, c\<lparr>w_pools := ps, w_tick := Suc (w_tick c)\<rparr>)
        })"

definition preparedFrame ::
    "'w env \<Rightarrow> Prepared \<Rightarrow> 'w wconn \<Rightarrow> ((go_error + bytes) \<times> Prepared \<times> 'w wconn) option" where
  "preparedFrame E p c =
    (if fr_op (w_frag c) \<noteq> 0 then Some (Inl ErrMessageOpen, p, c)
     else if CloseSent (w_tx c) then Some (Inl ErrClosing, p, c)
     else do {
       (frame, compressed, p, c) \<leftarrow> frameFor E p c;
       (if compressed \<and> cc_window (w_comp c) \<noteq> None
        then do { cc \<leftarrow> notePrepared E p (w_comp c); Some (Inr frame, p, c\<lparr>w_comp := cc\<rparr>) }
        else Some (Inr frame, p, c))
     })"

definition WritePrepared ::
    "'w env \<Rightarrow> Prepared \<Rightarrow> 'w wconn \<Rightarrow> (send_result \<times> Prepared \<times> 'w wconn) option" where
  "WritePrepared E p c =
    (if w_role c = Client then do { (r, c) \<leftarrow> Write E (pr_op p) (pr_payload p) c; Some (r, p, c) }
     else do {
       (r, p, c) \<leftarrow> preparedFrame E p c;
       Some (case r of
               Inl e \<Rightarrow> ((None, Some e), p, c)
             | Inr frame \<Rightarrow>
                (case w_queue c of
                   Some q \<Rightarrow>
                     (case enqueue [] [] (Some frame) q of
                        (Inl e, q) \<Rightarrow> ((Some 0, Some e), p, c\<lparr>w_queue := Some q\<rparr>)
                      | (Inr (seq, _), q) \<Rightarrow> ((Some seq, None), p, c\<lparr>w_queue := Some q\<rparr>))
                 | None \<Rightarrow> (let (err, n) = net_write frame (w_net c) in ((None, err), p, c\<lparr>w_net := n\<rparr>))))
     })"

text \<open>\<open>Send\<close> and \<open>SendPrepared\<close> of a queue are calls on the connection that owns it.\<close>

definition queue_Send :: "'w env \<Rightarrow> opcode \<Rightarrow> bytes \<Rightarrow> 'w wconn \<Rightarrow> (go_error option \<times> 'w wconn) option" where
  "queue_Send E op payload c =
    (if op \<noteq> Text \<and> op \<noteq> Binary then Some (Some ErrProtocol, c)
     else if fr_op (w_frag c) \<noteq> 0 then Some (Some ErrMessageOpen, c)
     else do {
       q \<leftarrow> w_queue c;
       (case reserve (length payload) q of
          Some e \<Rightarrow> Some (Some e, c)
        | None \<Rightarrow>
           do {
             (r, c) \<leftarrow> encodeData E op payload c;
             Some (case r of
                     Inl e \<Rightarrow> (Some e, c)
                   | Inr (header, body) \<Rightarrow>
                      (case enqueue header body None q of
                         (Inl e, q) \<Rightarrow> (Some e, c\<lparr>w_queue := Some q\<rparr>)
                       | (Inr _, q) \<Rightarrow> (None, c\<lparr>w_queue := Some q\<rparr>)))
           })
     })"

definition SendPrepared :: "'w env \<Rightarrow> Prepared \<Rightarrow> 'w wconn \<Rightarrow> (go_error option \<times> Prepared \<times> 'w wconn) option" where
  "SendPrepared E p c =
    (if w_role c = Client then do { (r, c) \<leftarrow> queue_Send E (pr_op p) (pr_payload p) c; Some (r, p, c) }
     else do {
       q \<leftarrow> w_queue c;
       (case reserve (length (pr_payload p)) q of
          Some e \<Rightarrow> Some (Some e, p, c)
        | None \<Rightarrow>
           do {
             (r, p, c) \<leftarrow> preparedFrame E p c;
             Some (case r of
                     Inl e \<Rightarrow> (Some e, p, c)
                   | Inr frame \<Rightarrow>
                      (case enqueue [] [] (Some frame) q of
                         (Inl e, q) \<Rightarrow> (Some e, p, c\<lparr>w_queue := Some q\<rparr>)
                       | (Inr _, q) \<Rightarrow> (None, p, c\<lparr>w_queue := Some q\<rparr>)))
           })
     })"

definition conn_NewQueue :: "int \<Rightarrow> 'w wconn \<Rightarrow> 'w wconn" where
  "conn_NewQueue limit c = c\<lparr>w_queue := Some (NewQueue limit (w_queue c))\<rparr>"

section \<open>conn.go: the write side of a new connection\<close>

definition DefaultFragmentSize :: int where "DefaultFragmentSize = 64 * 1024"
definition DefaultMinSize :: int where "DefaultMinSize = 128"

definition cmp_Or :: "int \<Rightarrow> int \<Rightarrow> int" where
  "cmp_Or a b = (if a \<noteq> 0 then a else b)"

definition validBits :: "int \<Rightarrow> bool" where
  "validBits b \<longleftrightarrow> b = 0 \<or> b \<ge> 8 \<and> b \<le> 15"

text \<open>The address stands for the identity of the allocated window.\<close>

definition new_window :: "nat \<Rightarrow> bool \<Rightarrow> int \<Rightarrow> window_ref" where
  "new_window a takeover bits =
    (if \<not> takeover then None else Some (a, \<lparr>Bits = bits, wbuf = [], wcap = 0, gen = 0\<rparr>))"

definition new_compressorContext :: "nat \<Rightarrow> bool \<Rightarrow> Compression option \<Rightarrow> 'w compressorContext" where
  "new_compressorContext a shared cmpr =
    (let z = \<lparr>cc_config = None, cc_minSize = 0, cc_shared = False, cc_window = None, cc_attached = None,
              cc_scratch = [], cc_pending = [], cc_pendingBytes = 0\<rparr>
     in case cmpr of
          None \<Rightarrow> z
        | Some cfg \<Rightarrow> z\<lparr>cc_config := Some cfg, cc_minSize := cmp_Or (cp_MinSize cfg) DefaultMinSize, cc_shared := shared,
                       cc_window := new_window a (SendContextTakeover cfg) (SendWindowBits cfg)\<rparr>)"

definition new_wconn ::
    "nat \<Rightarrow> Role \<Rightarrow> bool \<Rightarrow> int \<Rightarrow> bool \<Rightarrow> Compression option \<Rightarrow> net \<Rightarrow> 'w comp_pools \<Rightarrow> 'w wconn" where
  "new_wconn a role vectored fragmentSize shared cmpr net ps =
    \<lparr>w_role = role, w_vectored = vectored, w_fragmentSize = cmp_Or fragmentSize DefaultFragmentSize,
     w_tx = sender_Init role zero_sender, w_queue = None, w_comp = new_compressorContext a shared cmpr,
     w_frag = \<lparr>fr_op = 0, fr_first = False, fr_compressed = False, fr_held = False\<rparr>,
     w_net = net, w_pools = ps, w_tick = 0\<rparr>"

end
