(* ===== verification/ConnWrite_Inv.thy ===== *)
theory ConnWrite_Inv
  imports ConnWrite
begin

text \<open>
  The send side's bookkeeping: the deferred history of prepared messages, the compressor pools, and the invariant that ties
  window, pending payloads and attached compressor to what the peer has seen.
\<close>

section \<open>Deferred history\<close>

definition pend_data :: "'w compressorContext \<Rightarrow> bytes" where
  "pend_data cc = concat (map pr_payload (cc_pending cc))"

definition win_of :: "'w compressorContext \<Rightarrow> Window" where
  "win_of cc = snd (the (cc_window cc))"

definition cc_size :: "'w compressorContext \<Rightarrow> nat" where
  "cc_size cc = Size (win_of cc)"

text \<open>What the peer's history must be: the window with the pending payloads behind it.\<close>

definition cc_hist :: "'w compressorContext \<Rightarrow> bytes" where
  "cc_hist cc = lastn (cc_size cc) (dict (Some (win_of cc)) @ pend_data cc)"

definition pend_ok :: "'w compressorContext \<Rightarrow> bool" where
  "pend_ok cc \<longleftrightarrow> cc_window cc \<noteq> None \<and> cc_pendingBytes cc = int (length (pend_data cc))
     \<and> length (cc_pending cc) \<le> pendingHistory"

lemma add_all_fold:
  "add_all gc ps (Some (a, win)) = Some (Some (a, fold (add_win gc) ps win))"
  by (induction ps arbitrary: win) (simp_all add: add_win_correct(1))

lemma add_all_None: "add_all gc [] None = Some None"
  by simp

lemma applyPending_ok:
  assumes "cc_window cc = Some (a, win)"
  shows "applyPending E cc = Some (cc\<lparr>cc_window := Some (a, fold (add_win (e_gc E)) (map pr_payload (cc_pending cc)) win),
     cc_pending := [], cc_pendingBytes := 0\<rparr>)"
  by (simp add: applyPending_def assms add_all_fold)

lemma fold_add_win:
  "Size (fold (add_win gc) ps win) = Size win"
  "dict (Some (fold (add_win gc) ps win)) = lastn (Size win) (dict (Some win) @ concat ps)"
proof -
  have "dict (Some win) = lastn (Size win) (dict (Some win))" by (simp add: dict_lastn)
  from win.hist_adds [OF TrueI this, of gc ps]
  show "Size (fold (add_win gc) ps win) = Size win"
    "dict (Some (fold (add_win gc) ps win)) = lastn (Size win) (dict (Some win) @ concat ps)" by simp_all
qed

lemma cc_hist_apply:
  assumes "pend_ok cc" "applyPending E cc = Some cc'"
  shows "pend_ok cc'" "cc_size cc' = cc_size cc" "cc_hist cc' = cc_hist cc" "dict (Some (win_of cc')) = cc_hist cc"
    "cc_pending cc' = []"
proof -
  obtain a win where w: "cc_window cc = Some (a, win)" using assms(1) by (auto simp: pend_ok_def)
  have c': "cc' = cc\<lparr>cc_window := Some (a, fold (add_win (e_gc E)) (map pr_payload (cc_pending cc)) win),
     cc_pending := [], cc_pendingBytes := 0\<rparr>" using assms(2) applyPending_ok [OF w, of E] by simp
  show "pend_ok cc'" "cc_pending cc' = []" by (simp_all add: c' pend_ok_def pend_data_def)
  show s: "cc_size cc' = cc_size cc" by (simp add: c' cc_size_def win_of_def w fold_add_win)
  show d: "dict (Some (win_of cc')) = cc_hist cc"
    by (simp add: c' cc_hist_def cc_size_def win_of_def w fold_add_win pend_data_def)
  have "cc_hist cc' = lastn (cc_size cc) (dict (Some (win_of cc')))" using s by (simp add: cc_hist_def c' pend_data_def)
  then show "cc_hist cc' = cc_hist cc" by (simp add: d) (simp add: cc_hist_def)
qed

lemma hist_dropped:
  "n \<le> length q \<Longrightarrow> lastn n ((d @ p) @ q) = lastn n (d @ q)"
  by simp

lemma dropOldest:
  assumes "pend_ok cc" "cc_pending cc \<noteq> []"
  shows "pend_ok (dropOldestPending cc)" "cc_window (dropOldestPending cc) = cc_window cc"
    "pend_data cc = pr_payload (hd (cc_pending cc)) @ pend_data (dropOldestPending cc)"
  using assms by (cases "cc_pending cc"; auto simp: dropOldestPending_def pend_ok_def pend_data_def)+

lemma drop_covered_ok:
  assumes "pend_ok cc"
  shows "pend_ok (drop_covered k (int (length p)) (int (cc_size cc)) cc)
    \<and> cc_window (drop_covered k (int (length p)) (int (cc_size cc)) cc) = cc_window cc
    \<and> lastn (cc_size cc) (dict (Some (win_of cc)) @ pend_data (drop_covered k (int (length p)) (int (cc_size cc)) cc) @ p)
      = lastn (cc_size cc) (dict (Some (win_of cc)) @ pend_data cc @ p)"
  using assms
proof (induction k arbitrary: cc)
  case (Suc k)
  let ?d = "dropOldestPending cc" and ?o = "pr_payload (hd (cc_pending cc))"
  show ?case
  proof (cases "cc_pending cc \<noteq> [] \<and> cc_pendingBytes cc - int (length ?o) + int (length p) \<ge> int (cc_size cc)")
    case True
    note d = dropOldest [OF Suc.prems] and ne = conjunct1 [OF True]
    have w: "win_of ?d = win_of cc" "cc_size ?d = cc_size cc" using d(2) [OF ne] by (simp_all add: win_of_def cc_size_def)
    have "cc_pendingBytes cc = int (length (pend_data cc))" using Suc.prems by (simp add: pend_ok_def)
    with True d(3) [OF ne] have l: "cc_size cc \<le> length (pend_data ?d @ p)" by (auto simp flip: of_nat_add)
    have "lastn (cc_size cc) (dict (Some (win_of cc)) @ pend_data cc @ p) = lastn (cc_size cc) (pend_data ?d @ p)"
      unfolding d(3) [OF ne] using lastn_append_long [OF l, of "dict (Some (win_of cc)) @ ?o"] by simp
    moreover have "lastn (cc_size cc) (dict (Some (win_of cc)) @ pend_data ?d @ p) = lastn (cc_size cc) (pend_data ?d @ p)"
      using lastn_append_long [OF l, of "dict (Some (win_of cc))"] by simp
    ultimately show ?thesis using Suc.IH [OF d(1) [OF ne]] True d(2) [OF ne] by (simp add: w)
  qed (use Suc.prems in auto)
qed simp

text \<open>Noting a prepared message extends the history by its payload, whatever is dropped or copied.\<close>

lemma notePrepared_ok:
  assumes "pend_ok cc"
  shows "\<exists>cc'. notePrepared E p cc = Some cc' \<and> pend_ok cc' \<and> cc_size cc' = cc_size cc
    \<and> cc_hist cc' = lastn (cc_size cc) (cc_hist cc @ pr_payload p)"
proof -
  obtain a win where w: "cc_window cc = Some (a, win)" using assms by (auto simp: pend_ok_def)
  have sz: "cc_size cc = Size win" by (simp add: cc_size_def win_of_def w)
  let ?q = "pr_payload p" and ?S = "Size win"
  have goal: "\<exists>cc'. (if length (cc_pending c1) \<ge> pendingHistory then None
       else Some (c1\<lparr>cc_pending := cc_pending c1 @ [p], cc_pendingBytes := cc_pendingBytes c1 + int (length ?q)\<rparr>)) = Some cc'
     \<and> pend_ok cc' \<and> cc_size cc' = cc_size cc \<and> cc_hist cc' = lastn ?S (cc_hist cc @ ?q)"
    if c1: "pend_ok c1" "length (cc_pending c1) < pendingHistory" "cc_size c1 = ?S"
      and h: "lastn ?S (dict (Some (win_of c1)) @ pend_data c1 @ ?q) = lastn ?S (cc_hist cc @ ?q)" for c1
    using c1 h by (auto simp: pend_ok_def pend_data_def cc_hist_def cc_size_def win_of_def w)
  have hq: "lastn ?S (cc_hist cc @ ?q) = lastn ?S (dict (Some win) @ pend_data cc @ ?q)"
    using lastn_append_lastn [of ?S "dict (Some win) @ pend_data cc" ?q] by (simp add: cc_hist_def sz win_of_def w)
  show ?thesis
  proof (cases "int (length ?q) \<ge> int ?S")
    case True
    let ?c1 = "dropPending cc"
    have "pend_ok ?c1" "length (cc_pending ?c1) < pendingHistory" "cc_size ?c1 = ?S"
      using assms by (auto simp: dropPending_def pend_ok_def pend_data_def pendingHistory_def cc_size_def win_of_def w)
    moreover have "lastn ?S (dict (Some (win_of ?c1)) @ pend_data ?c1 @ ?q) = lastn ?S (cc_hist cc @ ?q)"
      using True by (simp add: dropPending_def pend_data_def)
    ultimately show ?thesis using goal [of ?c1] True w by (simp add: notePrepared_def sz)
  next
    case False
    define c1 where "c1 = drop_covered (length (cc_pending cc)) (int (length ?q)) (int ?S) cc"
    have d: "pend_ok c1" "cc_window c1 = Some (a, win)"
      "lastn ?S (dict (Some win) @ pend_data c1 @ ?q) = lastn ?S (cc_hist cc @ ?q)"
      using drop_covered_ok [OF assms, of "length (cc_pending cc)" ?q] hq by (simp_all add: c1_def sz win_of_def w)
    have w1: "win_of c1 = win" "cc_size c1 = ?S" using d(2) by (simp_all add: win_of_def cc_size_def)
    show ?thesis
    proof (cases "length (cc_pending c1) = pendingHistory")
      case full: True
      obtain c2 where c2: "applyPending E c1 = Some c2" using applyPending_ok [OF d(2), of E] by simp
      note ap = cc_hist_apply [OF d(1) c2]
      have "pend_data c2 = []" using ap(5) by (simp add: pend_data_def)
      moreover have "lastn ?S (cc_hist c1 @ ?q) = lastn ?S (cc_hist cc @ ?q)"
        using d(3) lastn_append_lastn [of ?S "dict (Some win) @ pend_data c1" ?q] by (simp add: cc_hist_def w1)
      ultimately have "lastn ?S (dict (Some (win_of c2)) @ pend_data c2 @ ?q) = lastn ?S (cc_hist cc @ ?q)"
        using ap(4) by simp
      from goal [OF ap(1) _ _ this] ap(2,5) w1 show ?thesis
        using False w full c2 by (simp add: notePrepared_def c1_def [symmetric] pendingHistory_def sz)
    next
      case notfull: False
      then have "length (cc_pending c1) < pendingHistory" using d(1) by (simp add: pend_ok_def)
      from goal [OF d(1) this w1(2)] d(3) w1 notfull False w show ?thesis
        by (simp add: notePrepared_def c1_def [symmetric] sz)
    qed
  qed
qed

definition noted :: "'w env \<Rightarrow> Prepared \<Rightarrow> 'w compressorContext \<Rightarrow> 'w compressorContext" where
  "noted E p cc = the (notePrepared E p cc)"

lemma noted_ok:
  assumes "pend_ok cc"
  shows "notePrepared E p cc = Some (noted E p cc)" "pend_ok (noted E p cc)" "cc_size (noted E p cc) = cc_size cc"
    "cc_hist (noted E p cc) = lastn (cc_size cc) (cc_hist cc @ pr_payload p)"
  using notePrepared_ok [OF assms, of E p] by (auto simp: noted_def)

interpretation pend: history cc_size cc_hist pr_payload "noted E" pend_ok for E
  by unfold_locales (simp_all add: noted_ok)

text \<open>The window behind a noted message is the old one with some of the pending payloads copied in.\<close>

lemma drop_covered_fields:
  "cc_window (drop_covered k n sz cc) = cc_window cc \<and> cc_attached (drop_covered k n sz cc) = cc_attached cc
   \<and> cc_config (drop_covered k n sz cc) = cc_config cc \<and> length (cc_pending (drop_covered k n sz cc)) \<le> length (cc_pending cc)"
  by (induction k arbitrary: cc) (fastforce simp: dropOldestPending_def intro: order_trans)+

lemma notePrepared_window:
  assumes "notePrepared E p cc = Some cc'" "cc_window cc = Some (a, win)"
  shows "\<exists>qs. cc_window cc' = Some (a, fold (add_win (e_gc E)) qs win)
    \<and> length qs + length (cc_pending cc') \<le> Suc (length (cc_pending cc))
    \<and> cc_attached cc' = cc_attached cc \<and> cc_config cc' = cc_config cc"
proof -
  define n where "n = int (length (pr_payload p))"
  define c1 where "c1 = drop_covered (length (cc_pending cc)) n (int (Size win)) cc"
  have f: "cc_window c1 = Some (a, win)" "cc_attached c1 = cc_attached cc" "cc_config c1 = cc_config cc"
    "length (cc_pending c1) \<le> length (cc_pending cc)"
    using drop_covered_fields [of "length (cc_pending cc)" n "int (Size win)" cc] assms(2) by (simp_all add: c1_def)
  define c2 where "c2 = c1\<lparr>cc_window := Some (a, fold (add_win (e_gc E)) (map pr_payload (cc_pending c1)) win),
       cc_pending := [], cc_pendingBytes := 0\<rparr>"
  have ap: "applyPending E c1 = Some c2" unfolding c2_def using f(1) by (rule applyPending_ok)
  define c0 where "c0 = (if n \<ge> int (Size win) then dropPending cc else if length (cc_pending c1) = pendingHistory then c2 else c1)"
  have c': "cc' = c0\<lparr>cc_pending := cc_pending c0 @ [p], cc_pendingBytes := cc_pendingBytes c0 + n\<rparr>"
    using assms ap by (simp add: notePrepared_def Let_def c0_def c1_def n_def split: if_splits)
  define qs where "qs = (if n \<ge> int (Size win) then [] else if length (cc_pending c1) = pendingHistory then map pr_payload (cc_pending c1) else [])"
  have "cc_window c0 = Some (a, fold (add_win (e_gc E)) qs win) \<and> length qs + length (cc_pending c0) \<le> length (cc_pending cc)
    \<and> cc_attached c0 = cc_attached cc \<and> cc_config c0 = cc_config cc"
    using f assms(2) by (auto simp: c0_def qs_def c2_def dropPending_def)
  then show ?thesis by (intro exI [of _ qs]) (simp add: c')
qed

section \<open>Compressor pools\<close>

definition fresh :: "nat \<Rightarrow> 'w compressor \<Rightarrow> bool" where
  "fresh m c \<longleftrightarrow> \<not> mid c \<and> cattached c = None \<and> cwindow c = m"

fun id_window :: "pool_id \<Rightarrow> nat" where
  "id_window (LevelPool k) = windowSize"
| "id_window (WindowPool k) = 2 ^ (k + 8)"

definition comp_pools_ok :: "'w comp_pools \<Rightarrow> bool" where
  "comp_pools_ok ps \<longleftrightarrow> (\<forall>i. \<forall>c\<in>set (ps i). fresh (id_window i) c)"

definition cfg_ok :: "Compression \<Rightarrow> bool" where
  "cfg_ok cfg \<longleftrightarrow> -2 \<le> cp_Level cfg \<and> cp_Level cfg \<le> 9 \<and> bits_ok (SendWindowBits cfg)"

definition cfg_window :: "Compression \<Rightarrow> nat" where
  "cfg_window cfg = (if SendWindowBits cfg \<noteq> 0 \<and> SendWindowBits cfg \<noteq> 15 then 2 ^ nat (SendWindowBits cfg) else windowSize)"

lemma compressorPool_ok: "cfg_ok cfg \<Longrightarrow> \<exists>i. compressorPool cfg = Some i \<and> id_window i = cfg_window cfg"
proof -
  assume ok: "cfg_ok cfg"
  have "nat (b - 8) + 8 = nat b" if "8 \<le> b" for b :: int using that by linarith
  with ok show ?thesis
    by (auto simp: cfg_ok_def bits_ok_def compressorPool_def cfg_window_def Let_def)
qed

lemma newCompressor_ok:
  assumes F: "flate_history F hst" and "cfg_ok cfg"
  shows "\<exists>c. newCompressor F cfg = Some c \<and> fresh (cfg_window cfg) c"
proof (cases "SendWindowBits cfg \<noteq> 0 \<and> SendWindowBits cfg \<noteq> 15")
  case True
  then have b: "8 \<le> SendWindowBits cfg" "SendWindowBits cfg \<le> 15" using assms(2) by (auto simp: cfg_ok_def bits_ok_def)
  then have "8 \<le> nat (SendWindowBits cfg)" "nat (SendWindowBits cfg) \<le> 15" by linarith+
  with F obtain w where "NewWriterWindow F (2 ^ nat (SendWindowBits cfg)) = Inr w" unfolding flate_history_def by blast
  with True b show ?thesis by (simp add: newCompressor_def NewCompressorWindow_def fresh_def cfg_window_def)
next
  case False
  have "-2 \<le> cp_Level cfg \<and> cp_Level cfg \<le> 9" using assms(2) by (simp add: cfg_ok_def)
  with F obtain w where "NewWriter F (cp_Level cfg) = Inr w" unfolding flate_history_def by blast
  with False show ?thesis by (auto simp: newCompressor_def NewCompressor_def fresh_def cfg_window_def Let_def)
qed

lemma getCompressor_ok:
  assumes F: "flate_history F hst" and ok: "cfg_ok cfg" and ps: "comp_pools_ok ps"
  shows "\<exists>c ps'. getCompressor F pick cfg ps = Some (Some c, ps') \<and> fresh (cfg_window cfg) c \<and> comp_pools_ok ps'"
proof -
  obtain i where i: "compressorPool cfg = Some i" "id_window i = cfg_window cfg" using compressorPool_ok [OF ok] by blast
  obtain c0 where c0: "newCompressor F cfg = Some c0" "fresh (cfg_window cfg) c0" using newCompressor_ok [OF F ok] by blast
  show ?thesis
  proof (cases "\<exists>k. pick = Some k \<and> k < length (ps i)")
    case True
    then obtain k where k: "pick = Some k" "k < length (ps i)" by blast
    have "fresh (id_window i) (ps i ! k)" using ps k by (auto simp: comp_pools_ok_def)
    moreover have "comp_pools_ok (ps(i := take k (ps i) @ drop (Suc k) (ps i)))"
      using ps by (auto simp: comp_pools_ok_def dest: in_set_takeD in_set_dropD)
    ultimately show ?thesis using i k by (simp add: getCompressor_def pool_take_def)
  next
    case False
    then have "pool_take pick i ps = (None, ps)" by (auto simp: pool_take_def split: option.split)
    with i c0 ps show ?thesis by (simp add: getCompressor_def)
  qed
qed

lemma putCompressor_ok:
  assumes "cfg_ok cfg" "comp_pools_ok ps" "cwindow c = cfg_window cfg"
  shows "\<exists>ps'. putCompressor F cfg c ps = Some ps' \<and> comp_pools_ok ps'"
  using compressorPool_ok [OF assms(1)] assms(2,3)
  by (auto simp: putCompressor_def comp_pools_ok_def fresh_def comp_Reset_def)

end
