(* ===== verification/ConnWrite_Props.thy ===== *)
theory ConnWrite_Props
  imports ConnWrite_Inv
begin

text \<open>
  What the peer can make of what a connection sends: every compressed message decodes against the
  history the peer keeps, also across prepared messages, fragments and pooled compressors.
\<close>

section \<open>The compression state of a connection\<close>

lemma add_win_Nil [simp]: "add_win gc [] win = win"
  using add_win_correct(1) [of gc "[]" win] by (simp add: Add_def remember_def)

lemma fold_add_comp_inv:
  "gen win = of_nat k \<Longrightarrow> (\<And>c. P c \<Longrightarrow> comp_inv hst m k a win c) \<Longrightarrow>
   \<exists>k' \<le> k + length xs. gen (fold (add_win gc) xs win) = of_nat k'
     \<and> (\<forall>c. P c \<longrightarrow> comp_inv hst m k' a (fold (add_win gc) xs win) c)"
proof (induction xs arbitrary: win k)
  case (Cons q xs)
  have g: "gen (add_win gc q win) = of_nat (k + changes q)" using gen_add_win [OF Cons.prems(1)] .
  have i: "comp_inv hst m (k + changes q) a (add_win gc q win) c" if "P c" for c
    using Cons.prems(2) [OF that] comp_inv_later [of hst m k a win c "k + changes q" "add_win gc q win"]
    by (cases "q = []") (simp_all add: changes_def)
  from Cons.IH [OF g i] obtain k' where k': "k' \<le> k + changes q + length xs"
    "gen (fold (add_win gc) (q # xs) win) = of_nat k'"
    "\<forall>c. P c \<longrightarrow> comp_inv hst m k' a (fold (add_win gc) (q # xs) win) c" by auto
  have "k + changes q + length xs \<le> k + length (q # xs)" by (simp add: changes_def)
  with k'(1) have "k' \<le> k + length (q # xs)" by (rule le_trans)
  with k'(2,3) show ?case by blast
qed auto

text \<open>
  \<open>cx hst n h ps w0 fin cc cm\<close>: compressor \<open>cm\<close> of context \<open>cc\<close> has sent the chunks \<open>ps\<close> of a message
  that started with writer \<open>w0\<close>, and the message is complete when \<open>fin\<close>. \<open>h\<close> is everything the
  peer decoded before it, \<open>n\<close> bounds the changes of the window.
\<close>

definition cx ::
    "'w flate_writer \<Rightarrow> ('w \<Rightarrow> bytes) \<Rightarrow> nat \<Rightarrow> bytes \<Rightarrow> bytes list \<Rightarrow> 'w \<Rightarrow> bool \<Rightarrow> 'w compressorContext \<Rightarrow> 'w compressor \<Rightarrow> bool" where
  "cx F hst n h ps w0 fin cc cm \<longleftrightarrow>
     (\<exists>cfg. cc_config cc = Some cfg \<and> cfg_ok cfg \<and> cwindow cm = cfg_window cfg
       \<and> mid cm = (ps \<noteq> [] \<and> \<not> fin) \<and> (ps \<noteq> [] \<longrightarrow> writer cm = flushed_all F ps w0)
       \<and> (case cc_window cc of
            None \<Rightarrow> cc_pending cc = [] \<and> cattached cm = None \<and> (ps \<noteq> [] \<longrightarrow> hst w0 = [])
          | Some (a, win) \<Rightarrow>
              pend_ok cc \<and> Size win = cfg_window cfg \<and> cc_hist cc = lastn (cfg_window cfg) (h @ concat ps)
              \<and> (ps \<noteq> [] \<longrightarrow> lastn (cfg_window cfg) (hst w0) = lastn (cfg_window cfg) h)
              \<and> (\<exists>k. gen win = of_nat k \<and> k + length (cc_pending cc) \<le> n \<and> comp_inv hst (cfg_window cfg) k a win cm
                   \<and> (ps \<noteq> [] \<longrightarrow> cattached cm = Some a \<and> cgen cm = gen win \<and> cc_pending cc = []))))"

text \<open>Between messages.\<close>

definition cc_ok :: "('w \<Rightarrow> bytes) \<Rightarrow> nat \<Rightarrow> bytes \<Rightarrow> 'w compressorContext \<Rightarrow> bool" where
  "cc_ok hst n h cc \<longleftrightarrow>
     (case cc_config cc of
        None \<Rightarrow> True
      | Some cfg \<Rightarrow>
          cfg_ok cfg
          \<and> (case cc_window cc of
               None \<Rightarrow> cc_pending cc = [] \<and> cc_attached cc = None
             | Some (a, win) \<Rightarrow>
                 pend_ok cc \<and> Size win = cfg_window cfg \<and> cc_hist cc = lastn (cfg_window cfg) h
                 \<and> (\<exists>k. gen win = of_nat k \<and> k + length (cc_pending cc) \<le> n
                      \<and> (\<forall>cm. cc_attached cc = Some cm \<longrightarrow> \<not> mid cm \<and> comp_inv hst (cfg_window cfg) k a win cm))))"

lemma cc_hist_attached [simp]:
  "cc_hist (cc\<lparr>cc_attached := x\<rparr>) = cc_hist cc" "pend_ok (cc\<lparr>cc_attached := x\<rparr>) = pend_ok cc"
  by (simp_all add: cc_hist_def pend_ok_def cc_size_def win_of_def pend_data_def)

lemma cx_attached [simp]: "cx F hst n h ps w0 fin (cc\<lparr>cc_attached := x\<rparr>) cm = cx F hst n h ps w0 fin cc cm"
  by (simp add: cx_def split: option.split)

lemma cx_begin:
  assumes ok: "cc_ok hst n h cc" and cfg: "cc_config cc = Some cfg"
    and cm: "cc_attached cc = Some cm \<or> fresh (cfg_window cfg) cm"
  shows "cx F hst n h [] w0 False cc cm"
proof (cases "cc_window cc")
  case None
  with assms show ?thesis by (auto simp: cc_ok_def cx_def fresh_def)
next
  case (Some aw)
  obtain a win where aw: "aw = (a, win)" by (cases aw)
  have fr: "comp_inv hst m k a win cm" if "fresh m cm" for m k using that by (simp add: fresh_def comp_inv_def)
  from ok cfg Some aw obtain k where k: "pend_ok cc" "Size win = cfg_window cfg" "cc_hist cc = lastn (cfg_window cfg) h" "cfg_ok cfg"
    "gen win = of_nat k" "k + length (cc_pending cc) \<le> n"
    "\<forall>cm. cc_attached cc = Some cm \<longrightarrow> \<not> mid cm \<and> comp_inv hst (cfg_window cfg) k a win cm"
    by (auto simp: cc_ok_def)
  have "\<not> mid cm \<and> comp_inv hst (cfg_window cfg) k a win cm" using cm k(7) fr by (auto simp: fresh_def)
  moreover from this have "cwindow cm = cfg_window cfg" by (simp add: comp_inv_def)
  ultimately show ?thesis using k cfg Some aw unfolding cx_def by auto
qed

lemma cx_end:
  assumes "cx F hst n h ps w0 True cc cm"
  shows "cc_ok hst n (h @ concat ps) (cc\<lparr>cc_attached := None\<rparr>)"
    "cc_window cc \<noteq> None \<Longrightarrow> cc_ok hst n (h @ concat ps) (cc\<lparr>cc_attached := Some cm\<rparr>)"
  using assms by (auto simp: cx_def cc_ok_def split: option.splits)

text \<open>One chunk: apply what is pending, then compress.\<close>

lemma cx_step:
  assumes F: "flate_history (e_flate E) hst" and cx: "cx (e_flate E) hst n h ps w0 False cc cm" and n: "n < 2 ^ 64"
  shows "\<exists>cc1 z w1 w' cm'. applyPending E cc = Some cc1 \<and> cc_attached cc1 = cc_attached cc
     \<and> (cc_window cc1 = None) = (cc_window cc = None) \<and> (w' = None) = (cc_window cc = None)
     \<and> cc_shared cc1 = cc_shared cc \<and> cc_config cc1 = cc_config cc
     \<and> CompressChunk (e_flate E) (e_gc E) p (cc_window cc1) final cm = (Inr (if final then z else z @ sync_tail), w', cm')
     \<and> emitted_all (e_flate E) (ps @ [p]) w1 = emitted_all (e_flate E) ps w1 @ z @ sync_tail
     \<and> (ps \<noteq> [] \<longrightarrow> w1 = w0)
     \<and> cx (e_flate E) hst (Suc n) h (ps @ [p]) w1 final (cc1\<lparr>cc_window := w'\<rparr>) cm'"
proof -
  obtain cfg where cfg: "cc_config cc = Some cfg" "cfg_ok cfg" "cwindow cm = cfg_window cfg" "mid cm = (ps \<noteq> [])"
    "ps \<noteq> [] \<Longrightarrow> writer cm = flushed_all (e_flate E) ps w0"
    using cx by (auto simp: cx_def)
  let ?m = "cfg_window cfg"
  show ?thesis
  proof (cases "cc_window cc")
    case None
    then have c: "cc_pending cc = []" "cattached cm = None" "ps \<noteq> [] \<Longrightarrow> hst w0 = []" using cx by (auto simp: cx_def)
    define s0 where "s0 = writer (start_chunk (e_flate E) None cm)"
    obtain z cm' where st: "CompressChunk (e_flate E) (e_gc E) p None final cm = (Inr (if final then z else z @ sync_tail), add_ref (e_gc E) p None, cm')"
      "emitted (e_flate E) p s0 = z @ sync_tail" "writer cm' = flushed (e_flate E) p s0" "mid cm' = (\<not> final)" "cattached cm' = None" "cwindow cm' = cwindow cm"
      using CompressChunk_step [OF F s0_def, of "e_gc E" p final] by auto
    define w1 where "w1 = (if ps = [] then s0 else w0)"
    have s0: "s0 = flushed_all (e_flate E) ps w1"
      using cfg start_continues [of None cm "e_flate E"] by (auto simp: w1_def s0_def continues_def)
    have hw: "hst w1 = []"
      using c start_primed [OF F, of None cm] cfg(4) by (auto simp: w1_def s0_def continues_def)
    define cc1 where "cc1 = cc\<lparr>cc_window := None, cc_pending := [], cc_pendingBytes := 0\<rparr>"
    have ap: "applyPending E cc = Some cc1" by (simp add: applyPending_def c None cc1_def)
    have cx': "cx (e_flate E) hst (Suc n) h (ps @ [p]) w1 final (cc1\<lparr>cc_window := None\<rparr>) cm'"
      unfolding cx_def using st(3-6) cfg(1-3) hw s0 by (intro exI [of _ cfg]) (simp add: cc1_def)
    have "emitted_all (e_flate E) (ps @ [p]) w1 = emitted_all (e_flate E) ps w1 @ z @ sync_tail"
      using st(2) s0 by (simp add: emitted_all_snoc)
    with cx' ap st(1) None show ?thesis
      by (intro exI [of _ cc1] exI [of _ z] exI [of _ w1] exI [of _ None] exI [of _ cm'])
         (simp add: cc1_def w1_def add_ref_def)
  next
    case (Some aw)
    obtain a win where aw: "aw = (a, win)" by (cases aw)
    have w: "cc_window cc = Some (a, win)" using Some aw by simp
    obtain k where k: "pend_ok cc" "Size win = ?m" "cc_hist cc = lastn ?m (h @ concat ps)"
      "ps \<noteq> [] \<Longrightarrow> lastn ?m (hst w0) = lastn ?m h" "gen win = of_nat k" "k + length (cc_pending cc) \<le> n"
      "comp_inv hst ?m k a win cm" "ps \<noteq> [] \<Longrightarrow> cattached cm = Some a \<and> cgen cm = gen win \<and> cc_pending cc = []"
      using cx w cfg(1) by (auto simp: cx_def)
    define win1 where "win1 = fold (add_win (e_gc E)) (map pr_payload (cc_pending cc)) win"
    define cc1 where "cc1 = cc\<lparr>cc_window := Some (a, win1), cc_pending := [], cc_pendingBytes := 0\<rparr>"
    have ap: "applyPending E cc = Some cc1" using applyPending_ok [OF w] by (simp add: cc1_def win1_def)
    note ah = cc_hist_apply [OF k(1) ap]
    have d1: "dict (Some win1) = lastn ?m (h @ concat ps)" using ah(4) k(3) by (simp add: cc1_def win_of_def)
    have s1: "Size win1 = ?m" by (simp add: win1_def fold_add_win k)
    obtain k1 where "k1 \<le> k + length (cc_pending cc)" "gen win1 = of_nat k1" "comp_inv hst ?m k1 a win1 cm"
      using fold_add_comp_inv [OF k(5), of "\<lambda>c. c = cm" hst ?m a "map pr_payload (cc_pending cc)" "e_gc E"] k(7)
      unfolding win1_def [symmetric] length_map by blast
    then have k1: "k1 \<le> n" "gen win1 = of_nat k1" "comp_inv hst ?m k1 a win1 cm" using k(6) by simp_all
    have md: "mid cm \<longrightarrow> cattached cm = Some a \<and> cgen cm = gen win1" using k(8) cfg(4) by (auto simp: win1_def)
    define s0 where "s0 = writer (start_chunk (e_flate E) (Some (a, win1)) cm)"
    have h0: "lastn ?m (hst s0) = lastn ?m (dict (Some win1))"
      unfolding s0_def by (rule start_in_step [OF F k1(3,2) _ md]) (use k1(1) n in simp)
    obtain z cm' where st: "CompressChunk (e_flate E) (e_gc E) p (Some (a, win1)) final cm
        = (Inr (if final then z else z @ sync_tail), Some (a, add_win (e_gc E) p win1), cm')"
      "emitted (e_flate E) p s0 = z @ sync_tail" "writer cm' = flushed (e_flate E) p s0" "mid cm' = (\<not> final)"
      "cattached cm' = Some a" "cwindow cm' = cwindow cm" "cgen cm' = gen (add_win (e_gc E) p win1)"
      using CompressChunk_step [OF F s0_def, of "e_gc E" p final] by (auto simp: add_ref_def)
    define w1 where "w1 = (if ps = [] then s0 else w0)"
    have sw: "s0 = flushed_all (e_flate E) ps w1"
      using cfg start_continues [of "Some (a, win1)" cm "e_flate E"] by (auto simp: w1_def s0_def continues_def)
    have hw: "lastn ?m (hst w1) = lastn ?m h"
      using h0 d1 k(4) by (auto simp: w1_def)
    have ci: "comp_inv hst ?m (k1 + changes p) a (add_win (e_gc E) p win1) cm'"
      by (rule comp_inv_chunk [OF F h0 s1 st(3) _ st(7) k1(2)]) (simp add: st cfg)
    let ?cc2 = "cc1\<lparr>cc_window := Some (a, add_win (e_gc E) p win1)\<rparr>"
    have "cc_hist ?cc2 = lastn ?m (h @ concat (ps @ [p]))"
      by (simp add: cc1_def cc_hist_def cc_size_def win_of_def pend_data_def add_win_correct s1 d1)
    moreover have "pend_ok ?cc2" using ah(1) by (simp add: pend_ok_def pend_data_def)
    moreover have "k1 + changes p \<le> Suc n" using k1(1) by (simp add: changes_def)
    ultimately have cx': "cx (e_flate E) hst (Suc n) h (ps @ [p]) w1 final ?cc2 cm'"
      unfolding cx_def using st(3-7) cfg(1-3) hw sw ci gen_add_win [OF k1(2), of "e_gc E" p]
      by (intro exI [of _ cfg]) (simp add: cc1_def add_win_correct(2) s1, intro exI [of _ "k1 + changes p"], simp)
    have "emitted_all (e_flate E) (ps @ [p]) w1 = emitted_all (e_flate E) ps w1 @ z @ sync_tail"
      using st(2) sw by (simp add: emitted_all_snoc)
    with cx' ap st(1) w show ?thesis
      by (intro exI [of _ cc1] exI [of _ z] exI [of _ w1] exI [of _ "Some (a, add_win (e_gc E) p win1)"] exI [of _ cm'])
         (simp add: cc1_def w1_def)
  qed
qed

text \<open>A complete message decodes for a peer whose history ends as the sender's does.\<close>

lemma cx_decodes:
  assumes cx: "cx F hst n h ps w0 fin cc cm" and ne: "ps \<noteq> []" and cfg: "cc_config cc = Some cfg"
    and dec: "flate_decodes F hst inflated (cfg_window cfg)"
    and D: "cc_window cc \<noteq> None \<longrightarrow> suffix (lastn (cfg_window cfg) h) D"
  shows "inflated D (emitted_all F ps w0) = Some (concat ps)"
proof -
  have "suffix (lastn (cfg_window cfg) (hst w0)) D"
    using cx ne cfg D by (cases "cc_window cc") (auto simp: cx_def)
  with dec ne show ?thesis by (simp add: flate_decodes_def)
qed

end
