(* ===== verification/ConnWrite_Msgs.thy ===== *)
theory ConnWrite_Msgs
  imports ConnWrite_Props
begin

text \<open>
  Whole messages on the wire: every call that sends appends well-formed frames to what the peer
  receives, and a peer that reassembles and inflates them gets the payloads back.
\<close>

section \<open>Frames\<close>

definition tx_ready :: "sender \<Rightarrow> bool" where
  "tx_ready tx \<longleftrightarrow> sender_inv tx \<and> \<not> closeSent tx"

lemma encodeFrame_goes:
  assumes "\<not> closeSent s" "op \<in> {Text, Binary, Continuation} \<or> op \<in> {Ping, Pong} \<and> final \<and> length payload \<le> 125 \<and> \<not> compressed" "length rnd = 4"
  shows "\<exists>h b s'. encodeFrame gc rnd op final payload compressed s = (Inr (h, b), s')"
proof -
  have k: "key_ok (if tx_role s = Client then Some rnd else None)" using assms(3) by simp
  have c: "check_frame final op payload = None" using assms(2) by (auto simp: check_frame_def)
  let ?k = "if tx_role s = Client then Some rnd else None"
  have co: "compressed \<Longrightarrow> op = Text \<or> op = Binary \<or> op = Continuation" using assms(2) by auto
  have "\<exists>enc. (if compressed then EncodeCompressed gc final op payload ?k (tx_enc s)
     else Encode gc final op payload ?k (tx_enc s)) = (None, enc)"
  proof (cases compressed)
    case True
    then show ?thesis using EncodeCompressed_ok(1) [OF co k refl, of gc final payload "tx_enc s"]
      by (cases "EncodeCompressed gc final op payload ?k (tx_enc s)") simp
  next
    case False
    then show ?thesis using Encode_ok(1) [OF c k, of gc "tx_enc s"]
      by (cases "Encode gc final op payload ?k (tx_enc s)") simp
  qed
  then obtain enc where e: "(if compressed then EncodeCompressed gc final op payload ?k (tx_enc s)
     else Encode gc final op payload ?k (tx_enc s)) = (None, enc)" ..
  show ?thesis
    using assms(1) e by (cases compressed; cases "tx_role s"; simp add: encodeFrame_def Let_def)
qed

text \<open>A call that is allowed succeeds while no close frame has been sent.\<close>

definition call_ok :: "tx_call \<Rightarrow> bool" where
  "call_ok c = (case c of
      TxEncode op p \<Rightarrow> op \<in> {Text, Binary} \<or> op \<in> {Ping, Pong} \<and> length p \<le> 125
    | TxCompressed op p \<Rightarrow> op \<in> {Text, Binary}
    | TxFragment op final p compressed \<Rightarrow> op \<in> {Text, Binary, Continuation}
    | TxClose code reason \<Rightarrow> False)"

lemma tx_step_goes:
  assumes ok: "call_ok c" and rd: "tx_ready tx" and r: "length rnd = 4" and fr: "tx_frame c = (op, final, p, rsv1)"
  shows "\<exists>h b tx'. tx_step gc rnd c tx = (Inr (h, b), tx') \<and> tx_ready tx' \<and> tx_role tx' = tx_role tx
    \<and> h @ b = wire_frame op final rsv1 (tx_key_of tx rnd) p"
proof -
  have ns: "\<not> closeSent tx" using rd by (simp add: tx_ready_def)
  have "\<exists>h b tx'. tx_step gc rnd c tx = (Inr (h, b), tx')"
    using ok ns encodeFrame_goes [OF ns _ r] 
    by (cases c) (auto simp: call_ok_def sender_Encode_def sender_EncodeCompressed_def EncodeFragment_def encode_checked_def)
  then obtain h b tx' where st: "tx_step gc rnd c tx = (Inr (h, b), tx')" by blast
  have inv: "sender_inv tx" using rd by (simp add: tx_ready_def)
  from tx_step_sent [OF st r inv] fr have s: "sent rnd (op, final, p, rsv1) tx (h @ b) tx'" by simp
  have "op \<noteq> Close" using ok fr by (cases c) (auto simp: call_ok_def)
  with s st ns sender_inv_step [OF inv, of gc rnd c] show ?thesis
    by (auto simp: sent_def tx_ready_def)
qed

definition wout :: "'w wconn \<Rightarrow> bytes" where "wout c = n_out (w_net c)"

text \<open>What stays as it is when a frame goes out.\<close>

definition same_side :: "'w wconn \<Rightarrow> 'w wconn \<Rightarrow> bool" where
  "same_side c c' \<longleftrightarrow> w_comp c' = w_comp c \<and> w_frag c' = w_frag c \<and> w_pools c' = w_pools c \<and> w_role c' = w_role c
     \<and> w_fragmentSize c' = w_fragmentSize c"

definition net_ready :: "'w wconn \<Rightarrow> bool" where
  "net_ready c \<longleftrightarrow> tx_ready (w_tx c) \<and> w_queue c = None \<and> n_script (w_net c) = [] \<and> tx_role (w_tx c) = w_role c"

definition key_for :: "Role \<Rightarrow> bytes option \<Rightarrow> bool" where
  "key_for role k \<longleftrightarrow> (case k of None \<Rightarrow> role = Server | Some b \<Rightarrow> role = Client \<and> length b = 4)"

type_synonym frame = "opcode \<times> bool \<times> bool \<times> bytes"

text \<open>\<open>wired role b frs\<close>: the bytes \<open>b\<close> are the frames \<open>frs\<close> as an endpoint of this role sends them.\<close>

inductive wired :: "Role \<Rightarrow> bytes \<Rightarrow> frame list \<Rightarrow> bool" for role where
  wired_Nil: "wired role [] []"
| wired_Cons: "key_for role key \<Longrightarrow> wired role b frs \<Longrightarrow>
     wired role (wire_frame op final rsv1 key p @ b) ((op, final, rsv1, p) # frs)"

lemma wired_append: "wired role b frs \<Longrightarrow> wired role b' frs' \<Longrightarrow> wired role (b @ b') (frs @ frs')"
  by (induction rule: wired.induct) (auto intro: wired.intros)

lemma wired_one: "key_for role key \<Longrightarrow> wired role (wire_frame op final rsv1 key p) [(op, final, rsv1, p)]"
  using wired_Cons [OF _ wired_Nil] by fastforce

definition rand_ok :: "'w env \<Rightarrow> bool" where
  "rand_ok E \<longleftrightarrow> (\<forall>k. length (e_rand E k) = 4)"

lemma net_write_ok: "n_script n = [] \<Longrightarrow> net_write b n = (None, n\<lparr>n_out := n_out n @ b\<rparr>)"
  by (simp add: net_write_def)

lemma conn_write_ok:
  assumes "n_script (w_net c) = []"
  shows "conn_write header body c = (None, c\<lparr>w_net := (w_net c)\<lparr>n_out := n_out (w_net c) @ header @ body\<rparr>\<rparr>)"
  using assms by (auto simp: conn_write_def net_write_ok Let_def)

lemma with_tx_goes:
  assumes ok: "call_ok call" and rd: "net_ready c" and r: "rand_ok E" and fr: "tx_frame call = (op, final, p, rsv1)"
  shows "\<exists>h b c1. with_tx E (\<lambda>gc rnd. tx_step gc rnd call) c = (Inr (h, b), c1) \<and> net_ready c1 \<and> same_side c c1 \<and> w_net c1 = w_net c
    \<and> (\<exists>key. key_for (w_role c) key \<and> h @ b = wire_frame op final rsv1 key p)"
proof -
  let ?rnd = "e_rand E (w_tick c)"
  have l: "length ?rnd = 4" using r by (simp add: rand_ok_def)
  obtain h b tx' where st: "tx_step (e_gc E) ?rnd call (w_tx c) = (Inr (h, b), tx')" "tx_ready tx'" "tx_role tx' = tx_role (w_tx c)"
    "h @ b = wire_frame op final rsv1 (tx_key_of (w_tx c) ?rnd) p"
    using tx_step_goes [OF ok _ l fr, of "w_tx c" "e_gc E"] rd by (auto simp: net_ready_def)
  have "key_for (w_role c) (tx_key_of (w_tx c) ?rnd)"
    using rd l by (cases "w_role c") (auto simp: key_for_def tx_key_of_def net_ready_def)
  with st rd show ?thesis by (auto simp: with_tx_def net_ready_def same_side_def)
qed

lemma sendFrame_ok:
  assumes "net_ready c"
  shows "\<exists>c'. sendFrame h b c = ((None, None), c') \<and> net_ready c' \<and> same_side c c' \<and> wout c' = wout c @ h @ b"
  using assms by (auto simp: sendFrame_def net_ready_def same_side_def wout_def conn_write_ok)

lemma frame_goes:
  assumes "call_ok call" "net_ready c" "rand_ok E" "tx_frame call = (op, final, p, rsv1)"
  shows "\<exists>h b c1 c'. with_tx E (\<lambda>gc rnd. tx_step gc rnd call) c = (Inr (h, b), c1) \<and> sendFrame h b c1 = ((None, None), c')
    \<and> net_ready c' \<and> same_side c c' \<and> same_side c c1 \<and> net_ready c1 \<and> wout c1 = wout c
    \<and> (\<exists>out. wout c' = wout c @ out \<and> wired (w_role c) out [(op, final, rsv1, p)])"
proof -
  obtain h b c1 key where 1: "with_tx E (\<lambda>gc rnd. tx_step gc rnd call) c = (Inr (h, b), c1)" "net_ready c1" "same_side c c1" "w_net c1 = w_net c"
    "key_for (w_role c) key" "h @ b = wire_frame op final rsv1 key p"
    using with_tx_goes [OF assms] by blast
  obtain c' where 2: "sendFrame h b c1 = ((None, None), c')" "net_ready c'" "same_side c1 c'" "wout c' = wout c1 @ h @ b"
    using sendFrame_ok [OF 1(2)] by blast
  have "wout c1 = wout c" using 1(4) by (simp add: wout_def)
  moreover have "same_side c c'" using 1(3) 2(3) by (simp add: same_side_def)
  moreover have "wired (w_role c) (h @ b) [(op, final, rsv1, p)]" using 1(5,6) by (simp add: wired_one)
  ultimately show ?thesis using 1(1,2,3) 2 by (intro exI [of _ h] exI [of _ b] exI [of _ c1] exI [of _ c']) auto
qed

section \<open>One message\<close>

lemma tx_step_calls [simp]:
  "tx_step gc rnd (TxEncode op p) = sender_Encode gc rnd op p"
  "tx_step gc rnd (TxCompressed op p) = sender_EncodeCompressed gc rnd op p"
  "tx_step gc rnd (TxFragment op final p cmp) = EncodeFragment gc rnd op final p cmp"
  by (simp_all add: fun_eq_iff)

lemma unless_panic_Inr [simp]: "unless_panic (Inr z, r) = Some (Inr z, r)"
  by (simp add: unless_panic_def)

definition takeover :: "'w wconn \<Rightarrow> bool" where
  "takeover c \<longleftrightarrow> cc_window (w_comp c) \<noteq> None"

definition shape :: "'w wconn \<Rightarrow> Role \<times> Compression option \<times> bool \<times> int" where
  "shape c = (w_role c, cc_config (w_comp c), takeover c, w_fragmentSize c)"

definition wreach :: "'w wconn \<Rightarrow> nat" where
  "wreach c = (case cc_config (w_comp c) of None \<Rightarrow> 0 | Some cfg \<Rightarrow> cfg_window cfg)"

text \<open>A message \<open>z\<close> as sent stands for \<open>payload\<close>, for a peer that has decoded \<open>h\<close>.\<close>

definition stands_for ::
    "(bytes \<Rightarrow> bytes \<Rightarrow> bytes option) \<Rightarrow> 'w wconn \<Rightarrow> bytes \<Rightarrow> bool \<Rightarrow> bytes \<Rightarrow> bytes \<Rightarrow> bool" where
  "stands_for inflated c h cmpd z payload =
    (if cmpd then (\<forall>D. (takeover c \<longrightarrow> suffix (lastn (wreach c) h) D) \<longrightarrow> inflated D (z @ sync_tail) = Some payload)
     else z = payload)"

definition wc_ok :: "('w \<Rightarrow> bytes) \<Rightarrow> nat \<Rightarrow> bytes \<Rightarrow> 'w wconn \<Rightarrow> bool" where
  "wc_ok hst n h c \<longleftrightarrow> net_ready c \<and> fr_op (w_frag c) = 0 \<and> \<not> fr_held (w_frag c)
     \<and> comp_pools_ok (w_pools c) \<and> cc_ok hst n h (w_comp c)"

definition decoder_ok :: "'w env \<Rightarrow> ('w \<Rightarrow> bytes) \<Rightarrow> (bytes \<Rightarrow> bytes \<Rightarrow> bytes option) \<Rightarrow> 'w wconn \<Rightarrow> bool" where
  "decoder_ok E hst inflated c \<longleftrightarrow> flate_history (e_flate E) hst \<and> flate_decodes (e_flate E) hst inflated (wreach c) \<and> rand_ok E"

lemma shape_wreach: "shape c' = shape c \<Longrightarrow> wreach c' = wreach c \<and> takeover c' = takeover c \<and> w_role c' = w_role c"
  by (simp add: shape_def wreach_def)

lemma cc_ok_Suc: "cc_ok hst n h cc \<Longrightarrow> cc_ok hst (Suc n) h cc"
  unfolding cc_ok_def by (fastforce split: option.splits)

lemma cc_ok_scratch [simp]: "cc_ok hst n h (cc\<lparr>cc_scratch := b\<rparr>) = cc_ok hst n h cc"
  by (simp add: cc_ok_def pend_ok_def cc_hist_def cc_size_def win_of_def pend_data_def split: option.split)

lemma cc_attached_same: "cc_attached cc = x \<Longrightarrow> cc\<lparr>cc_attached := x\<rparr> = cc"
  by auto

text \<open>The compressor a message is sent with, and the context afterwards.\<close>

lemma compress_message:
  assumes dok: "decoder_ok E hst inflated c" and ok: "cc_ok hst n h cc" and n: "n < 2 ^ 64"
    and c: "w_comp c = cc" "cc_config cc = Some cfg" and cm: "cc_attached cc = Some cm \<or> fresh (cfg_window cfg) cm"
  shows "\<exists>cc1 z w' cm'. applyPending E cc = Some cc1 \<and> cc_attached cc1 = cc_attached cc \<and> cc_config cc1 = cc_config cc
     \<and> cc_shared cc1 = cc_shared cc \<and> (cc_window cc1 = None) = (cc_window cc = None) \<and> (w' = None) = (cc_window cc = None)
     \<and> Compress (e_flate E) (e_gc E) payload (cc_window cc1) cm = (Inr z, w', cm')
     \<and> stands_for inflated c h True z payload \<and> cwindow cm' = cfg_window cfg
     \<and> cc_ok hst (Suc n) (h @ payload) (cc1\<lparr>cc_window := w', cc_attached := None\<rparr>)
     \<and> (cc_window cc \<noteq> None \<longrightarrow> cc_ok hst (Suc n) (h @ payload) (cc1\<lparr>cc_window := w', cc_attached := Some cm'\<rparr>))"
proof -
  have F: "flate_history (e_flate E) hst" using dok by (simp add: decoder_ok_def)
  have m: "wreach c = cfg_window cfg" using c by (simp add: wreach_def)
  obtain cc1 z w1 w' cm' where st: "applyPending E cc = Some cc1" "cc_attached cc1 = cc_attached cc"
    "(cc_window cc1 = None) = (cc_window cc = None)" "(w' = None) = (cc_window cc = None)"
    "cc_shared cc1 = cc_shared cc" "cc_config cc1 = cc_config cc"
    "CompressChunk (e_flate E) (e_gc E) payload (cc_window cc1) True cm = (Inr z, w', cm')"
    "emitted_all (e_flate E) [payload] w1 = z @ sync_tail"
    "cx (e_flate E) hst (Suc n) h [payload] w1 True (cc1\<lparr>cc_window := w'\<rparr>) cm'"
    using cx_step [OF F cx_begin [OF ok c(2) cm] n, where p = payload and final = True] by fastforce
  have "inflated D (z @ sync_tail) = Some payload" if "takeover c \<longrightarrow> suffix (lastn (wreach c) h) D" for D
    using cx_decodes [OF st(9), of cfg inflated D] st(4,6,8) c dok m that by (simp add: decoder_ok_def takeover_def)
  then have "stands_for inflated c h True z payload" by (simp add: stands_for_def)
  moreover have "cwindow cm' = cfg_window cfg" using st(6,9) c(2) by (auto simp: cx_def)
  ultimately show ?thesis
    using st cx_end [OF st(9)]
    by (intro exI [of _ cc1] exI [of _ z] exI [of _ w'] exI [of _ cm']) (simp add: Compress_def)
qed

lemma put_back_ok:
  assumes "cc_config (w_comp c) = Some cfg" "cfg_ok cfg" "comp_pools_ok (w_pools c)" "cwindow cm = cfg_window cfg"
  shows "\<exists>ps. put_back E cm c = Some (c\<lparr>w_pools := ps\<rparr>) \<and> comp_pools_ok ps"
  using putCompressor_ok [OF assms(2,3,4), of "e_flate E"] assms(1) by (auto simp: put_back_def)

definition encoded ::
    "(bytes \<Rightarrow> bytes \<Rightarrow> bytes option) \<Rightarrow> ('w \<Rightarrow> bytes) \<Rightarrow> nat \<Rightarrow> bytes \<Rightarrow> opcode \<Rightarrow> bytes \<Rightarrow> 'w wconn \<Rightarrow> bytes \<Rightarrow> 'w wconn \<Rightarrow> bool" where
  "encoded inflated hst n h op payload c fr c1 \<longleftrightarrow>
     net_ready c1 \<and> w_net c1 = w_net c \<and> w_frag c1 = w_frag c \<and> comp_pools_ok (w_pools c1) \<and> shape c1 = shape c
     \<and> (\<exists>key cmpd z. key_for (w_role c) key \<and> fr = wire_frame op True cmpd key z
          \<and> stands_for inflated c h cmpd z payload \<and> (cmpd \<longrightarrow> cc_config (w_comp c) \<noteq> None)
          \<and> cc_ok hst (Suc n) (if cmpd then h @ payload else h) (w_comp c1))"

lemma encodedI:
  assumes "net_ready c1" "w_net c1 = w_net c" "w_frag c1 = w_frag c" "comp_pools_ok (w_pools c1)" "shape c1 = shape c"
    "key_for (w_role c) key" "fr = wire_frame op True cmpd key z" "stands_for inflated c h cmpd z payload"
    "cmpd \<longrightarrow> cc_config (w_comp c) \<noteq> None" "cc_ok hst (Suc n) (if cmpd then h @ payload else h) (w_comp c1)"
  shows "encoded inflated hst n h op payload c fr c1"
  using assms unfolding encoded_def by blast

lemma encodeData_ok:
  assumes dok: "decoder_ok E hst inflated c" and ok: "wc_ok hst n h c" and n: "n < 2 ^ 64" and op: "op \<in> {Text, Binary}"
  shows "\<exists>hd b c1. encodeData E op payload c = Some (Inr (hd, b), c1) \<and> encoded inflated hst n h op payload c (hd @ b) c1"
proof -
  have rd: "net_ready c" and ps: "comp_pools_ok (w_pools c)" and cok: "cc_ok hst n h (w_comp c)"
    using ok by (simp_all add: wc_ok_def)
  have F: "flate_history (e_flate E) hst" and r: "rand_ok E" using dok by (simp_all add: decoder_ok_def)
  show ?thesis
  proof (cases "cc_config (w_comp c) = None \<or> int (length payload) < cc_minSize (w_comp c)")
    case True
    have "call_ok (TxEncode op payload)" using op by (auto simp: call_ok_def)
    from with_tx_goes [OF this rd r tx_frame.simps(1)]
    obtain hd b c1 key where t: "with_tx E (\<lambda>gc rnd. sender_Encode gc rnd op payload) c = (Inr (hd, b), c1)" "net_ready c1" "same_side c c1"
      "w_net c1 = w_net c" "key_for (w_role c) key" "hd @ b = wire_frame op True False key payload" by auto
    have "encoded inflated hst n h op payload c (hd @ b) c1"
      using t ps cok by (intro encodedI [where key = key and cmpd = False and z = payload])
        (simp_all add: same_side_def shape_def takeover_def stands_for_def cc_ok_Suc)
    with True t(1) show ?thesis by (simp add: encodeData_def)
  next
    case False
    then obtain cfg where cfg: "cc_config (w_comp c) = Some cfg" by auto
    have cfgok: "cfg_ok cfg" using cok cfg by (simp add: cc_ok_def)
    have comp_ok: "call_ok (TxCompressed op z)" for z using op by (simp add: call_ok_def)
    obtain cm ps1 t1 where pick:
      "\<And>cc1. cc_attached cc1 = cc_attached (w_comp c) \<Longrightarrow> cc_config cc1 = Some cfg \<Longrightarrow> cc_shared cc1 = cc_shared (w_comp c) \<Longrightarrow>
         (cc_window cc1 = None) = (cc_window (w_comp c) = None) \<Longrightarrow>
         compressorFor E (c\<lparr>w_comp := cc1\<rparr>) =
           (if cc_attached (w_comp c) = None \<and> (cc_window (w_comp c) = None \<or> cc_shared (w_comp c))
            then Some (Some cm, True, c\<lparr>w_comp := cc1, w_pools := ps1, w_tick := t1\<rparr>)
            else Some (Some cm, False, c\<lparr>w_comp := cc1\<lparr>cc_attached := Some cm\<rparr>, w_pools := ps1, w_tick := t1\<rparr>))"
      and ps1: "comp_pools_ok ps1"
      and cm: "cc_attached (w_comp c) = Some cm \<or> fresh (cfg_window cfg) cm"
    proof (cases "cc_attached (w_comp c)")
      case (Some cm)
      have eq: "compressorFor E (c\<lparr>w_comp := cc1\<rparr>) =
          Some (Some cm, False, c\<lparr>w_comp := cc1\<lparr>cc_attached := Some cm\<rparr>, w_pools := w_pools c, w_tick := w_tick c\<rparr>)"
        if "cc_attached cc1 = cc_attached (w_comp c)" for cc1
        using that Some by (simp add: compressorFor_def cc_attached_same)
      show thesis by (rule that [of cm "w_tick c" "w_pools c"]) (use eq ps Some in simp_all)
    next
      case None
      obtain cm ps1 where g: "getCompressor (e_flate E) (e_pick E (w_tick c)) cfg (w_pools c) = Some (Some cm, ps1)"
        "fresh (cfg_window cfg) cm" "comp_pools_ok ps1"
        using getCompressor_ok [OF F cfgok ps] by blast
      show thesis by (rule that [of cm "Suc (w_tick c)" ps1]) (use g None in \<open>auto simp: compressorFor_def Let_def\<close>)
    qed
    obtain cc1 z w' cm' where st: "applyPending E (w_comp c) = Some cc1" "cc_attached cc1 = cc_attached (w_comp c)"
      "cc_config cc1 = cc_config (w_comp c)" "cc_shared cc1 = cc_shared (w_comp c)"
      "(cc_window cc1 = None) = (cc_window (w_comp c) = None)" "(w' = None) = (cc_window (w_comp c) = None)"
      "Compress (e_flate E) (e_gc E) payload (cc_window cc1) cm = (Inr z, w', cm')"
      "stands_for inflated c h True z payload" "cwindow cm' = cfg_window cfg"
      "cc_ok hst (Suc n) (h @ payload) (cc1\<lparr>cc_window := w', cc_attached := None\<rparr>)"
      "cc_window (w_comp c) \<noteq> None \<longrightarrow> cc_ok hst (Suc n) (h @ payload) (cc1\<lparr>cc_window := w', cc_attached := Some cm'\<rparr>)"
      using compress_message [OF dok cok n refl cfg cm, of payload] by (elim exE conjE) (rule that)
    note pk = pick [OF st(2) st(3) [unfolded cfg] st(4,5)]
    show ?thesis
    proof (cases "cc_attached (w_comp c) = None \<and> (cc_window (w_comp c) = None \<or> cc_shared (w_comp c))")
      case sh: True
      define c2 where "c2 = c\<lparr>w_pools := ps1, w_tick := t1, w_comp := cc1\<lparr>cc_window := w'\<rparr>\<rparr>"
      have rd2: "net_ready c2" using rd by (simp add: c2_def net_ready_def)
      from with_tx_goes [OF comp_ok [of z] rd2 r tx_frame.simps(2)]
      obtain hd b c3 key where t: "with_tx E (\<lambda>gc rnd. sender_EncodeCompressed gc rnd op z) c2 = (Inr (hd, b), c3)" "net_ready c3" "same_side c2 c3"
        "w_net c3 = w_net c2" "key_for (w_role c2) key" "hd @ b = wire_frame op True True key z" by auto
      define c4 where "c4 = c3\<lparr>w_comp := (w_comp c3)\<lparr>cc_scratch := b\<rparr>\<rparr>"
      have c4: "cc_config (w_comp c4) = Some cfg" "comp_pools_ok (w_pools c4)"
        using t(3) ps1 cfg st(3) by (simp_all add: c4_def c2_def same_side_def)
      obtain ps4 where pb: "put_back E cm' c4 = Some (c4\<lparr>w_pools := ps4\<rparr>)" "comp_pools_ok ps4"
        using put_back_ok [OF c4(1) cfgok c4(2) st(9)] by blast
      have att: "cc_ok hst (Suc n) (h @ payload) (cc1\<lparr>cc_window := w'\<rparr>)"
        using st(10) cc_attached_same [of "cc1\<lparr>cc_window := w'\<rparr>" None] st(2) sh by simp
      have "encodeData E op payload c = Some (Inr (hd, b), c4\<lparr>w_pools := ps4\<rparr>)"
        using False sh st pk cfg t(1) pb unfolding c4_def c2_def
        by (simp add: encodeData_def cfg unless_panic_def)
      moreover have "encoded inflated hst n h op payload c (hd @ b) (c4\<lparr>w_pools := ps4\<rparr>)"
        using t pb st(3,6,8) att cfg
        by (intro encodedI [where key = key and cmpd = True and z = z])
           (auto simp: c4_def c2_def same_side_def shape_def takeover_def net_ready_def)
      ultimately show ?thesis by blast
    next
      case nsh: False
      have w: "cc_window (w_comp c) \<noteq> None" using nsh cok cfg by (auto simp: cc_ok_def split: option.splits)
      define c2 where "c2 = c\<lparr>w_pools := ps1, w_tick := t1, w_comp := cc1\<lparr>cc_window := w', cc_attached := Some cm'\<rparr>\<rparr>"
      have rd2: "net_ready c2" using rd by (simp add: c2_def net_ready_def)
      from with_tx_goes [OF comp_ok [of z] rd2 r tx_frame.simps(2)]
      obtain hd b c3 key where t: "with_tx E (\<lambda>gc rnd. sender_EncodeCompressed gc rnd op z) c2 = (Inr (hd, b), c3)" "net_ready c3" "same_side c2 c3"
        "w_net c3 = w_net c2" "key_for (w_role c2) key" "hd @ b = wire_frame op True True key z" by auto
      have pkn: "compressorFor E (c\<lparr>w_comp := cc1\<rparr>)
          = Some (Some cm, False, c\<lparr>w_comp := cc1\<lparr>cc_attached := Some cm\<rparr>, w_pools := ps1, w_tick := t1\<rparr>)"
        unfolding pk if_not_P [OF nsh] ..
      have "encodeData E op payload c = Some (Inr (hd, b), c3)"
        using False st pkn cfg t(1) unfolding c2_def
        by (simp add: encodeData_def cfg unless_panic_def)
      moreover have "encoded inflated hst n h op payload c (hd @ b) c3"
        using t st(3,6,8,11) cfg w ps1
        by (intro encodedI [where key = key and cmpd = True and z = z])
           (auto simp: c2_def same_side_def shape_def takeover_def)
      ultimately show ?thesis by blast
    qed
  qed
qed

end
