(* ===== verification/ConnWrite_Stream.thy ===== *)
theory ConnWrite_Stream
  imports ConnWrite_Msgs
begin

text \<open>
  Streams of messages: single frames, prepared messages and fragmented messages in any order, as
  the peer reassembles and inflates them.
\<close>

section \<open>Messages on the wire\<close>

fun msg_frames :: "opcode \<Rightarrow> bool \<Rightarrow> bytes list \<Rightarrow> frame list" where
  "msg_frames op cmpd [] = []"
| "msg_frames op cmpd [z] = [(op, True, cmpd, z)]"
| "msg_frames op cmpd (z # y # ys) = (op, False, cmpd, z) # msg_frames Continuation False (y # ys)"

text \<open>How a message is cut into frames: at least one, a control message into one, compressed only when negotiated.\<close>

definition framed :: "bool \<Rightarrow> opcode \<times> bool \<times> bytes list \<Rightarrow> bool" where
  "framed pmd = (\<lambda>(op, cmpd, zs). zs \<noteq> [] \<and> (cmpd \<longrightarrow> pmd) \<and> (op \<in> {Ping, Pong} \<longrightarrow> \<not> cmpd \<and> length zs = 1))"

lemma framed_data: "op \<in> {Text, Binary} \<Longrightarrow> zs \<noteq> [] \<Longrightarrow> (cmpd \<longrightarrow> pmd) \<Longrightarrow> framed pmd (op, cmpd, zs)"
  by (auto simp: framed_def Text_def Binary_def Ping_def Pong_def)

lemma framed_one [simp]: "framed pmd (op, False, [z])"
  by (simp add: framed_def)

definition delivers ::
    "(bytes \<Rightarrow> bytes \<Rightarrow> bytes option) \<Rightarrow> ('w \<Rightarrow> bytes) \<Rightarrow> nat \<Rightarrow> nat \<Rightarrow> bytes \<Rightarrow> opcode \<Rightarrow> bytes \<Rightarrow> 'w wconn \<Rightarrow> 'w wconn \<Rightarrow> bool" where
  "delivers inflated hst n n' h op payload c c' \<longleftrightarrow>
     (\<exists>out cmpd zs. wout c' = wout c @ out \<and> wired (w_role c) out (msg_frames op cmpd zs)
        \<and> stands_for inflated c h cmpd (concat zs) payload \<and> framed (cc_config (w_comp c) \<noteq> None) (op, cmpd, zs)
        \<and> wc_ok hst n' (if cmpd then h @ payload else h) c' \<and> shape c' = shape c)"

lemma deliversI:
  assumes "wout c' = wout c @ out" "wired (w_role c) out (msg_frames op cmpd zs)" "stands_for inflated c h cmpd (concat zs) payload"
    "framed (cc_config (w_comp c) \<noteq> None) (op, cmpd, zs)" "wc_ok hst n' (if cmpd then h @ payload else h) c'" "shape c' = shape c"
  shows "delivers inflated hst n n' h op payload c c'"
  using assms unfolding delivers_def by blast

lemma Write_ok:
  assumes dok: "decoder_ok E hst inflated c" and ok: "wc_ok hst n h c" and n: "n < 2 ^ 64" and op: "op \<in> {Text, Binary}"
  shows "\<exists>c'. Write E op payload c = Some ((None, None), c') \<and> delivers inflated hst n (Suc n) h op payload c c'"
proof -
  obtain hd b c1 where e: "encodeData E op payload c = Some (Inr (hd, b), c1)" "encoded inflated hst n h op payload c (hd @ b) c1"
    using encodeData_ok [OF assms] by blast
  then obtain key cmpd z where k: "net_ready c1" "w_net c1 = w_net c" "w_frag c1 = w_frag c" "comp_pools_ok (w_pools c1)" "shape c1 = shape c"
    "key_for (w_role c) key" "hd @ b = wire_frame op True cmpd key z" "stands_for inflated c h cmpd z payload" "cmpd \<longrightarrow> cc_config (w_comp c) \<noteq> None"
    "cc_ok hst (Suc n) (if cmpd then h @ payload else h) (w_comp c1)"
    unfolding encoded_def by (elim exE conjE) (rule that)
  obtain c' where s: "sendFrame hd b c1 = ((None, None), c')" "net_ready c'" "same_side c1 c'" "wout c' = wout c1 @ hd @ b"
    using sendFrame_ok [OF k(1)] by blast
  have fr: "fr_op (w_frag c) = 0" "\<not> fr_held (w_frag c)" using ok by (simp_all add: wc_ok_def)
  have "delivers inflated hst n (Suc n) h op payload c c'"
    by (rule deliversI [where out = "hd @ b" and cmpd = cmpd and zs = "[z]"])
       (use s k fr wired_one [OF k(6)] framed_data [OF op] in \<open>simp_all add: wout_def wc_ok_def same_side_def shape_def takeover_def\<close>)
  with e(1) s(1) fr op show ?thesis by (simp add: Write_def)
qed

section \<open>Prepared messages\<close>

definition prep_ok :: "(bytes \<Rightarrow> bytes \<Rightarrow> bytes option) \<Rightarrow> Prepared \<Rightarrow> bool" where
  "prep_ok inflated p \<longleftrightarrow> pr_op p \<in> {Text, Binary}
     \<and> pr_frame p = wire_frame (pr_op p) True False None (pr_payload p)
     \<and> (\<forall>kf\<in>set (pr_variants p). \<exists>z. snd kf = wire_frame (pr_op p) True True None z
          \<and> (\<forall>D. inflated D (z @ sync_tail) = Some (pr_payload p)))"

lemma plain_frame:
  assumes "op \<in> {Text, Binary}"
  shows "\<exists>enc. Encode gc True op payload None zero_encoder = (None, enc) \<and> HeaderBytes enc @ payload = wire_frame op True False None payload
    \<and> length (HeaderBytes enc) \<le> MaxHeaderSize"
proof -
  have c: "check_frame True op payload = None" using assms by (auto simp: check_frame_def)
  have k: "key_ok None" by simp
  note ok = Encode_ok [OF c k, of gc zero_encoder]
  have "op OR fin_bit True = first_byte op True False" by (simp add: first_byte_def fin_bit_def)
  with ok show ?thesis
    by (intro exI [of _ "snd (Encode gc True op payload None zero_encoder)"])
       (auto simp: wire_frame_def HeaderBytes_def header_of_Bytes prod_eq_iff wire_header_def MaxHeaderSize_def len_ext_def Let_def)
qed

lemma compressed_frame:
  assumes "op \<in> {Text, Binary}"
  shows "\<exists>enc. EncodeCompressed gc True op z None zero_encoder = (None, enc) \<and> HeaderBytes enc @ z = wire_frame op True True None z"
proof -
  have o: "op = Text \<or> op = Binary \<or> op = Continuation" using assms by auto
  have k: "key_ok None" by simp
  note ok = EncodeCompressed_ok [OF o k refl, where gc = gc and final = True and payload = z and e = zero_encoder]
  have "op OR fin_bit True OR rsv1_bit op = first_byte op True True"
    using assms by (auto simp: first_byte_def fin_bit_def rsv1_bit_def)
  with ok show ?thesis
    by (intro exI [of _ "snd (EncodeCompressed gc True op z None zero_encoder)"])
       (auto simp: wire_frame_def HeaderBytes_def header_of_Bytes prod_eq_iff)
qed

lemma Prepare_ok:
  assumes "op \<in> {Text, Binary}"
  shows "\<exists>p. Prepare gc op payload = Inr p \<and> prep_ok inflated p \<and> pr_op p = op \<and> pr_payload p = payload"
  using plain_frame [OF assms, of gc payload] assms by (auto simp: Prepare_def prep_ok_def)

text \<open>\<open>PrepareAppend\<close> with an encoder that appends builds the frame \<open>Prepare\<close> builds from the copy.\<close>

lemma PrepareAppend_eq:
  assumes "fill (replicate MaxHeaderSize 0) = Inr (replicate MaxHeaderSize 0 @ payload)"
  shows "PrepareAppend gc op fill = Prepare gc op payload"
proof (cases "op \<in> {Text, Binary}")
  case True
  obtain enc where e: "Encode gc True op payload None zero_encoder = (None, enc)" "length (HeaderBytes enc) \<le> MaxHeaderSize"
    using plain_frame [OF True] by blast
  let ?h = "HeaderBytes enc" and ?s = "MaxHeaderSize - length (HeaderBytes enc)"
  have "drop ?s (put_at ?s ?h (replicate MaxHeaderSize 0 @ payload)) = ?h @ payload"
    using e(2) by (simp add: put_at_def)
  moreover from this have "drop MaxHeaderSize (put_at ?s ?h (replicate MaxHeaderSize 0 @ payload)) = payload"
    using e(2) drop_drop [of "length ?h" ?s "put_at ?s ?h (replicate MaxHeaderSize 0 @ payload)"] by simp
  ultimately show ?thesis using True e assms by (auto simp: PrepareAppend_def Prepare_def Let_def)
qed (auto simp: PrepareAppend_def Prepare_def)

lemma compressedFor_ok:
  assumes F: "flate_history F hst" "flate_decodes F hst inflated m" and ok: "cfg_ok cfg" "comp_pools_ok ps" "prep_ok inflated p"
  shows "\<exists>fr p' ps' z. compressedFor F gc pick cfg p ps = Some (fr, p', ps') \<and> prep_ok inflated p' \<and> comp_pools_ok ps'
    \<and> pr_op p' = pr_op p \<and> pr_payload p' = pr_payload p
    \<and> fr = wire_frame (pr_op p) True True None z \<and> (\<forall>D. inflated D (z @ sync_tail) = Some (pr_payload p))"
proof (cases "map_of (pr_variants p) (cp_Level cfg, SendWindowBits cfg)")
  case (Some fr)
  then have "(\<exists>z. fr = wire_frame (pr_op p) True True None z \<and> (\<forall>D. inflated D (z @ sync_tail) = Some (pr_payload p)))"
    using ok(3) by (force simp: prep_ok_def dest: map_of_SomeD)
  with Some ok show ?thesis by (auto simp: compressedFor_def)
next
  case None
  obtain cm ps1 where g: "getCompressor F pick cfg ps = Some (Some cm, ps1)" "fresh (cfg_window cfg) cm" "comp_pools_ok ps1"
    using getCompressor_ok [OF F(1) ok(1,2)] by blast
  define s0 where "s0 = writer (start_chunk F None cm)"
  obtain z cm' where st: "CompressChunk F gc (pr_payload p) None True cm = (Inr z, None, cm')"
    "emitted F (pr_payload p) s0 = z @ sync_tail" "cwindow cm' = cwindow cm"
    using CompressChunk_step [OF F(1) s0_def, of gc "pr_payload p" True] by (auto simp: add_ref_def)
  have "hst s0 = []" using start_primed [OF F(1), of None cm] g(2) by (simp add: s0_def continues_def fresh_def)
  then have d: "inflated D (z @ sync_tail) = Some (pr_payload p)" for D
    using F(2) [unfolded flate_decodes_def, rule_format, of "[pr_payload p]" s0 D] st(2) by simp
  have op: "pr_op p \<in> {Text, Binary}" using ok(3) by (simp add: prep_ok_def)
  obtain enc where e: "EncodeCompressed gc True (pr_op p) z None zero_encoder = (None, enc)"
    "HeaderBytes enc @ z = wire_frame (pr_op p) True True None z" using compressed_frame [OF op] by blast
  obtain ps' where pt: "putCompressor F cfg cm' ps1 = Some ps'" "comp_pools_ok ps'"
    using putCompressor_ok [OF ok(1) g(3), of cm' F] g(2) st(3) by (auto simp: fresh_def)
  have "prep_ok inflated (p\<lparr>pr_variants := pr_variants p @ [((cp_Level cfg, SendWindowBits cfg), wire_frame (pr_op p) True True None z)]\<rparr>)"
    using ok(3) d by (auto simp: prep_ok_def)
  with None g st e pt d show ?thesis by (auto simp: compressedFor_def Compress_def Let_def)
qed

lemma cc_ok_no_window: "cc_window cc = None \<Longrightarrow> cc_ok hst n h cc = cc_ok hst n h' cc"
  by (simp add: cc_ok_def split: option.split)

lemma cc_ok_noted:
  assumes ok: "cc_ok hst n h cc" and w: "cc_window cc \<noteq> None" "cc_config cc = Some cfg"
  shows "\<exists>cc'. notePrepared E p cc = Some cc' \<and> cc_ok hst (Suc n) (h @ pr_payload p) cc'
    \<and> cc_config cc' = cc_config cc \<and> cc_window cc' \<noteq> None"
proof -
  obtain a win where aw: "cc_window cc = Some (a, win)" using w(1) by auto
  let ?m = "cfg_window cfg"
  obtain k where k: "pend_ok cc" "Size win = ?m" "cc_hist cc = lastn ?m h" "gen win = of_nat k" "k + length (cc_pending cc) \<le> n"
    "\<forall>cm. cc_attached cc = Some cm \<longrightarrow> \<not> mid cm \<and> comp_inv hst ?m k a win cm" "cfg_ok cfg"
    using ok w(2) aw by (auto simp: cc_ok_def)
  have m: "cc_size cc = ?m" by (simp add: cc_size_def win_of_def aw k)
  obtain cc' where n: "notePrepared E p cc = Some cc'" "pend_ok cc'" "cc_size cc' = ?m" "cc_hist cc' = lastn ?m (cc_hist cc @ pr_payload p)"
    using notePrepared_ok [OF k(1), of E p] m by auto
  obtain xs where xs: "cc_window cc' = Some (a, fold (add_win (e_gc E)) xs win)"
    "length xs + length (cc_pending cc') \<le> Suc (length (cc_pending cc))" "cc_attached cc' = cc_attached cc" "cc_config cc' = cc_config cc"
    using notePrepared_window [OF n(1) aw] by blast
  obtain k' where k': "k' \<le> k + length xs" "gen (fold (add_win (e_gc E)) xs win) = of_nat k'"
    "\<forall>c. cc_attached cc = Some c \<longrightarrow> comp_inv hst ?m k' a (fold (add_win (e_gc E)) xs win) c"
    using fold_add_comp_inv [OF k(4), of "\<lambda>c. cc_attached cc = Some c" hst ?m a xs "e_gc E"] k(6) by blast
  have "k' + length (cc_pending cc') \<le> Suc n" using k'(1) xs(2) k(5) by linarith
  moreover have "cc_hist cc' = lastn ?m (h @ pr_payload p)" using n(4) k(3) by simp
  ultimately have "cc_ok hst (Suc n) (h @ pr_payload p) cc'"
    using n(2,3) xs k'(2,3) k(6,7) w(2) by (auto simp: cc_ok_def cc_size_def win_of_def fold_add_win)
  with n(1) xs(1,4) show ?thesis by auto
qed

lemma WritePrepared_ok:
  assumes dok: "decoder_ok E hst inflated c" and ok: "wc_ok hst n h c" and n: "n < 2 ^ 64" and p: "prep_ok inflated p"
  shows "\<exists>p' c'. WritePrepared E p c = Some ((None, None), p', c')
    \<and> delivers inflated hst n (Suc n) h (pr_op p) (pr_payload p) c c'"
proof (cases "w_role c = Client")
  case True
  have "pr_op p \<in> {Text, Binary}" using p by (simp add: prep_ok_def)
  from Write_ok [OF dok ok n this, of "pr_payload p"] True show ?thesis by (auto simp: WritePrepared_def)
next
  case srv: False
  then have key: "key_for (w_role c) None" by (cases "w_role c") (simp_all add: key_for_def)
  have rd: "net_ready c" and fr: "fr_op (w_frag c) = 0" "\<not> fr_held (w_frag c)" and ps: "comp_pools_ok (w_pools c)"
    and cok: "cc_ok hst n h (w_comp c)" using ok by (simp_all add: wc_ok_def)
  have cl: "\<not> CloseSent (w_tx c)" using rd by (simp add: net_ready_def tx_ready_def CloseSent_def)
  have out: "\<exists>c'. (case w_queue c1 of
                   Some q \<Rightarrow>
                     (case enqueue [] [] (Some frame) q of
                        (Inl e, q) \<Rightarrow> ((Some 0, Some e), p', c1\<lparr>w_queue := Some q\<rparr>)
                      | (Inr (seq, _), q) \<Rightarrow> ((Some seq, None), p', c1\<lparr>w_queue := Some q\<rparr>))
                 | None \<Rightarrow> (let (err, n) = net_write frame (w_net c1) in ((None, err), p', c1\<lparr>w_net := n\<rparr>))) = ((None, None), p', c')
       \<and> wout c' = wout c1 @ frame \<and> net_ready c' \<and> same_side c1 c'" if "net_ready c1" for c1 frame and p' :: Prepared
    using that by (auto simp: net_ready_def net_write_ok wout_def same_side_def)
  show ?thesis
  proof (cases "cc_config (w_comp c) = None \<or> int (length (pr_payload p)) < cc_minSize (w_comp c)")
    case True
    then have ff: "frameFor E p c = Some (pr_frame p, False, p, c)" by (auto simp: frameFor_def split: option.split)
    obtain c' where c': "WritePrepared E p c = Some ((None, None), p, c')" "wout c' = wout c @ pr_frame p" "net_ready c'" "same_side c c'"
      using out [OF rd, of "pr_frame p" p] srv fr cl ff by (auto simp: WritePrepared_def preparedFrame_def)
    have "delivers inflated hst n (Suc n) h (pr_op p) (pr_payload p) c c'"
      by (rule deliversI [where out = "pr_frame p" and cmpd = False and zs = "[pr_payload p]"])
         (use c' p fr ps cok wired_one [OF key] in \<open>simp_all add: prep_ok_def stands_for_def wc_ok_def same_side_def shape_def takeover_def cc_ok_Suc\<close>)
    with c'(1) show ?thesis by blast
  next
    case False
    then obtain cfg where cfg: "cc_config (w_comp c) = Some cfg" by auto
    have cfgok: "cfg_ok cfg" using cok cfg by (simp add: cc_ok_def)
    obtain frame p' ps' z where z: "compressedFor (e_flate E) (e_gc E) (e_pick E (w_tick c)) cfg p (w_pools c) = Some (frame, p', ps')"
      "comp_pools_ok ps'" "pr_payload p' = pr_payload p" "frame = wire_frame (pr_op p) True True None z" "\<forall>D. inflated D (z @ sync_tail) = Some (pr_payload p)"
      using compressedFor_ok [of "e_flate E" hst inflated "wreach c" cfg "w_pools c" p "e_gc E" "e_pick E (w_tick c)"] dok cfgok ps p
      by (auto simp: decoder_ok_def)
    define c1 where "c1 = c\<lparr>w_pools := ps', w_tick := Suc (w_tick c)\<rparr>"
    have ff: "frameFor E p c = Some (frame, True, p', c1)" using False cfg z(1) by (simp add: frameFor_def c1_def)
    obtain cc' where cc': "(if cc_window (w_comp c) \<noteq> None then notePrepared E p' (w_comp c) else Some (w_comp c)) = Some cc'"
      "cc_ok hst (Suc n) (h @ pr_payload p) cc'" "cc_config cc' = Some cfg" "(cc_window cc' = None) = (cc_window (w_comp c) = None)"
    proof (cases "cc_window (w_comp c) = None")
      case True
      have "cc_ok hst (Suc n) (h @ pr_payload p) (w_comp c)"
        using cc_ok_Suc [OF cok] cc_ok_no_window [OF True] by blast
      with True cfg that show thesis by simp
    next
      case False
      from cc_ok_noted [OF cok False cfg, of E p'] z(3) cfg that False show thesis by auto
    qed
    define c2 where "c2 = c1\<lparr>w_comp := cc'\<rparr>"
    have pf: "preparedFrame E p c = Some (Inr frame, p', c2)"
    proof (cases "cc_window (w_comp c) = None")
      case True
      with cc'(1) have "c1\<lparr>w_comp := cc'\<rparr> = c1" by (simp add: c1_def)
      with True fr cl ff show ?thesis by (simp add: preparedFrame_def c2_def c1_def)
    next
      case w: False
      with cc'(1) fr cl ff show ?thesis by (simp add: preparedFrame_def c2_def c1_def)
    qed
    have rd2: "net_ready c2" using rd by (simp add: c2_def c1_def net_ready_def)
    obtain c' where c': "WritePrepared E p c = Some ((None, None), p', c')" "wout c' = wout c2 @ frame" "net_ready c'" "same_side c2 c'"
      using out [OF rd2, of frame p'] srv pf by (auto simp: WritePrepared_def)
    have "delivers inflated hst n (Suc n) h (pr_op p) (pr_payload p) c c'"
      by (rule deliversI [where out = frame and cmpd = True and zs = "[z]"])
         (use c' z fr cc' cfg wired_one [OF key] framed_data [of "pr_op p"] p in \<open>simp_all add: prep_ok_def c2_def c1_def wout_def stands_for_def wc_ok_def same_side_def shape_def takeover_def\<close>)
    with c'(1) show ?thesis by blast
  qed
qed

end
