(* ===== verification/ConnWrite_Run.thy ===== *)
theory ConnWrite_Run
  imports ConnWrite_Stream
begin

text \<open>
  Fragmented messages, and any sequence of sends.
\<close>

section \<open>Fragments\<close>

text \<open>The chunks \<open>ps\<close> of a message with opcode \<open>op\<close> have been sent.\<close>

definition open_ok :: "'w env \<Rightarrow> ('w \<Rightarrow> bytes) \<Rightarrow> nat \<Rightarrow> bytes \<Rightarrow> opcode \<Rightarrow> bytes list \<Rightarrow> 'w \<Rightarrow> 'w wconn \<Rightarrow> bool" where
  "open_ok E hst n h op ps w0 c \<longleftrightarrow>
     net_ready c \<and> comp_pools_ok (w_pools c) \<and> op \<in> {Text, Binary}
     \<and> fr_op (w_frag c) = op \<and> fr_first (w_frag c) = (ps = [])
     \<and> fr_compressed (w_frag c) = (cc_config (w_comp c) \<noteq> None)
     \<and> (cc_config (w_comp c) \<noteq> None \<longrightarrow>
          (\<exists>cm. cc_attached (w_comp c) = Some cm \<and> cx (e_flate E) hst n h ps w0 False (w_comp c) cm)
          \<and> (cc_window (w_comp c) = None \<longrightarrow> fr_held (w_frag c)))
     \<and> (cc_config (w_comp c) = None \<longrightarrow> \<not> fr_held (w_frag c))"

lemma BeginMessage_ok:
  assumes dok: "decoder_ok E hst inflated c" and ok: "wc_ok hst n h c" and op: "op \<in> {Text, Binary}"
  shows "\<exists>c'. BeginMessage E op c = Some (None, c') \<and> open_ok E hst n h op [] w0 c' \<and> wout c' = wout c \<and> shape c' = shape c"
proof -
  have rd: "net_ready c" and fr: "fr_op (w_frag c) = 0" "\<not> fr_held (w_frag c)" and ps: "comp_pools_ok (w_pools c)"
    and cok: "cc_ok hst n h (w_comp c)" using ok by (simp_all add: wc_ok_def)
  have cl: "\<not> CloseSent (w_tx c)" using rd by (simp add: net_ready_def tx_ready_def CloseSent_def)
  have F: "flate_history (e_flate E) hst" using dok by (simp add: decoder_ok_def)
  show ?thesis
  proof (cases "cc_config (w_comp c) \<noteq> None \<and> cc_attached (w_comp c) = None")
    case True
    then obtain cfg where cfg: "cc_config (w_comp c) = Some cfg" by auto
    have cfgok: "cfg_ok cfg" using cok cfg by (simp add: cc_ok_def)
    obtain cm ps1 where g: "getCompressor (e_flate E) (e_pick E (w_tick c)) cfg (w_pools c) = Some (Some cm, ps1)"
      "fresh (cfg_window cfg) cm" "comp_pools_ok ps1"
      using getCompressor_ok [OF F cfgok ps] by blast
    have "cx (e_flate E) hst n h [] w0 False (w_comp c) cm" using cx_begin [OF cok cfg] g(2) by blast
    with True cfg g op fr cl rd show ?thesis
      by (auto simp: BeginMessage_def open_ok_def Let_def net_ready_def wout_def shape_def takeover_def)
  next
    case False
    have "cx (e_flate E) hst n h [] w0 False (w_comp c) cm" if "cc_config (w_comp c) = Some cfg" "cc_attached (w_comp c) = Some cm" for cfg cm
      using cx_begin [OF cok that(1)] that(2) by blast
    moreover have "cc_window (w_comp c) \<noteq> None" if "cc_config (w_comp c) = Some cfg" for cfg
      using that False cok by (auto simp: cc_ok_def split: option.splits)
    ultimately show ?thesis
      using False op fr cl rd ps
      by (auto simp: BeginMessage_def open_ok_def Let_def net_ready_def wout_def shape_def takeover_def)
  qed
qed

lemma endFragmented_ok:
  assumes "net_ready c" "comp_pools_ok (w_pools c)" "cc_config (w_comp c) = None \<longrightarrow> \<not> fr_held (w_frag c)"
    and cc: "\<And>cfg. cc_config (w_comp c) = Some cfg \<Longrightarrow>
       \<exists>cm. cc_attached (w_comp c) = Some cm \<and> cwindow cm = cfg_window cfg \<and> cfg_ok cfg
         \<and> cc_ok hst n h ((w_comp c)\<lparr>cc_attached := None\<rparr>)
         \<and> (cc_window (w_comp c) \<noteq> None \<longrightarrow> cc_ok hst n h (w_comp c)) \<and> (cc_window (w_comp c) = None \<longrightarrow> fr_held (w_frag c))"
  shows "\<exists>c'. endFragmented E c = Some c' \<and> wc_ok hst n h c' \<and> w_net c' = w_net c \<and> shape c' = shape c"
proof (cases "cc_config (w_comp c)")
  case None
  with assms(1-3) show ?thesis
    by (auto simp: endFragmented_def wc_ok_def net_ready_def cc_ok_def shape_def takeover_def Let_def)
next
  case (Some cfg)
  obtain cm where cm: "cc_attached (w_comp c) = Some cm" "cwindow cm = cfg_window cfg" "cfg_ok cfg"
    "cc_ok hst n h ((w_comp c)\<lparr>cc_attached := None\<rparr>)" "cc_window (w_comp c) \<noteq> None \<longrightarrow> cc_ok hst n h (w_comp c)"
    "cc_window (w_comp c) = None \<longrightarrow> fr_held (w_frag c)" using cc [OF Some] by (elim exE conjE) (rule that)
  let ?c = "c\<lparr>w_frag := (w_frag c)\<lparr>fr_op := 0, fr_held := False\<rparr>\<rparr>"
  obtain ps where pb: "put_back E cm ?c = Some (?c\<lparr>w_pools := ps\<rparr>)" "comp_pools_ok ps"
    using put_back_ok [of ?c cfg cm E] Some cm(2,3) assms(2) by auto
  have rel: "releaseCompressor E ?c = Some (?c\<lparr>w_pools := ps, w_comp := (w_comp c)\<lparr>cc_attached := None\<rparr>\<rparr>)"
    using pb(1) cm(1) by (simp add: releaseCompressor_def)
  show ?thesis
  proof (cases "fr_held (w_frag c) \<and> (cc_shared (w_comp c) \<or> cc_window (w_comp c) = None)")
    case True
    then have e: "endFragmented E c = Some (?c\<lparr>w_pools := ps, w_comp := (w_comp c)\<lparr>cc_attached := None\<rparr>\<rparr>)"
      using rel by (simp add: endFragmented_def)
    show ?thesis unfolding e
      by (intro exI conjI, rule refl)
         (use pb(2) cm(4) assms(1) in \<open>simp_all add: wc_ok_def net_ready_def shape_def takeover_def\<close>)
  next
    case False
    then have w: "cc_window (w_comp c) \<noteq> None" using cm(6) by blast
    have e: "endFragmented E c = Some ?c" using False by (auto simp: endFragmented_def Let_def)
    show ?thesis unfolding e
      by (intro exI conjI, rule refl)
         (use w cm(5) assms(1,2) in \<open>simp_all add: wc_ok_def net_ready_def shape_def takeover_def\<close>)
  qed
qed

text \<open>One fragment, first the compression of the chunk.\<close>

definition chunk_out :: "'w env \<Rightarrow> bytes \<Rightarrow> bool \<Rightarrow> 'w wconn \<Rightarrow> ((deflate_error + bytes) \<times> 'w wconn) option" where
  "chunk_out E payload final c =
    (if fr_compressed (w_frag c)
     then do {
       cc \<leftarrow> applyPending E (w_comp c);
       cmpr \<leftarrow> cc_attached cc;
       (r, w, cmpr) \<leftarrow> unless_panic (CompressChunk (e_flate E) (e_gc E) payload (cc_window cc) final cmpr);
       Some (r, c\<lparr>w_comp := cc\<lparr>cc_window := w, cc_attached := Some cmpr\<rparr>\<rparr>)
     }
     else Some (Inr payload, c))"

lemma fragment_open:
  assumes "fr_op (w_frag c) \<noteq> 0" "chunk_out E payload final c = Some (Inr z, c1)" "w_frag c1 = w_frag c"
    "with_tx E (\<lambda>gc rnd. EncodeFragment gc rnd (if fr_first (w_frag c) then fr_op (w_frag c) else Continuation) final z (fr_compressed (w_frag c))) c1 = (Inr (hdr, b), c2)"
    "sendFrame hdr b c2 = ((None, None), c3)"
  shows "fragment E payload final c =
    (let c4 = c3\<lparr>w_frag := (w_frag c3)\<lparr>fr_first := False\<rparr>\<rparr>
     in if final then end_with E (None, None) c4 else Some ((None, None), c4))"
  using assms unfolding fragment_def Let_def chunk_out_def [symmetric] by simp

text \<open>What a chunk adds to the message: with compression the encoder's output, else the chunk.\<close>

definition adds :: "'w env \<Rightarrow> 'w wconn \<Rightarrow> bytes list \<Rightarrow> bytes \<Rightarrow> bool \<Rightarrow> 'w \<Rightarrow> bytes \<Rightarrow> bool" where
  "adds E c ps p final w1 z \<longleftrightarrow>
     (if cc_config (w_comp c) = None then z = p
      else emitted_all (e_flate E) (ps @ [p]) w1 = emitted_all (e_flate E) ps w1 @ z @ (if final then sync_tail else []))"

lemma chunk_out_ok:
  assumes F: "flate_history (e_flate E) hst" and op: "open_ok E hst n h op ps w0 c" and n: "n < 2 ^ 64"
  shows "\<exists>z c1 w1. chunk_out E p final c = Some (Inr z, c1) \<and> (ps \<noteq> [] \<longrightarrow> w1 = w0) \<and> adds E c ps p final w1 z
     \<and> w_frag c1 = w_frag c \<and> w_net c1 = w_net c \<and> net_ready c1 \<and> w_pools c1 = w_pools c \<and> shape c1 = shape c
     \<and> (cc_config (w_comp c) \<noteq> None \<longrightarrow>
          (\<exists>cm. cc_attached (w_comp c1) = Some cm \<and> cx (e_flate E) hst (Suc n) h (ps @ [p]) w1 final (w_comp c1) cm))"
proof (cases "cc_config (w_comp c)")
  case None
  then have "chunk_out E p final c = Some (Inr p, c)" using op by (simp add: chunk_out_def open_ok_def)
  with op None show ?thesis by (intro exI [of _ p] exI [of _ c] exI [of _ w0]) (auto simp: adds_def open_ok_def)
next
  case (Some cfg)
  then obtain cm where cm: "cc_attached (w_comp c) = Some cm" "cx (e_flate E) hst n h ps w0 False (w_comp c) cm"
    using op by (auto simp: open_ok_def)
  obtain cc1 z w1 w' cm' where st: "applyPending E (w_comp c) = Some cc1" "cc_attached cc1 = cc_attached (w_comp c)"
    "(w' = None) = (cc_window (w_comp c) = None)" "cc_config cc1 = cc_config (w_comp c)"
    "CompressChunk (e_flate E) (e_gc E) p (cc_window cc1) final cm = (Inr (if final then z else z @ sync_tail), w', cm')"
    "emitted_all (e_flate E) (ps @ [p]) w1 = emitted_all (e_flate E) ps w1 @ z @ sync_tail"
    "ps \<noteq> [] \<longrightarrow> w1 = w0" "cx (e_flate E) hst (Suc n) h (ps @ [p]) w1 final (cc1\<lparr>cc_window := w'\<rparr>) cm'"
    using cx_step [OF F cm(2) n, of p final] by (elim exE conjE) (rule that)
  let ?z = "if final then z else z @ sync_tail" and ?c1 = "c\<lparr>w_comp := cc1\<lparr>cc_window := w', cc_attached := Some cm'\<rparr>\<rparr>"
  have "chunk_out E p final c = Some (Inr ?z, ?c1)"
    using op Some st(1,2,5) cm(1) by (simp add: chunk_out_def open_ok_def)
  moreover have "adds E c ps p final w1 ?z" using Some st(6) by (simp add: adds_def)
  ultimately show ?thesis
    using op st(3,4,7,8) Some
    by (intro exI [of _ ?z] exI [of _ ?c1] exI [of _ w1])
       (simp add: open_ok_def net_ready_def shape_def takeover_def)
qed

lemma fragment_step:
  assumes dok: "decoder_ok E hst inflated c" and op: "open_ok E hst n h op ps w0 c" and n: "n < 2 ^ 64"
  defines "o1 \<equiv> if ps = [] then op else Continuation" and "r1 \<equiv> cc_config (w_comp c) \<noteq> None \<and> ps = []"
  shows "\<exists>c4 z w1 out. fragment E p final c = (if final then end_with E (None, None) c4 else Some ((None, None), c4))
     \<and> (ps \<noteq> [] \<longrightarrow> w1 = w0) \<and> adds E c ps p final w1 z \<and> wout c4 = wout c @ out \<and> wired (w_role c) out [(o1, final, r1, z)]
     \<and> net_ready c4 \<and> w_pools c4 = w_pools c \<and> shape c4 = shape c \<and> w_frag c4 = (w_frag c)\<lparr>fr_first := False\<rparr>
     \<and> (cc_config (w_comp c) \<noteq> None \<longrightarrow>
          (\<exists>cm. cc_attached (w_comp c4) = Some cm \<and> cx (e_flate E) hst (Suc n) h (ps @ [p]) w1 final (w_comp c4) cm))"
proof -
  have F: "flate_history (e_flate E) hst" and r: "rand_ok E" using dok by (simp_all add: decoder_ok_def)
  obtain z c1 w1 where c1: "chunk_out E p final c = Some (Inr z, c1)" "ps \<noteq> [] \<longrightarrow> w1 = w0" "adds E c ps p final w1 z"
     "w_frag c1 = w_frag c" "w_net c1 = w_net c" "net_ready c1" "w_pools c1 = w_pools c" "shape c1 = shape c"
     "cc_config (w_comp c) \<noteq> None \<longrightarrow>
          (\<exists>cm. cc_attached (w_comp c1) = Some cm \<and> cx (e_flate E) hst (Suc n) h (ps @ [p]) w1 final (w_comp c1) cm)"
    using chunk_out_ok [OF F op n, of p final] by (elim exE conjE) (rule that)
  have fr: "fr_op (w_frag c) = op" "fr_first (w_frag c) = (ps = [])" "fr_compressed (w_frag c) = (cc_config (w_comp c) \<noteq> None)"
    "op \<in> {Text, Binary}" using op by (simp_all add: open_ok_def)
  let ?cmpd = "cc_config (w_comp c) \<noteq> None"
  have ok: "call_ok (TxFragment o1 final z ?cmpd)" using fr(4) by (auto simp: call_ok_def o1_def)
  have tf: "tx_frame (TxFragment o1 final z ?cmpd) = (o1, final, z, r1)" using fr(4) by (auto simp: o1_def r1_def)
  obtain hdr b c2 c3 out where g: "with_tx E (\<lambda>gc rnd. tx_step gc rnd (TxFragment o1 final z ?cmpd)) c1 = (Inr (hdr, b), c2)"
    "sendFrame hdr b c2 = ((None, None), c3)" "net_ready c3" "same_side c1 c3" "wout c3 = wout c1 @ out"
    "wired (w_role c1) out [(o1, final, r1, z)]"
    using frame_goes [OF ok c1(6) r tf] by blast
  have fo: "fr_op (w_frag c) \<noteq> 0" using fr by auto
  have wt: "with_tx E (\<lambda>gc rnd. EncodeFragment gc rnd (if fr_first (w_frag c) then fr_op (w_frag c) else Continuation) final z
      (fr_compressed (w_frag c))) c1 = (Inr (hdr, b), c2)"
    using g(1) unfolding fr(1-3) o1_def by (simp only: tx_step_calls)
  define c4 where "c4 = c3\<lparr>w_frag := (w_frag c3)\<lparr>fr_first := False\<rparr>\<rparr>"
  have "fragment E p final c = (if final then end_with E (None, None) c4 else Some ((None, None), c4))"
    using fragment_open [OF fo c1(1,4) wt g(2)] by (simp add: c4_def)
  moreover have "w_comp c4 = w_comp c1" "w_pools c4 = w_pools c" "w_frag c4 = (w_frag c)\<lparr>fr_first := False\<rparr>" "net_ready c4"
    "shape c4 = shape c" "w_role c1 = w_role c"
    using g(3,4) c1(4,7,8) shape_wreach [OF c1(8)] by (simp_all add: c4_def same_side_def net_ready_def shape_def takeover_def)
  moreover have "wout c4 = wout c @ out" using g(5) c1(5) by (simp add: c4_def wout_def)
  ultimately show ?thesis using c1(2,3,9) g(6)
    by (intro exI [of _ c4] exI [of _ z] exI [of _ w1] exI [of _ out]) (simp only:)
qed

text \<open>A non-final fragment keeps the message open.\<close>

lemma WriteChunk_ok:
  assumes dok: "decoder_ok E hst inflated c" and op: "open_ok E hst n h op ps w0 c" and n: "n < 2 ^ 64"
  shows "\<exists>c' z w1 out. WriteChunk E p c = Some (None, c') \<and> open_ok E hst (Suc n) h op (ps @ [p]) w1 c' \<and> shape c' = shape c
     \<and> (ps \<noteq> [] \<longrightarrow> w1 = w0) \<and> adds E c ps p False w1 z \<and> wout c' = wout c @ out
     \<and> wired (w_role c) out [(if ps = [] then op else Continuation, False, cc_config (w_comp c) \<noteq> None \<and> ps = [], z)]"
proof -
  obtain c4 z w1 out where f: "fragment E p False c = Some ((None, None), c4)"
    "ps \<noteq> [] \<longrightarrow> w1 = w0" "adds E c ps p False w1 z" "wout c4 = wout c @ out"
    "wired (w_role c) out [(if ps = [] then op else Continuation, False, cc_config (w_comp c) \<noteq> None \<and> ps = [], z)]"
    "net_ready c4" "w_pools c4 = w_pools c" "shape c4 = shape c" "w_frag c4 = (w_frag c)\<lparr>fr_first := False\<rparr>"
    "cc_config (w_comp c) \<noteq> None \<longrightarrow>
          (\<exists>cm. cc_attached (w_comp c4) = Some cm \<and> cx (e_flate E) hst (Suc n) h (ps @ [p]) w1 False (w_comp c4) cm)"
    using fragment_step [OF dok op n, of p False] unfolding if_False by (elim exE conjE) (rule that)
  have cf: "cc_config (w_comp c4) = cc_config (w_comp c)" "(cc_window (w_comp c4) = None) = (cc_window (w_comp c) = None)"
    using f(8) by (auto simp: shape_def takeover_def)
  have "open_ok E hst (Suc n) h op (ps @ [p]) w1 c4"
    using op f(6,7,9,10) unfolding open_ok_def cf by simp
  moreover have "WriteChunk E p c = Some (None, c4)"
    using f(1) by (simp add: WriteChunk_def writeFragment_def sync_result_def)
  ultimately show ?thesis using f(2-5,8) by (intro exI [of _ c4] exI [of _ z] exI [of _ w1] exI [of _ out]) (simp only:)
qed

text \<open>The final fragment completes the message.\<close>

lemma final_fragment_ok:
  assumes dok: "decoder_ok E hst inflated c" and op: "open_ok E hst n h op ps w0 c" and n: "n < 2 ^ 64"
    and Z: "cc_config (w_comp c) \<noteq> None \<longrightarrow> Z = emitted_all (e_flate E) ps w0" "cc_config (w_comp c) = None \<longrightarrow> Z = concat ps"
  shows "\<exists>c' z out cmpd. writeFragment E p True c = Some (None, c') \<and> shape c' = shape c \<and> wout c' = wout c @ out
     \<and> cmpd = (cc_config (w_comp c) \<noteq> None)
     \<and> wired (w_role c) out [(if ps = [] then op else Continuation, True, cmpd \<and> ps = [], z)]
     \<and> stands_for inflated c h cmpd (Z @ z) (concat ps @ p) \<and> wc_ok hst (Suc n) (if cmpd then h @ concat ps @ p else h) c'"
proof -
  obtain c4 z w1 out where f: "fragment E p True c = end_with E (None, None) c4"
    "ps \<noteq> [] \<longrightarrow> w1 = w0" "adds E c ps p True w1 z" "wout c4 = wout c @ out"
    "wired (w_role c) out [(if ps = [] then op else Continuation, True, cc_config (w_comp c) \<noteq> None \<and> ps = [], z)]"
    "net_ready c4" "w_pools c4 = w_pools c" "shape c4 = shape c" "w_frag c4 = (w_frag c)\<lparr>fr_first := False\<rparr>"
    "cc_config (w_comp c) \<noteq> None \<longrightarrow>
          (\<exists>cm. cc_attached (w_comp c4) = Some cm \<and> cx (e_flate E) hst (Suc n) h (ps @ [p]) w1 True (w_comp c4) cm)"
    using fragment_step [OF dok op n, of p True] unfolding if_True by (elim exE conjE) (rule that)
  have cf: "cc_config (w_comp c4) = cc_config (w_comp c)" "(cc_window (w_comp c4) = None) = (cc_window (w_comp c) = None)"
    using f(8) by (auto simp: shape_def takeover_def)
  let ?cmpd = "cc_config (w_comp c) \<noteq> None"
  have ending: "\<exists>c'. endFragmented E c4 = Some c' \<and> wc_ok hst (Suc n) (if ?cmpd then h @ concat ps @ p else h) c' \<and> w_net c' = w_net c4 \<and> shape c' = shape c4"
  proof (rule endFragmented_ok [OF f(6)])
    show "comp_pools_ok (w_pools c4)" using op f(7) by (simp add: open_ok_def)
    show "cc_config (w_comp c4) = None \<longrightarrow> \<not> fr_held (w_frag c4)" using op f(9) cf by (simp add: open_ok_def)
    fix cfg assume cfg: "cc_config (w_comp c4) = Some cfg"
    then obtain cm where cm: "cc_attached (w_comp c4) = Some cm" "cx (e_flate E) hst (Suc n) h (ps @ [p]) w1 True (w_comp c4) cm"
      using f(10) cf by auto
    have cfg': "cc_config (w_comp c) = Some cfg" using cfg cf(1) by simp
    have "cc_window (w_comp c4) = None \<longrightarrow> fr_held (w_frag c4)" using op f(9) cf(2) cfg' by (simp add: open_ok_def)
    moreover have "cwindow cm = cfg_window cfg \<and> cfg_ok cfg" using cm(2) cfg by (auto simp: cx_def)
    ultimately show "\<exists>cm. cc_attached (w_comp c4) = Some cm \<and> cwindow cm = cfg_window cfg \<and> cfg_ok cfg
         \<and> cc_ok hst (Suc n) (if ?cmpd then h @ concat ps @ p else h) ((w_comp c4)\<lparr>cc_attached := None\<rparr>)
         \<and> (cc_window (w_comp c4) \<noteq> None \<longrightarrow> cc_ok hst (Suc n) (if ?cmpd then h @ concat ps @ p else h) (w_comp c4))
         \<and> (cc_window (w_comp c4) = None \<longrightarrow> fr_held (w_frag c4))"
      using cx_end [OF cm(2)] cm(1) cfg' cc_attached_same [OF cm(1)] by auto
  qed
  have st: "stands_for inflated c h ?cmpd (Z @ z) (concat ps @ p)"
  proof (cases ?cmpd)
    case False
    with f(3) Z show ?thesis by (simp add: stands_for_def adds_def)
  next
    case True
    then obtain cfg cm where cfg: "cc_config (w_comp c) = Some cfg"
      and cm: "cx (e_flate E) hst (Suc n) h (ps @ [p]) w1 True (w_comp c4) cm" using f(10) by auto
    have em: "emitted_all (e_flate E) (ps @ [p]) w1 = (Z @ z) @ sync_tail"
      using f(2,3) Z True by (cases "ps = []") (auto simp: adds_def)
    have "inflated D ((Z @ z) @ sync_tail) = Some (concat ps @ p)" if "takeover c \<longrightarrow> suffix (lastn (wreach c) h) D" for D
      using cx_decodes [OF cm _ _ _, of cfg inflated D] cf cfg dok that em
      by (simp add: decoder_ok_def wreach_def takeover_def)
    then show ?thesis using True by (simp add: stands_for_def)
  qed
  obtain c' where c': "endFragmented E c4 = Some c'" "wc_ok hst (Suc n) (if ?cmpd then h @ concat ps @ p else h) c'" "w_net c' = w_net c4" "shape c' = shape c4"
    using ending by (elim exE conjE) (rule that)
  have "writeFragment E p True c = Some (None, c')"
    using f(1) c'(1) by (simp add: writeFragment_def end_with_def sync_result_def)
  with st c'(2-4) f(4,5,8) show ?thesis
    by (intro exI [of _ c'] exI [of _ z] exI [of _ out] exI [of _ ?cmpd]) (simp add: wout_def)
qed

end
