(* ===== verification/ConnWrite_From.thy ===== *)
theory ConnWrite_From
  imports ConnWrite_Run
begin

text \<open>
  \<open>WriteFrom\<close>: the content of a reader as one message, read a chunk ahead so that the last chunk
  carries the FIN.
\<close>

lemma stands_for_shape: "shape c' = shape c \<Longrightarrow> stands_for inflated c' = stands_for inflated c"
  using shape_wreach [of c' c] by (simp add: fun_eq_iff stands_for_def)

lemma ReadFull_eof:
  assumes "r_end r = None"
  shows "ReadFull sz r =
    (if sz \<le> length (r_data r) then (take sz (r_data r), None, r\<lparr>r_data := drop sz (r_data r)\<rparr>)
     else (r_data r, Some (if r_data r = [] then EOF else UnexpectedEOF), r\<lparr>r_data := []\<rparr>))"
  using assms by (simp add: ReadFull_def)

lemma msg_frames_Cons: "zs \<noteq> [] \<Longrightarrow> msg_frames op r (z # zs) = (op, False, r, z) # msg_frames Continuation False zs"
  by (cases zs) auto

text \<open>What remains of an open message: its frames, and what the whole stands for.\<close>

definition completes ::
    "(bytes \<Rightarrow> bytes \<Rightarrow> bytes option) \<Rightarrow> ('w \<Rightarrow> bytes) \<Rightarrow> nat \<Rightarrow> bytes \<Rightarrow> opcode \<Rightarrow> bytes list \<Rightarrow> bytes \<Rightarrow> bytes \<Rightarrow> 'w wconn \<Rightarrow> 'w wconn \<Rightarrow> bool" where
  "completes inflated hst n' h op ps Z payload c c' \<longleftrightarrow>
     (\<exists>zs out. zs \<noteq> [] \<and> shape c' = shape c \<and> wout c' = wout c @ out
        \<and> wired (w_role c) out (msg_frames (if ps = [] then op else Continuation) (cc_config (w_comp c) \<noteq> None \<and> ps = []) zs)
        \<and> stands_for inflated c h (cc_config (w_comp c) \<noteq> None) (Z @ concat zs) payload
        \<and> wc_ok hst n' (if cc_config (w_comp c) \<noteq> None then h @ payload else h) c')"

definition sent_so_far :: "'w env \<Rightarrow> bytes list \<Rightarrow> 'w \<Rightarrow> 'w wconn \<Rightarrow> bytes" where
  "sent_so_far E ps w0 c = (if cc_config (w_comp c) \<noteq> None then emitted_all (e_flate E) ps w0 else concat ps)"

lemma final_completes:
  assumes "decoder_ok E hst inflated c" "open_ok E hst n h op ps w0 c" "n < 2 ^ 64"
  shows "\<exists>c'. writeFragment E p True c = Some (None, c')
    \<and> completes inflated hst (Suc n) h op ps (sent_so_far E ps w0 c) (concat ps @ p) c c'"
proof -
  let ?Z = "sent_so_far E ps w0 c"
  have Z: "cc_config (w_comp c) \<noteq> None \<longrightarrow> ?Z = emitted_all (e_flate E) ps w0" "cc_config (w_comp c) = None \<longrightarrow> ?Z = concat ps"
    by (simp_all add: sent_so_far_def)
  obtain c' z out cmpd where e: "writeFragment E p True c = Some (None, c')" "shape c' = shape c" "wout c' = wout c @ out"
     "cmpd = (cc_config (w_comp c) \<noteq> None)"
     "wired (w_role c) out [(if ps = [] then op else Continuation, True, cmpd \<and> ps = [], z)]"
     "stands_for inflated c h cmpd (?Z @ z) (concat ps @ p)" "wc_ok hst (Suc n) (if cmpd then h @ concat ps @ p else h) c'"
    using final_fragment_ok [OF assms Z, of p] by (elim exE conjE) (rule that)
  have "completes inflated hst (Suc n) h op ps ?Z (concat ps @ p) c c'"
    unfolding completes_def using e(2-7) by (intro exI [of _ "[z]"] exI [of _ out]) simp
  with e(1) show ?thesis by blast
qed

lemma chunk_completes:
  assumes dok: "decoder_ok E hst inflated c" and op: "open_ok E hst n h op ps w0 c" and n: "n < 2 ^ 64"
  shows "\<exists>c1 w1. writeFragment E p False c = Some (None, c1) \<and> open_ok E hst (Suc n) h op (ps @ [p]) w1 c1
    \<and> decoder_ok E hst inflated c1
    \<and> (\<forall>c' n' payload. completes inflated hst n' h op (ps @ [p]) (sent_so_far E (ps @ [p]) w1 c1) payload c1 c' \<longrightarrow>
         completes inflated hst n' h op ps (sent_so_far E ps w0 c) payload c c')"
proof -
  obtain c1 z w1 out where c1: "WriteChunk E p c = Some (None, c1)" "open_ok E hst (Suc n) h op (ps @ [p]) w1 c1" "shape c1 = shape c"
     "ps \<noteq> [] \<longrightarrow> w1 = w0" "adds E c ps p False w1 z" "wout c1 = wout c @ out"
     "wired (w_role c) out [(if ps = [] then op else Continuation, False, cc_config (w_comp c) \<noteq> None \<and> ps = [], z)]"
    using WriteChunk_ok [OF assms, of p] by (elim exE conjE) (rule that)
  note sh = shape_wreach [OF c1(3)]
  have cf: "cc_config (w_comp c1) = cc_config (w_comp c)" using c1(3) by (simp add: shape_def)
  have Z: "sent_so_far E (ps @ [p]) w1 c1 = sent_so_far E ps w0 c @ z"
    using c1(4,5) cf by (cases "ps = []") (auto simp: sent_so_far_def adds_def)
  have "completes inflated hst n' h op ps (sent_so_far E ps w0 c) payload c c'"
    if cp: "completes inflated hst n' h op (ps @ [p]) (sent_so_far E (ps @ [p]) w1 c1) payload c1 c'" for c' n' payload
  proof -
    obtain zs out2 where z2: "zs \<noteq> []" "shape c' = shape c1" "wout c' = wout c1 @ out2"
      "wired (w_role c1) out2 (msg_frames (if ps @ [p] = [] then op else Continuation) (cc_config (w_comp c1) \<noteq> None \<and> ps @ [p] = []) zs)"
      "stands_for inflated c1 h (cc_config (w_comp c1) \<noteq> None) (sent_so_far E (ps @ [p]) w1 c1 @ concat zs) payload"
      "wc_ok hst n' (if cc_config (w_comp c1) \<noteq> None then h @ payload else h) c'"
      using cp unfolding completes_def by (elim exE conjE) (rule that)
    have "wired (w_role c) (out @ out2) (msg_frames (if ps = [] then op else Continuation) (cc_config (w_comp c) \<noteq> None \<and> ps = []) (z # zs))"
      using wired_append [OF c1(7) z2(4) [unfolded conjunct2 [OF conjunct2 [OF sh]]]] z2(1) by (simp add: msg_frames_Cons)
    with z2 show ?thesis
      unfolding completes_def cf Z stands_for_shape [OF c1(3)]
      by (intro exI [of _ "z # zs"] exI [of _ "out @ out2"]) (simp add: c1(3,6))
  qed
  moreover have "decoder_ok E hst inflated c1" using dok sh by (simp add: decoder_ok_def)
  ultimately show ?thesis using c1(1,2) unfolding WriteChunk_def by blast
qed

lemma write_from_loop_ok:
  assumes "decoder_ok E hst inflated c" "open_ok E hst n h op ps w0 c" "n + length (r_data r) + 2 \<le> 2 ^ 64" "sz > 0" "r_end r = None"
  shows "\<exists>c' n'. write_from_loop E sz cur tot r c = Some ((tot + int (length cur) + int (length (r_data r)), None), c')
    \<and> n' \<le> n + length (r_data r) + 2
    \<and> completes inflated hst n' h op ps (sent_so_far E ps w0 c) (concat ps @ cur @ r_data r) c c'"
  using assms
proof (induction E sz cur tot r c arbitrary: n ps w0 rule: write_from_loop.induct)
  case (1 E sz cur tot r c)
  have n: "n < 2 ^ 64" using "1.prems"(3) by simp
  consider (full) "sz \<le> length (r_data r)" | (empty) "r_data r = []" | (part) "r_data r \<noteq> []" "length (r_data r) < sz" by linarith
  then show ?case
  proof cases
    case empty
    obtain c' where c': "writeFragment E cur True c = Some (None, c')"
      "completes inflated hst (Suc n) h op ps (sent_so_far E ps w0 c) (concat ps @ cur) c c'"
      using final_completes [OF "1.prems"(1,2) n] by blast
    then show ?thesis
      using empty "1.prems"(4,5)
      by (intro exI [of _ c'] exI [of _ "Suc n"]) (simp add: write_from_loop.simps [of E sz] ReadFull_eof)
  next
    case part
    obtain c1 w1 where c1: "writeFragment E cur False c = Some (None, c1)" "open_ok E hst (Suc n) h op (ps @ [cur]) w1 c1"
      "decoder_ok E hst inflated c1"
      "\<And>c' n' payload. completes inflated hst n' h op (ps @ [cur]) (sent_so_far E (ps @ [cur]) w1 c1) payload c1 c' \<Longrightarrow>
         completes inflated hst n' h op ps (sent_so_far E ps w0 c) payload c c'"
      using chunk_completes [OF "1.prems"(1,2) n, of cur] by blast
    have n1: "Suc n < 2 ^ 64" using "1.prems"(3) part by (cases "r_data r") auto
    obtain c' where c': "writeFragment E (r_data r) True c1 = Some (None, c')"
      "completes inflated hst (Suc (Suc n)) h op (ps @ [cur]) (sent_so_far E (ps @ [cur]) w1 c1) (concat (ps @ [cur]) @ r_data r) c1 c'"
      using final_completes [OF c1(3,2) n1] by blast
    from c1(4) [OF c'(2)] c1(1) c'(1) part "1.prems"(4,5) show ?thesis
      by (intro exI [of _ c'] exI [of _ "Suc (Suc n)"]) (simp add: write_from_loop.simps [of E sz] ReadFull_eof)
  next
    case full
    obtain c1 w1 where c1: "writeFragment E cur False c = Some (None, c1)" "open_ok E hst (Suc n) h op (ps @ [cur]) w1 c1"
      "decoder_ok E hst inflated c1"
      "\<And>c' n' payload. completes inflated hst n' h op (ps @ [cur]) (sent_so_far E (ps @ [cur]) w1 c1) payload c1 c' \<Longrightarrow>
         completes inflated hst n' h op ps (sent_so_far E ps w0 c) payload c c'"
      using chunk_completes [OF "1.prems"(1,2) n, of cur] by blast
    let ?r = "r\<lparr>r_data := drop sz (r_data r)\<rparr>" and ?nxt = "take sz (r_data r)"
    have rf: "ReadFull sz r = (?nxt, None, ?r)" using full "1.prems"(5) by (simp add: ReadFull_eof)
    have b: "Suc n + length (r_data ?r) + 2 \<le> 2 ^ 64" using "1.prems"(3,4) full by simp
    have "\<exists>c' n'. write_from_loop E sz ?nxt (tot + int (length cur)) ?r c1
         = Some ((tot + int (length cur) + int (length ?nxt) + int (length (r_data ?r)), None), c')
       \<and> n' \<le> Suc n + length (r_data ?r) + 2
       \<and> completes inflated hst n' h op (ps @ [cur]) (sent_so_far E (ps @ [cur]) w1 c1) (concat (ps @ [cur]) @ ?nxt @ r_data ?r) c1 c'"
      by (rule "1.IH" [OF _ rf [symmetric] refl refl _ refl _ refl refl refl _ _ c1(3,2) b "1.prems"(4)])
         (use c1(1) "1.prems"(4,5) in simp_all)
    then obtain c' n' where c': "write_from_loop E sz ?nxt (tot + int (length cur)) ?r c1
         = Some ((tot + int (length cur) + int (length ?nxt) + int (length (r_data ?r)), None), c')"
       "n' \<le> Suc n + length (r_data ?r) + 2"
       "completes inflated hst n' h op (ps @ [cur]) (sent_so_far E (ps @ [cur]) w1 c1) (concat (ps @ [cur]) @ ?nxt @ r_data ?r) c1 c'"
      by (elim exE conjE) (rule that)
    have "n' \<le> n + length (r_data r) + 2" using c'(2) full "1.prems"(4) by simp
    with c1(4) [OF c'(3)] c'(1) c1(1) rf full "1.prems"(4) show ?thesis
      by (intro exI [of _ c'] exI [of _ n']) (simp add: write_from_loop.simps [of E sz])
  qed
qed

lemma WriteFrom_ok:
  assumes dok: "decoder_ok E hst inflated c" and ok: "wc_ok hst n h c" and n: "n + length (r_data r) + 2 \<le> 2 ^ 64"
    and op: "op \<in> {Text, Binary}" and r: "r_end r = None" and fs: "w_fragmentSize c > 0"
  shows "\<exists>c' n'. WriteFrom E op r c = Some ((int (length (r_data r)), None), c') \<and> n' \<le> n + length (r_data r) + 2
    \<and> delivers inflated hst n n' h op (r_data r) c c'"
proof (cases "nat (w_fragmentSize c) \<le> length (r_data r)")
  case False
  have n1: "n < 2 ^ 64" using n by simp
  obtain c' where c': "Write E op (r_data r) c = Some ((None, None), c')" "delivers inflated hst n (Suc n) h op (r_data r) c c'"
    using Write_ok [OF dok ok n1 op] by blast
  have "WriteFrom E op r c = Some ((int (length (r_data r)), None), c')"
    using False c'(1) op by (auto simp: WriteFrom_def ReadFull_eof [OF r] sync_result_def)
  with c'(2) show ?thesis by (intro exI [of _ c'] exI [of _ "Suc n"]) simp
next
  case True
  let ?sz = "nat (w_fragmentSize c)"
  let ?r = "r\<lparr>r_data := drop ?sz (r_data r)\<rparr>"
  obtain c1 w0 where b: "BeginMessage E op c = Some (None, c1)" "open_ok E hst n h op [] w0 c1" "wout c1 = wout c" "shape c1 = shape c"
    using BeginMessage_ok [OF dok ok op] by blast
  have dok1: "decoder_ok E hst inflated c1" using dok shape_wreach [OF b(4)] by (simp add: decoder_ok_def)
  have cf: "cc_config (w_comp c1) = cc_config (w_comp c)" "w_role c1 = w_role c" using b(4) by (simp_all add: shape_def)
  have sz: "?sz > 0" "n + length (r_data ?r) + 2 \<le> 2 ^ 64" "r_end ?r = None" using fs n r by simp_all
  from write_from_loop_ok [OF dok1 b(2) sz(2,1,3), of "take ?sz (r_data r)" 0]
  obtain c' n' where c': "write_from_loop E ?sz (take ?sz (r_data r)) 0 ?r c1 = Some ((int (length (r_data r)), None), c')"
    "n' \<le> n + length (r_data ?r) + 2" "completes inflated hst n' h op [] (sent_so_far E [] w0 c1) (r_data r) c1 c'"
    using True by auto
  have emp: "sent_so_far E [] w0 c1 = []" by (simp add: sent_so_far_def)
  obtain zs out where zs: "zs \<noteq> []" and z: "shape c' = shape c1" "wout c' = wout c1 @ out" "wired (w_role c1) out (msg_frames op (cc_config (w_comp c1) \<noteq> None) zs)"
    "stands_for inflated c1 h (cc_config (w_comp c1) \<noteq> None) (concat zs) (r_data r)"
    "wc_ok hst n' (if cc_config (w_comp c1) \<noteq> None then h @ r_data r else h) c'"
    using c'(3) [unfolded completes_def emp] by auto
  have fm: "framed (cc_config (w_comp c) \<noteq> None) (op, cc_config (w_comp c) \<noteq> None, zs)" using framed_data [OF op zs] by simp
  have "delivers inflated hst n n' h op (r_data r) c c'"
    by (rule deliversI [OF _ z(3) [unfolded cf] z(4) [unfolded cf stands_for_shape [OF b(4)]] fm z(5) [unfolded cf]]) (simp_all add: z(1,2) b(3,4))
  moreover have "WriteFrom E op r c = Some ((int (length (r_data r)), None), c')"
    using op True b(1) c'(1) by (auto simp: WriteFrom_def ReadFull_eof [OF r])
  ultimately show ?thesis using c'(2) by (intro exI [of _ c'] exI [of _ n']) simp
qed

end
