(* ===== verification/ConnWrite_Thm.thy ===== *)
theory ConnWrite_Thm
  imports ConnWrite_From
begin

text \<open>
  The theorems of the write side: deferred history is eager history, a prepared frame is the frame
  of its payload, and any sequence of sends decodes at the peer.
\<close>

section \<open>Sequences of sends\<close>

fun write_chunks :: "'w env \<Rightarrow> bytes list \<Rightarrow> 'w wconn \<Rightarrow> 'w wconn option" where
  "write_chunks E [] c = Some c"
| "write_chunks E (p # ps) c = (case WriteChunk E p c of Some (None, c) \<Rightarrow> write_chunks E ps c | _ \<Rightarrow> None)"

fun chunk_frames :: "opcode \<Rightarrow> bool \<Rightarrow> bytes list \<Rightarrow> frame list" where
  "chunk_frames op r [] = []"
| "chunk_frames op r (z # zs) = (op, False, r, z) # chunk_frames Continuation False zs"

lemma msg_frames_snoc:
  "msg_frames op r (zs @ [z]) = chunk_frames op r zs @ [(if zs = [] then op else Continuation, True, r \<and> zs = [], z)]"
proof (induction zs arbitrary: op r)
  case (Cons y zs)
  then show ?case by (cases "zs @ [z]") auto
qed simp

lemma write_chunks_ok:
  assumes "decoder_ok E hst inflated c" "open_ok E hst n h op ps w0 c" "n + length xs \<le> 2 ^ 64"
  shows "\<exists>c' w1 zs out. write_chunks E xs c = Some c' \<and> open_ok E hst (n + length xs) h op (ps @ xs) w1 c' \<and> shape c' = shape c
    \<and> wout c' = wout c @ out \<and> length zs = length xs
    \<and> wired (w_role c) out (chunk_frames (if ps = [] then op else Continuation) (cc_config (w_comp c) \<noteq> None \<and> ps = []) zs)
    \<and> (if cc_config (w_comp c) = None then concat zs = concat xs
       else emitted_all (e_flate E) (ps @ xs) w1 = emitted_all (e_flate E) ps w1 @ concat zs \<and> (ps \<noteq> [] \<longrightarrow> w1 = w0))"
  using assms
proof (induction xs arbitrary: c n ps w0)
  case Nil
  then show ?case
    by (intro exI [of _ c] exI [of _ w0] exI [of _ "[]"] exI [of _ "[]"]) (simp add: wired_Nil)
next
  case (Cons p xs)
  have n: "n < 2 ^ 64" using Cons.prems(3) by simp
  obtain c1 z w1 out1 where c1: "WriteChunk E p c = Some (None, c1)" "open_ok E hst (Suc n) h op (ps @ [p]) w1 c1" "shape c1 = shape c"
     "ps \<noteq> [] \<longrightarrow> w1 = w0" "adds E c ps p False w1 z" "wout c1 = wout c @ out1"
     "wired (w_role c) out1 [(if ps = [] then op else Continuation, False, cc_config (w_comp c) \<noteq> None \<and> ps = [], z)]"
    using WriteChunk_ok [OF Cons.prems(1,2) n, of p] by (elim exE conjE) (rule that)
  note sh = shape_wreach [OF c1(3)]
  have dok: "decoder_ok E hst inflated c1" using Cons.prems(1) sh by (simp add: decoder_ok_def)
  have n1: "Suc n + length xs \<le> 2 ^ 64" using Cons.prems(3) by simp
  obtain c' w2 zs out2 where c2: "write_chunks E xs c1 = Some c'" "open_ok E hst (Suc n + length xs) h op ((ps @ [p]) @ xs) w2 c'" "shape c' = shape c1"
    "wout c' = wout c1 @ out2" "length zs = length xs"
    "wired (w_role c1) out2 (chunk_frames (if ps @ [p] = [] then op else Continuation) (cc_config (w_comp c1) \<noteq> None \<and> ps @ [p] = []) zs)"
    "if cc_config (w_comp c1) = None then concat zs = concat xs
       else emitted_all (e_flate E) ((ps @ [p]) @ xs) w2 = emitted_all (e_flate E) (ps @ [p]) w2 @ concat zs \<and> (ps @ [p] \<noteq> [] \<longrightarrow> w2 = w1)"
    using Cons.IH [OF dok c1(2) n1] by (elim exE conjE) (rule that)
  have cf: "cc_config (w_comp c1) = cc_config (w_comp c)" using c1(3) by (simp add: shape_def)
  have w: "wired (w_role c) (out1 @ out2) (chunk_frames (if ps = [] then op else Continuation) (cc_config (w_comp c) \<noteq> None \<and> ps = []) (z # zs))"
    using wired_append [OF c1(7) c2(6) [unfolded conjunct2 [OF conjunct2 [OF sh]]]] by simp
  have "if cc_config (w_comp c) = None then concat (z # zs) = concat (p # xs)
       else emitted_all (e_flate E) (ps @ p # xs) w2 = emitted_all (e_flate E) ps w2 @ concat (z # zs) \<and> (ps \<noteq> [] \<longrightarrow> w2 = w0)"
    using c2(7) c1(4,5) cf by (auto simp: adds_def)
  with w c1(1,3,6) c2(1-5) show ?case
    by (intro exI [of _ c'] exI [of _ w2] exI [of _ "z # zs"] exI [of _ "out1 @ out2"]) simp
qed

definition send_fragments :: "'w env \<Rightarrow> opcode \<Rightarrow> bytes list \<Rightarrow> 'w wconn \<Rightarrow> 'w wconn option" where
  "send_fragments E op xs c =
    (case BeginMessage E op c of
       Some (None, c) \<Rightarrow>
         (case write_chunks E xs c of
            Some c \<Rightarrow> (case EndMessage E c of Some (None, c) \<Rightarrow> Some c | _ \<Rightarrow> None)
          | None \<Rightarrow> None)
     | _ \<Rightarrow> None)"

lemma send_fragments_ok:
  assumes dok: "decoder_ok E hst inflated c" and ok: "wc_ok hst n h c" and n: "n + length xs < 2 ^ 64" and op: "op \<in> {Text, Binary}"
  shows "\<exists>c'. send_fragments E op xs c = Some c' \<and> delivers inflated hst n (n + Suc (length xs)) h op (concat xs) c c'"
proof -
  obtain c1 w0 where b: "BeginMessage E op c = Some (None, c1)" "open_ok E hst n h op [] w0 c1" "wout c1 = wout c" "shape c1 = shape c"
    using BeginMessage_ok [OF dok ok op] by blast
  have dok1: "decoder_ok E hst inflated c1" using dok shape_wreach [OF b(4)] by (simp add: decoder_ok_def)
  have n1: "n + length xs \<le> 2 ^ 64" using n by simp
  obtain c2 w1 zs out where w: "write_chunks E xs c1 = Some c2" "open_ok E hst (n + length xs) h op ([] @ xs) w1 c2" "shape c2 = shape c1"
    "wout c2 = wout c1 @ out" "length zs = length xs"
    "wired (w_role c1) out (chunk_frames (if [] = ([] :: bytes list) then op else Continuation) (cc_config (w_comp c1) \<noteq> None \<and> [] = ([] :: bytes list)) zs)"
    "if cc_config (w_comp c1) = None then concat zs = concat xs
       else emitted_all (e_flate E) ([] @ xs) w1 = emitted_all (e_flate E) [] w1 @ concat zs \<and> ([] \<noteq> ([] :: bytes list) \<longrightarrow> w1 = w0)"
    using write_chunks_ok [OF dok1 b(2) n1] by (elim exE conjE) (rule that)
  have sh: "shape c2 = shape c" using w(3) b(4) by simp
  have dok2: "decoder_ok E hst inflated c2" using dok shape_wreach [OF sh] by (simp add: decoder_ok_def)
  have cf: "cc_config (w_comp c2) = cc_config (w_comp c)" "cc_config (w_comp c1) = cc_config (w_comp c)" "w_role c1 = w_role c" "w_role c2 = w_role c"
    using sh b(4) by (simp_all add: shape_def)
  have Z1: "cc_config (w_comp c2) \<noteq> None \<longrightarrow> concat zs = emitted_all (e_flate E) ([] @ xs) w1"
    and Z2: "cc_config (w_comp c2) = None \<longrightarrow> concat zs = concat ([] @ xs)"
    using w(7) cf(1,2) by (simp_all split: if_splits)
  obtain c' z out' cmpd where e: "writeFragment E [] True c2 = Some (None, c')" "shape c' = shape c2" "wout c' = wout c2 @ out'"
    "cmpd = (cc_config (w_comp c2) \<noteq> None)"
    "wired (w_role c2) out' [(if [] @ xs = [] then op else Continuation, True, cmpd \<and> [] @ xs = [], z)]"
    "stands_for inflated c2 h cmpd (concat zs @ z) (concat ([] @ xs) @ [])" "wc_ok hst (Suc (n + length xs)) (if cmpd then h @ concat ([] @ xs) @ [] else h) c'"
    using final_fragment_ok [OF dok2 w(2) n Z1 Z2, of "[]"] by (elim exE conjE) (rule that)
  have "(zs = []) = (xs = [])" using w(5) by auto
  then have wd: "wired (w_role c) (out @ out') (msg_frames op cmpd (zs @ [z]))"
    using wired_append [OF w(6) [unfolded cf] e(5) [unfolded cf]] e(4) cf(1) by (simp add: msg_frames_snoc)
  have "delivers inflated hst n (n + Suc (length xs)) h op (concat xs) c c'"
    by (rule deliversI [OF _ wd])
       (use e(2,3) e(6,7) [unfolded append_Nil append_Nil2] w(4) b(3) sh stands_for_shape [OF sh] framed_data [OF op] e(4) cf(1) in simp_all)
  with b(1) w(1) e(1) show ?thesis by (simp add: send_fragments_def EndMessage_def)
qed

lemma control_ok:
  assumes dok: "decoder_ok E hst inflated c" and ok: "wc_ok hst n h c" and op: "op \<in> {Ping, Pong}" "length payload \<le> 125"
  shows "\<exists>c'. conn_send E op payload c = (None, c') \<and> delivers inflated hst n (Suc n) h op payload c c'"
proof -
  have r: "rand_ok E" using dok by (simp add: decoder_ok_def)
  have rd: "net_ready c" and fr: "fr_op (w_frag c) = 0" using ok by (simp_all add: wc_ok_def)
  have "call_ok (TxEncode op payload)" using op by (auto simp: call_ok_def)
  from with_tx_goes [OF this rd r tx_frame.simps(1)]
  obtain hdr b c1 key where t: "with_tx E (\<lambda>gc rnd. sender_Encode gc rnd op payload) c = (Inr (hdr, b), c1)" "net_ready c1" "same_side c c1"
    "w_net c1 = w_net c" "key_for (w_role c) key" "hdr @ b = wire_frame op True False key payload" by auto
  define c' where "c' = c1\<lparr>w_net := (w_net c1)\<lparr>n_out := n_out (w_net c1) @ hdr @ b\<rparr>\<rparr>"
  have "n_script (w_net c1) = []" using t(2) by (simp add: net_ready_def)
  then have "conn_send E op payload c = (None, c')" using t(1) fr by (simp add: conn_send_def conn_write_ok c'_def)
  moreover have "delivers inflated hst n (Suc n) h op payload c c'"
    by (rule deliversI [where out = "hdr @ b" and cmpd = False and zs = "[payload]"])
       (use t ok wired_one [OF t(5)] in \<open>simp_all add: c'_def wout_def stands_for_def wc_ok_def same_side_def net_ready_def shape_def takeover_def cc_ok_Suc\<close>)
  ultimately show ?thesis by blast
qed

datatype wop =
    OpWrite opcode bytes
  | OpPrepared Prepared
  | OpFragments opcode "bytes list"
  | OpFrom opcode bytes
  | OpPing bytes
  | OpPong bytes

fun do_op :: "'w env \<Rightarrow> wop \<Rightarrow> 'w wconn \<Rightarrow> 'w wconn option" where
  "do_op E (OpWrite op p) c = (case Write E op p c of Some ((_, None), c) \<Rightarrow> Some c | _ \<Rightarrow> None)"
| "do_op E (OpPrepared p) c = (case WritePrepared E p c of Some ((_, None), _, c) \<Rightarrow> Some c | _ \<Rightarrow> None)"
| "do_op E (OpFragments op xs) c = send_fragments E op xs c"
| "do_op E (OpFrom op p) c =
    (case WriteFrom E op \<lparr>r_data = p, r_end = None\<rparr> c of
       Some ((k, None), c) \<Rightarrow> if k = int (length p) then Some c else None | _ \<Rightarrow> None)"
| "do_op E (OpPing p) c = (case conn_Ping E p c of (None, c) \<Rightarrow> Some c | _ \<Rightarrow> None)"
| "do_op E (OpPong p) c = (case conn_Pong E p c of (None, c) \<Rightarrow> Some c | _ \<Rightarrow> None)"

fun do_ops :: "'w env \<Rightarrow> wop list \<Rightarrow> 'w wconn \<Rightarrow> 'w wconn option" where
  "do_ops E [] c = Some c"
| "do_ops E (x # xs) c = (case do_op E x c of Some c \<Rightarrow> do_ops E xs c | None \<Rightarrow> None)"

fun wop_msg :: "wop \<Rightarrow> opcode \<times> bytes" where
  "wop_msg (OpWrite op p) = (op, p)"
| "wop_msg (OpPrepared p) = (pr_op p, pr_payload p)"
| "wop_msg (OpFragments op xs) = (op, concat xs)"
| "wop_msg (OpFrom op p) = (op, p)"
| "wop_msg (OpPing p) = (Ping, p)"
| "wop_msg (OpPong p) = (Pong, p)"

fun wop_ok :: "(bytes \<Rightarrow> bytes \<Rightarrow> bytes option) \<Rightarrow> wop \<Rightarrow> bool" where
  "wop_ok inflated (OpWrite op p) \<longleftrightarrow> op \<in> {Text, Binary}"
| "wop_ok inflated (OpPrepared p) \<longleftrightarrow> prep_ok inflated p"
| "wop_ok inflated (OpFragments op xs) \<longleftrightarrow> op \<in> {Text, Binary}"
| "wop_ok inflated (OpFrom op p) \<longleftrightarrow> op \<in> {Text, Binary}"
| "wop_ok inflated (OpPing p) \<longleftrightarrow> length p \<le> 125"
| "wop_ok inflated (OpPong p) \<longleftrightarrow> length p \<le> 125"

fun wop_cost :: "wop \<Rightarrow> nat" where
  "wop_cost (OpFragments op xs) = Suc (length xs)"
| "wop_cost (OpFrom op p) = length p + 2"
| "wop_cost _ = 1"

lemma do_op_ok:
  assumes dok: "decoder_ok E hst inflated c" and ok: "wc_ok hst n h c" and n: "n + wop_cost x \<le> 2 ^ 64" and x: "wop_ok inflated x"
    and fs: "w_fragmentSize c > 0"
  shows "\<exists>c' n'. do_op E x c = Some c' \<and> n' \<le> n + wop_cost x \<and> delivers inflated hst n n' h (fst (wop_msg x)) (snd (wop_msg x)) c c'"
proof (cases x)
  case (OpWrite op p)
  with Write_ok [OF dok ok, of op p] n x show ?thesis by fastforce
next
  case (OpPrepared p)
  with WritePrepared_ok [OF dok ok, of p] n x show ?thesis by fastforce
next
  case (OpFragments op xs)
  with send_fragments_ok [OF dok ok, of xs op] n x show ?thesis by fastforce
next
  case (OpFrom op p)
  with WriteFrom_ok [OF dok ok _ _ _ fs, of "\<lparr>r_data = p, r_end = None\<rparr>" op] n x show ?thesis by fastforce
next
  case (OpPing p)
  with control_ok [OF dok ok, of Ping p] x show ?thesis by (fastforce simp: conn_Ping_def)
next
  case (OpPong p)
  with control_ok [OF dok ok, of Pong p] x show ?thesis by (fastforce simp: conn_Pong_def)
qed

section \<open>The peer\<close>

text \<open>
  What a peer makes of a stream of reassembled messages: a compressed one is inflated against the
  history it keeps, the last \<open>R\<close> bytes of what it decoded, or none without takeover.
\<close>

fun rx_decode ::
    "(bytes \<Rightarrow> bytes \<Rightarrow> bytes option) \<Rightarrow> bool \<Rightarrow> nat \<Rightarrow> bytes \<Rightarrow> (opcode \<times> bool \<times> bytes list) list \<Rightarrow> (opcode \<times> bytes) list option" where
  "rx_decode inflated rt R D [] = Some []"
| "rx_decode inflated rt R D ((op, cmpd, zs) # ms) =
    (if cmpd
     then (case inflated D (concat zs @ sync_tail) of
             None \<Rightarrow> None
           | Some p \<Rightarrow> map_option ((#) (op, p)) (rx_decode inflated rt R (if rt then lastn R (D @ p) else []) ms))
     else map_option ((#) (op, concat zs)) (rx_decode inflated rt R D ms))"

definition frames_of :: "(opcode \<times> bool \<times> bytes list) list \<Rightarrow> frame list" where
  "frames_of msgs = concat (map (\<lambda>(op, cmpd, zs). msg_frames op cmpd zs) msgs)"

lemma do_ops_ok:
  assumes "decoder_ok E hst inflated c" "wc_ok hst n h c" "n + sum_list (map wop_cost xs) \<le> 2 ^ 64" "list_all (wop_ok inflated) xs"
    "takeover c \<longrightarrow> rt" "wreach c \<le> R" "D = (if rt then lastn R h else [])" "w_fragmentSize c > 0"
  shows "\<exists>c' msgs out. do_ops E xs c = Some c' \<and> wout c' = wout c @ out \<and> wired (w_role c) out (frames_of msgs)
     \<and> list_all (framed (cc_config (w_comp c) \<noteq> None)) msgs \<and> rx_decode inflated rt R D msgs = Some (map wop_msg xs)"
  using assms
proof (induction xs arbitrary: c n h D)
  case Nil
  then show ?case by (intro exI [of _ c] exI [of _ "[]"] exI [of _ "[]"]) (simp add: frames_of_def wired_Nil)
next
  case (Cons x xs)
  have n: "n + wop_cost x \<le> 2 ^ 64" and x: "wop_ok inflated x" using Cons.prems(3,4) by simp_all
  obtain c1 n' where c1: "do_op E x c = Some c1" "delivers inflated hst n n' h (fst (wop_msg x)) (snd (wop_msg x)) c c1"
    and n': "n' \<le> n + wop_cost x"
    using do_op_ok [OF Cons.prems(1,2) n x Cons.prems(8)] by blast
  define op p where "op = fst (wop_msg x)" and "p = snd (wop_msg x)"
  from c1(2) obtain out cmpd zs where d: "wout c1 = wout c @ out" "wired (w_role c) out (msg_frames op cmpd zs)"
    "stands_for inflated c h cmpd (concat zs) p" "wc_ok hst n' (if cmpd then h @ p else h) c1" "shape c1 = shape c"
    "framed (cc_config (w_comp c) \<noteq> None) (op, cmpd, zs)"
    unfolding delivers_def op_def p_def by blast
  note sh = shape_wreach [OF d(5)]
  have dok: "decoder_ok E hst inflated c1" using Cons.prems(1) sh by (simp add: decoder_ok_def)
  define D' where "D' = (if rt then lastn R (if cmpd then h @ p else h) else [])"
  have n1: "n' + sum_list (map wop_cost xs) \<le> 2 ^ 64" using Cons.prems(3) n' by simp
  have fs: "w_fragmentSize c1 > 0" using d(5) Cons.prems(8) by (simp add: shape_def)
  obtain c' msgs out2 where c': "do_ops E xs c1 = Some c'" "wout c' = wout c1 @ out2" "wired (w_role c1) out2 (frames_of msgs)"
     "list_all (framed (cc_config (w_comp c1) \<noteq> None)) msgs" "rx_decode inflated rt R D' msgs = Some (map wop_msg xs)"
    using Cons.IH [OF dok d(4) n1 _ _ _ D'_def fs] Cons.prems(4-6) sh by auto
  have w: "wired (w_role c) (out @ out2) (frames_of ((op, cmpd, zs) # msgs))"
    using wired_append [OF d(2) c'(3) [unfolded conjunct2 [OF conjunct2 [OF sh]]]] by (simp add: frames_of_def)
  have "rx_decode inflated rt R D ((op, cmpd, zs) # msgs) = Some ((op, p) # map wop_msg xs)"
  proof (cases cmpd)
    case True
    have "takeover c \<longrightarrow> suffix (lastn (wreach c) h) D"
      using Cons.prems(5-7) suffix_lastn_mono [of "wreach c" R h] by auto
    then have "inflated D (concat zs @ sync_tail) = Some p" using d(3) True by (simp add: stands_for_def)
    moreover have "(if rt then lastn R (D @ p) else []) = D'" using Cons.prems(7) True by (simp add: D'_def)
    ultimately show ?thesis using c'(5) True by simp
  next
    case False
    then have "concat zs = p" "D' = D" using d(3) Cons.prems(7) by (simp_all add: stands_for_def D'_def)
    then show ?thesis using c'(5) False by simp
  qed
  moreover have "(op, p) = wop_msg x" by (simp add: op_def p_def)
  moreover have "cc_config (w_comp c1) = cc_config (w_comp c)" using d(5) by (simp add: shape_def)
  ultimately show ?case
    using c1(1) c'(1,2,4) d(1,6) w by (intro exI [of _ c'] exI [of _ "(op, cmpd, zs) # msgs"] exI [of _ "out @ out2"]) simp
qed

definition config_valid :: "Compression option \<Rightarrow> bool" where
  "config_valid cmpr \<longleftrightarrow> (case cmpr of None \<Rightarrow> True
     | Some cfg \<Rightarrow> -2 \<le> cp_Level cfg \<and> cp_Level cfg \<le> 9 \<and> validBits (SendWindowBits cfg))"

lemma new_wconn_ok:
  assumes "config_valid cmpr" "n_script net = []" "comp_pools_ok ps"
  shows "wc_ok hst 0 [] (new_wconn a role vectored fs shared cmpr net ps)"
proof -
  have tx: "tx_ready (sender_Init role zero_sender)" "tx_role (sender_Init role zero_sender) = role"
    by (simp_all add: tx_ready_def sender_inv_def sender_Init_def zero_sender_def)
  have "cc_ok hst 0 [] (new_compressorContext a shared cmpr)"
  proof (cases cmpr)
    case None
    then show ?thesis by (simp add: new_compressorContext_def cc_ok_def)
  next
    case (Some cfg)
    have ok: "cfg_ok cfg" using assms(1) Some by (auto simp: config_valid_def cfg_ok_def bits_ok_def validBits_def)
    have "Size \<lparr>Bits = SendWindowBits cfg, wbuf = [], wcap = 0, gen = 0\<rparr> = cfg_window cfg"
      using ok by (auto simp: Size_def cfg_window_def cfg_ok_def bits_ok_def windowSize_def)
    moreover have "dict (Some \<lparr>Bits = SendWindowBits cfg, wbuf = [], wcap = 0, gen = 0\<rparr>) = []"
      by (simp add: dict_lastn)
    ultimately show ?thesis
      using Some ok
      by (simp add: new_compressorContext_def cc_ok_def new_window_def pend_ok_def cc_hist_def pend_data_def cc_size_def
          win_of_def pendingHistory_def)
  qed
  with tx assms show ?thesis
    by (simp add: new_wconn_def wc_ok_def net_ready_def)
qed

lemma new_conn_sends:
  assumes F: "flate_history (e_flate E) hst" and dec: "flate_decodes (e_flate E) hst inflated (wreach c)" and rand: "rand_ok E"
    and c: "c = new_wconn a role vectored fs shared cmpr net ps" "config_valid cmpr" "fs \<ge> 0" "n_script net = []" "comp_pools_ok ps"
    and xs: "list_all (wop_ok inflated) xs" "sum_list (map wop_cost xs) \<le> 2 ^ 64"
    and peer: "takeover c \<longrightarrow> rt" "wreach c \<le> R"
  shows "\<exists>c' msgs out. do_ops E xs c = Some c' \<and> wout c' = wout c @ out \<and> wired role out (frames_of msgs)
     \<and> list_all (framed (cmpr \<noteq> None)) msgs \<and> rx_decode inflated rt R [] msgs = Some (map wop_msg xs)"
proof -
  have dok: "decoder_ok E hst inflated c" using F dec rand by (simp add: decoder_ok_def)
  have ok: "wc_ok hst 0 [] c" using new_wconn_ok c by simp
  have n: "0 + sum_list (map wop_cost xs) \<le> 2 ^ 64" using xs(2) by simp
  have "w_role c = role" by (simp add: c(1) new_wconn_def)
  moreover have "cc_config (w_comp c) = cmpr" by (cases cmpr) (simp_all add: c(1) new_wconn_def new_compressorContext_def)
  moreover have "w_fragmentSize c > 0" using c(3) by (simp add: c(1) new_wconn_def cmp_Or_def DefaultFragmentSize_def)
  ultimately show ?thesis using do_ops_ok [OF dok ok n xs(1) peer, of "[]"] by simp
qed


section \<open>A concrete encoder\<close>

text \<open>An encoder that marks every byte as a literal: it satisfies what the code relies on.\<close>

definition lit_flate :: "bytes flate_writer" where
  "lit_flate = \<lparr>ResetDict = (\<lambda>d w. d), FWrite = (\<lambda>p w. (None, concat (map (\<lambda>b. [1, b]) p), w @ p)),
     FFlush = (\<lambda>w. (None, sync_tail, w)), NewWriter = (\<lambda>l. Inr []), NewWriterWindow = (\<lambda>n. Inr [])\<rparr>"

fun lit_inflate :: "bytes \<Rightarrow> bytes option" where
  "lit_inflate [] = Some []"
| "lit_inflate (x # y # r) =
    (if x = 1 then map_option ((#) y) (lit_inflate r)
     else case r of u # v # r' \<Rightarrow> if x = 0 \<and> y = 0 \<and> u = 0xff \<and> v = 0xff then lit_inflate r' else None | _ \<Rightarrow> None)"
| "lit_inflate _ = None"

lemma lit_inflate_literals: "lit_inflate (concat (map (\<lambda>b. [1, b]) p) @ s) = map_option ((@) p) (lit_inflate s)"
  by (induction p) (auto simp: option.map_comp comp_def option.map_ident)

lemma lit_history: "flate_history lit_flate (\<lambda>w. w)"
  by (simp add: flate_history_def lit_flate_def)

lemma lit_decodes: "flate_decodes lit_flate (\<lambda>w. w) (\<lambda>D. lit_inflate) m"
proof -
  have "lit_inflate (emitted_all lit_flate ps w) = Some (concat ps)" for ps w
  proof (induction ps arbitrary: w)
    case (Cons p ps)
    have "emitted lit_flate p w = concat (map (\<lambda>b. [1, b]) p) @ sync_tail" by (simp add: emitted_def lit_flate_def)
    with Cons show ?case by (simp add: lit_inflate_literals)
  qed simp
  then show ?thesis by (simp add: flate_decodes_def)
qed

definition lit_env :: "bytes env" where
  "lit_env = \<lparr>e_flate = lit_flate, e_gc = (\<lambda>c n. n), e_rand = (\<lambda>k. [1, 2, 3, 4]), e_pick = (\<lambda>k. Some 0), e_wait = (\<lambda>s. None)\<rparr>"

definition demo_config :: Compression where
  "demo_config = \<lparr>cp_Level = 1, cp_MinSize = 1, SendContextTakeover = True, ReceiveContextTakeover = True,
     SendWindowBits = 9, ReceiveWindowBits = 0\<rparr>"

definition demo_conn :: "bytes wconn" where
  "demo_conn = new_wconn 7 Server True 2 False (Some demo_config) \<lparr>n_out = [], n_script = []\<rparr> (\<lambda>i. [])"

definition demo_prepared :: Prepared where
  "demo_prepared = (case Prepare (\<lambda>c n. n) Text [104, 105] of Inr p \<Rightarrow> p | Inl _ \<Rightarrow> undefined)"

lemma demo_prepared_ok: "prep_ok inflated demo_prepared" "pr_op demo_prepared = Text" "pr_payload demo_prepared = [104, 105]"
  using Prepare_ok [of Text "\<lambda>c n. n" "[104, 105]" inflated] by (auto simp: demo_prepared_def)


section \<open>Broadcasts\<close>

text \<open>C16: Deferring the history of broadcasts is unobservable. However many prepared messages a connection
  takes without compressing anything of its own, at most eight are held, nothing panics, and when the
  deferred payloads are applied the window is the one that copying every payload at once
  would have given.\<close>

theorem deferred_history_is_eager:
  assumes "pend_ok cc" "cc_pending cc = []"
  shows "(\<forall>p. notePrepared E p (fold (noted E) ps cc) = Some (noted E p (fold (noted E) ps cc)))
    \<and> length (cc_pending (fold (noted E) ps cc)) \<le> 8
    \<and> (\<exists>cc'. applyPending E (fold (noted E) ps cc) = Some cc'
         \<and> dict (Some (win_of cc')) = dict (Some (fold (add_win gc) (map pr_payload ps) (win_of cc))))"
proof -
  let ?c = "fold (noted E) ps cc"
  have h: "cc_hist cc = lastn (cc_size cc) (dict (Some (win_of cc)))" using assms(2) by (simp add: cc_hist_def pend_data_def)
  from pend.hist_adds [OF assms(1) h, of E ps]
  have ok: "pend_ok ?c" and hist: "cc_hist ?c = lastn (cc_size cc) (dict (Some (win_of cc)) @ concat (map pr_payload ps))" by simp_all
  obtain a win where "cc_window ?c = Some (a, win)" using ok by (auto simp: pend_ok_def)
  from applyPending_ok [OF this, of E] obtain cc' where ap: "applyPending E ?c = Some cc'" by simp
  have "dict (Some (win_of cc')) = dict (Some (fold (add_win gc) (map pr_payload ps) (win_of cc)))"
    using cc_hist_apply(4) [OF ok ap] hist by (simp add: fold_add_win cc_size_def)
  with ok ap noted_ok(1) [OF ok] show ?thesis by (simp add: pend_ok_def pendingHistory_def)
qed

theorem deferred_history_is_eager_witness:
  "\<exists>cc'. applyPending lit_env (fold (noted lit_env) [demo_prepared, demo_prepared] (w_comp demo_conn)) = Some cc'
     \<and> dict (Some (win_of cc')) = dict (Some (fold (add_win (\<lambda>c n. n)) [[104, 105], [104, 105]] (win_of (w_comp demo_conn))))"
proof -
  have "pend_ok (w_comp demo_conn)" "cc_pending (w_comp demo_conn) = []"
    by (simp_all add: demo_conn_def new_wconn_def new_compressorContext_def demo_config_def new_window_def pend_ok_def
        pend_data_def pendingHistory_def)
  from deferred_history_is_eager [OF this, of lit_env "[demo_prepared, demo_prepared]" "\<lambda>c n. n"] show ?thesis
    by (simp add: demo_prepared_ok(3))
qed

text \<open>C26: A prepared message is the frame \<open>Write\<close> would send from a server, built by copying or by an encoder that
  appends in place: both give the same frame, the wire form of the payload, and \<open>Payload\<close> is
  the payload; an encoder that shrinks the buffer below the reserved header is refused.\<close>

theorem prepared_frame:
  assumes "op \<in> {Text, Binary}"
  shows "(\<exists>p. Prepare gc op payload = Inr p \<and> pr_frame p = wire_frame op True False None payload \<and> pr_payload p = payload
       \<and> PrepareAppend gc op (\<lambda>dst. Inr (dst @ payload)) = Inr p)
    \<and> (\<forall>fill buf. fill (replicate MaxHeaderSize 0) = Inr buf \<and> length buf < MaxHeaderSize
         \<longrightarrow> PrepareAppend gc op fill = Inl ErrProtocol)"
proof -
  obtain p where p: "Prepare gc op payload = Inr p" "prep_ok (\<lambda>D z. None) p" "pr_op p = op" "pr_payload p = payload"
    using Prepare_ok [OF assms] by blast
  moreover have "PrepareAppend gc op (\<lambda>dst. Inr (dst @ payload)) = Prepare gc op payload" by (rule PrepareAppend_eq) simp
  ultimately show ?thesis using assms by (auto simp: prep_ok_def PrepareAppend_def)
qed

theorem prepared_frame_witness:
  "\<exists>p. Prepare (\<lambda>c n. n) Text [104, 105] = Inr p \<and> pr_frame p = [0x81, 2, 104, 105]"
proof -
  have "Text \<in> {Text, Binary}" by simp
  from prepared_frame [OF this, of "\<lambda>c n. n" "[104, 105]"] obtain p where
    "Prepare (\<lambda>c n. n) Text [104, 105] = Inr p" "pr_frame p = wire_frame Text True False None [104, 105]" by blast
  moreover have "wire_frame Text True False None [104, 105] = [0x81, 2, 104, 105]" by code_simp
  ultimately show ?thesis by simp
qed

end
