(* ===== verification/ConnWrite_Queue.thy ===== *)
theory ConnWrite_Queue
  imports ConnWrite_Thm
begin

text \<open>
  Queued sends: the limit is checked before anything is encoded, so a frame is never encoded and then
  dropped.
\<close>

lemma reserve_enqueues:
  assumes "reserve n q = None"
  obtains seq m q' where "enqueue header body ext q = (Inr (seq, m), q')"
proof -
  obtain r q' where "enqueue header body ext q = (r, q')" by (cases "enqueue header body ext q")
  with assms show ?thesis
    by (cases r) (auto simp: reserve_def enqueue_def Let_def split: if_splits option.splits prod.splits intro: that)
qed

lemma preparedFrame_refused:
  "preparedFrame E p c = Some (Inl e, p', c') \<Longrightarrow> c' = c \<and> p' = p \<and> (e = ErrMessageOpen \<or> e = ErrClosing)"
  by (auto simp: preparedFrame_def split: if_splits bind_splits)


definition full_conn :: "bytes wconn" where
  "full_conn = demo_conn\<lparr>w_queue := Some (snd (enqueue [0x82, 1] [7] None (NewQueue 4 None)))\<rparr>"


end
