(* ===== verification/Bufpool.thy ===== *)
theory Bufpool
  imports Ews_Prelude
begin

text \<open>
  The size-class buffer pool, \<^verbatim>\<open>src/internal/bufpool/bufpool.go\<close>. A pooled buffer is
  its capacity: the contents are whatever the previous holder left and the length is reset. The
  classes are a map from class index to the capacities pooled there; \<open>sync.Pool\<close> may hand out
  any pooled value or none at all, which is the argument \<open>pick\<close> (an index, or \<open>None\<close>).
  A class index outside the array is \<open>None\<close>, the panic of the source.
\<close>

definition MinBits :: nat where "MinBits = 10"
definition MaxBits :: nat where "MaxBits = 26"

text \<open>\<open>bits.Len\<close> of an unsigned integer.\<close>

fun bits_Len :: "nat \<Rightarrow> nat" where
  "bits_Len n = (if n = 0 then 0 else Suc (bits_Len (n div 2)))"

declare bits_Len.simps [simp del]

text \<open>\<open>uint(n)\<close> of a 64-bit int.\<close>

definition go_uint :: "int \<Rightarrow> nat" where
  "go_uint n = nat (n mod 2 ^ 64)"

definition class_of :: "int \<Rightarrow> nat" where
  "class_of n = max MinBits (bits_Len (go_uint (n - 1)))"

type_synonym pools = "nat \<Rightarrow> nat list"

definition pool_Get :: "nat option \<Rightarrow> int \<Rightarrow> pools \<Rightarrow> (nat \<times> pools) option" where
  "pool_Get pick n ps =
    (if n > 2 ^ MaxBits then Some (nat n, ps)
     else
       (let c = class_of n
        in if c > MaxBits then None
           else case pick of
                  Some i \<Rightarrow> if i < length (ps c)
                            then Some (ps c ! i, ps(c := take i (ps c) @ drop (Suc i) (ps c)))
                            else Some (2 ^ c, ps)
                | None \<Rightarrow> Some (2 ^ c, ps)))"

definition pool_Put :: "nat option \<Rightarrow> pools \<Rightarrow> pools option" where
  "pool_Put b ps =
    (case b of
       None \<Rightarrow> Some ps
     | Some c \<Rightarrow>
        if c < 2 ^ MinBits \<or> c > 2 ^ MaxBits \<or> and (of_nat c :: u64) (of_nat c - 1) \<noteq> 0 then Some ps
        else if bits_Len c = 0 \<or> bits_Len c - 1 > MaxBits then None
        else Some (ps(bits_Len c - 1 := c # ps (bits_Len c - 1))))"

section \<open>Classes\<close>

lemma bits_Len_le: "bits_Len n \<le> k \<longleftrightarrow> n < 2 ^ k"
proof (induction n arbitrary: k rule: bits_Len.induct)
  case (1 n)
  show ?case
  proof (cases "n = 0")
    case True
    then show ?thesis by (simp add: bits_Len.simps)
  next
    case False
    then have e: "bits_Len n = Suc (bits_Len (n div 2))" by (subst bits_Len.simps) simp
    show ?thesis
    proof (cases k)
      case 0
      with e False show ?thesis by simp
    next
      case (Suc j)
      with e 1 [OF False, of j] show ?thesis by (simp add: div_less_iff_less_mult mult.commute)
    qed
  qed
qed

lemma bits_Len_power [simp]: "bits_Len (2 ^ k) = Suc k"
proof -
  have "bits_Len (2 ^ k) \<le> Suc k" by (simp add: bits_Len_le)
  moreover have "\<not> bits_Len (2 ^ k) \<le> k" by (simp add: bits_Len_le)
  ultimately show ?thesis by simp
qed

lemma power_of_two_and:
  assumes "0 < c" "c < 2 ^ 64" "and (of_nat c :: u64) (of_nat c - 1) = 0"
  shows "\<exists>k. c = 2 ^ k"
proof -
  define w where "w = (of_nat c :: u64)"
  have u: "unat w = c" using assms(2) by (simp add: w_def)
  define k where "k = bits_Len c - 1"
  have k: "bits_Len c = Suc k" using assms(1) by (subst bits_Len.simps) (simp add: k_def bits_Len.simps)
  have lo: "2 ^ k \<le> c" using bits_Len_le [of c k] k by auto
  have hi: "c < 2 * 2 ^ k" using bits_Len_le [of c "Suc k"] k by auto
  have "c = 2 ^ k"
  proof (rule ccontr)
    assume "c \<noteq> 2 ^ k"
    with lo have lt: "2 ^ k \<le> c - 1" "c - 1 < 2 * 2 ^ k" using hi by auto
    have bitk: "bit m k" if "2 ^ k \<le> m" "m < 2 * 2 ^ k" for m :: nat
    proof -
      have "m div 2 ^ k = 1" using that by (intro div_nat_eqI) auto
      then show ?thesis by (simp add: bit_iff_odd)
    qed
    have k64: "k < 64"
    proof (rule ccontr)
      assume "\<not> k < 64"
      then have "(2::nat) ^ 64 \<le> 2 ^ k" by (intro power_increasing) auto
      with lo assms(2) show False by simp
    qed
    have "bit w k" using bitk [OF lo hi] k64 by (simp add: w_def bit_simps)
    moreover have "w - 1 = of_nat (c - 1)" using assms(1) by (simp add: w_def of_nat_diff)
    then have "bit (w - 1) k" using bitk [OF lt] k64 by (simp add: bit_simps)
    ultimately have "bit (and w (w - 1)) k" by (simp add: bit_and_iff)
    with assms(3) show False by (simp add: w_def)
  qed
  then show ?thesis ..
qed

definition pools_ok :: "pools \<Rightarrow> bool" where
  "pools_ok ps \<longleftrightarrow> (\<forall>c. \<forall>x\<in>set (ps c). x = 2 ^ c \<and> MinBits \<le> c \<and> c \<le> MaxBits)"

lemma class_of_bounds:
  assumes "1 \<le> n" "n \<le> 2 ^ MaxBits"
  shows "n \<le> 2 ^ class_of n" "MinBits \<le> class_of n" "class_of n \<le> MaxBits"
    "class_of n = MinBits \<or> 2 ^ class_of n < 2 * n"
proof -
  have g: "go_uint (n - 1) = nat (n - 1)" using assms by (simp add: go_uint_def MaxBits_def)
  have "go_uint (n - 1) < 2 ^ class_of n"
    using bits_Len_le [of "go_uint (n - 1)" "class_of n"] by (simp add: class_of_def)
  then have "int (nat (n - 1)) < 2 ^ class_of n" by (simp add: g flip: of_nat_less_iff [where 'a = int])
  then show "n \<le> 2 ^ class_of n" using assms(1) by simp
  show "MinBits \<le> class_of n" by (simp add: class_of_def)
  have "nat (n - 1) < 2 ^ MaxBits" using assms by (simp add: MaxBits_def)
  then show "class_of n \<le> MaxBits" by (simp add: class_of_def g bits_Len_le MinBits_def MaxBits_def)
  show "class_of n = MinBits \<or> 2 ^ class_of n < 2 * n"
  proof (cases "bits_Len (nat (n - 1)) \<le> MinBits")
    case False
    then obtain k where k: "bits_Len (nat (n - 1)) = Suc k" by (cases "bits_Len (nat (n - 1))") auto
    then have "\<not> nat (n - 1) < 2 ^ k" using bits_Len_le [of "nat (n - 1)" k] by simp
    then have "int (2 ^ k) \<le> n - 1" using assms(1) by linarith
    then have "2 ^ Suc k < 2 * n" by simp
    with False k show ?thesis by (simp add: class_of_def g max_def)
  qed (simp add: class_of_def g)
qed

lemma pools_ok_Get:
  assumes "pools_ok ps" "pool_Get pick n ps = Some (c, ps')"
  shows "pools_ok ps'"
proof -
  have "set (ps' k) \<subseteq> set (ps k)" for k
    using assms(2)
    by (auto simp: pool_Get_def Let_def split: if_splits option.splits intro: in_set_takeD in_set_dropD)
  with assms(1) show ?thesis unfolding pools_ok_def by blast
qed

lemma pools_ok_Put:
  assumes "pools_ok ps"
  shows "\<exists>ps'. pool_Put b ps = Some ps' \<and> pools_ok ps'"
proof (cases "b = None \<or> (\<exists>c. b = Some c \<and> (c < 2 ^ MinBits \<or> c > 2 ^ MaxBits \<or> and (of_nat c :: u64) (of_nat c - 1) \<noteq> 0))")
  case True
  with assms show ?thesis by (auto simp: pool_Put_def)
next
  case False
  then obtain c where c: "b = Some c" "2 ^ MinBits \<le> c" "c \<le> 2 ^ MaxBits" "and (of_nat c :: u64) (of_nat c - 1) = 0" by auto
  then have "0 < c" "c < 2 ^ 64" by (auto simp: MinBits_def MaxBits_def)
  with power_of_two_and c(4) obtain k where k: "c = 2 ^ k" by blast
  have "MinBits \<le> k" "k \<le> MaxBits" using c(2,3) k by (simp_all add: power_le_imp_le_exp)
  with assms c k show ?thesis by (auto simp: pool_Put_def pools_ok_def)
qed

text \<open>The pool's operations as one step, with the invariant every step keeps.\<close>

datatype pool_op = GetOp "nat option" int | PutOp "nat option"

fun pool_step :: "pool_op \<Rightarrow> pools \<Rightarrow> pools option" where
  "pool_step (GetOp pick n) ps = map_option snd (pool_Get pick n ps)"
| "pool_step (PutOp b) ps = pool_Put b ps"

fun pool_run :: "pool_op list \<Rightarrow> pools \<Rightarrow> pools option" where
  "pool_run [] ps = Some ps"
| "pool_run (op # ops) ps = (case pool_step op ps of None \<Rightarrow> None | Some ps' \<Rightarrow> pool_run ops ps')"

lemma pool_run_ok: "pools_ok ps \<Longrightarrow> pool_run ops ps = Some ps' \<Longrightarrow> pools_ok ps'"
proof (induction ops arbitrary: ps)
  case (Cons op ops)
  obtain ps1 where s: "pool_step op ps = Some ps1" "pool_run ops ps1 = Some ps'"
    using Cons.prems(2) by (auto split: option.splits)
  have "pools_ok ps1"
  proof (cases op)
    case (GetOp pick n)
    with s(1) pools_ok_Get [OF Cons.prems(1)] show ?thesis by auto
  next
    case (PutOp b)
    with s(1) pools_ok_Put [OF Cons.prems(1), of b] show ?thesis by auto
  qed
  with Cons.IH s(2) show ?case by blast
qed simp

lemma pool_Get_enough:
  assumes "pools_ok ps" "1 \<le> n"
  shows "\<exists>c ps'. pool_Get pick n ps = Some (c, ps') \<and> n \<le> int c
    \<and> (n \<le> 2 ^ MaxBits \<longrightarrow> (\<exists>k. c = 2 ^ k \<and> MinBits \<le> k \<and> k \<le> MaxBits \<and> (k = MinBits \<or> int c < 2 * n)))"
proof (cases "n > 2 ^ MaxBits")
  case True
  then show ?thesis by (simp add: pool_Get_def)
next
  case False
  note b = class_of_bounds [OF assms(2)]
  have le: "n \<le> 2 ^ MaxBits" using False by simp
  have "\<exists>ps'. pool_Get pick n ps = Some (2 ^ class_of n, ps')"
    using False assms(1) b(3) [OF le]
    by (auto simp: pool_Get_def Let_def pools_ok_def split: option.split)
  then obtain ps' where "pool_Get pick n ps = Some (2 ^ class_of n, ps')" ..
  moreover have "\<exists>k. (2 :: nat) ^ class_of n = 2 ^ k \<and> MinBits \<le> k \<and> k \<le> MaxBits
      \<and> (k = MinBits \<or> int (2 ^ class_of n) < 2 * n)"
    using b [OF le] by (intro exI [of _ "class_of n"]) auto
  moreover have "n \<le> int (2 ^ class_of n)" using b(1) [OF le] by simp
  ultimately show ?thesis by blast
qed

text \<open>C35: Starting from empty pools, after any sequence of gets and puts of any buffers (also
  buffers that never came from the pool), a request for \<open>n >= 1\<close> bytes returns a buffer of
  capacity at least \<open>n\<close>; up to 64 MiB the capacity is a power of two and less than twice the
  request (or the 1 KiB minimum), so a small request never takes a large buffer.\<close>

theorem pool_capacity:
  assumes "pool_run ops (\<lambda>c. []) = Some ps" "1 \<le> n"
  shows "\<exists>c ps'. pool_Get pick n ps = Some (c, ps') \<and> n \<le> int c
    \<and> (n \<le> 2 ^ MaxBits \<longrightarrow> (\<exists>k. c = 2 ^ k \<and> MinBits \<le> k \<and> k \<le> MaxBits \<and> (k = MinBits \<or> int c < 2 * n)))"
proof -
  have "pools_ok (\<lambda>c. [])" by (simp add: pools_ok_def)
  from pool_Get_enough [OF pool_run_ok [OF this assms(1)] assms(2)] show ?thesis .
qed

theorem pool_capacity_witness:
  "\<exists>c ps ps'. pool_run [GetOp None 3000, PutOp (Some 4096)] (\<lambda>c. []) = Some ps
     \<and> pool_Get (Some 0) 2500 ps = Some (c, ps') \<and> 2500 \<le> int c"
proof -
  have run: "\<exists>ps. pool_run [GetOp None 3000, PutOp (Some 4096)] (\<lambda>c. []) = Some ps"
    by (simp add: pool_Get_def pool_Put_def class_of_def go_uint_def MinBits_def MaxBits_def bits_Len.simps)
  then obtain ps where "pool_run [GetOp None 3000, PutOp (Some 4096)] (\<lambda>c. []) = Some ps" ..
  with pool_capacity [OF this, of 2500 "Some 0"] show ?thesis by auto
qed

end
