(* ===== verification/Decompressor.thy ===== *)
theory Decompressor
  imports Compressor Bufpool "HOL-Library.Monad_Syntax"
begin

text \<open>
  Message decompression, \<^verbatim>\<open>src/deflate/decompressor.go\<close>. The inflater of
  \<^verbatim>\<open>klauspost/compress/flate\<close> is the parameter \<open>fr\<close>: a machine that, inside a call of
  \<open>Read\<close>, asks its source for a byte or for a slice, is given the answer, and finally returns. A
  chunk source is a function on the state of whoever supplies the chunks. Windows are pointers, so they live in a
  store. A call that panics or does not return is \<open>None\<close>.
\<close>

section \<open>Parameters and state\<close>

text \<open>Errors: those of this package, of \<open>io\<close>, of the inflater, and of a chunk source.\<close>

datatype 'e derror = DEOF | DNoProgress | Deflate deflate_error | Source 'e

datatype ask = AskByte | AskRead nat

record ('r, 'e) flate_reader =
  NewReaderDict :: "bytes \<Rightarrow> 'r"
  ResetReader :: "bytes \<Rightarrow> 'r \<Rightarrow> 'e derror option \<times> 'r"
  CallRead :: "nat \<Rightarrow> 'r \<Rightarrow> 'r"
  Reading :: "'r \<Rightarrow> ask + bytes \<times> 'e derror option"
  Give :: "'e derror + bytes \<Rightarrow> 'r \<Rightarrow> 'r"

record messageReader =
  mr_src :: bool
  mr_payload :: bytes
  mr_tail :: bytes
  mr_eof :: bool

text \<open>A slice is its contents and capacity; a pooled buffer is the capacity of its slice.\<close>

record 'r decompressor =
  d_reader :: "'r option"
  d_slice :: bytes
  d_in :: bytes
  d_incap :: nat
  d_inBuf :: "nat option"
  d_input :: messageReader
  d_output :: bytes
  d_outcap :: nat
  d_outBuf :: "nat option"
  d_window :: "nat option"
  d_scratch :: Window
  d_kept :: nat
  d_streaming :: bool
  d_active :: bool
  d_done :: bool

text \<open>
  What a call works on: the decompressor, the windows, the buffer pools (with the count of draws made
  from them) and the state behind the chunk source.
\<close>

record ('r, 's) dsys =
  y_d :: "'r decompressor"
  y_win :: "nat \<Rightarrow> Window"
  y_pools :: pools
  y_tick :: nat
  y_src :: 's

record ('r, 'e) denv =
  dv_flate :: "('r, 'e) flate_reader"
  dv_gc :: "nat \<Rightarrow> nat \<Rightarrow> nat"
  dv_pick :: "nat \<Rightarrow> nat option"

type_synonym ('s, 'e) chunks = "'s \<Rightarrow> (('e derror + bytes) \<times> 's) option"

definition zero_window :: Window where
  "zero_window = \<lparr>Bits = 0, wbuf = [], wcap = 0, gen = 0\<rparr>"

definition zero_messageReader :: messageReader where
  "zero_messageReader = \<lparr>mr_src = False, mr_payload = [], mr_tail = [], mr_eof = False\<rparr>"

definition zero_decompressor :: "'r decompressor" where
  "zero_decompressor =
    \<lparr>d_reader = None, d_slice = [], d_in = [], d_incap = 0, d_inBuf = None, d_input = zero_messageReader,
     d_output = [], d_outcap = 0, d_outBuf = None, d_window = None, d_scratch = zero_window, d_kept = 0,
     d_streaming = False, d_active = False, d_done = False\<rparr>"

definition inflateTail :: bytes where
  "inflateTail = [0, 0, 0xff, 0xff, 1, 0, 0, 0xff, 0xff]"

section \<open>The message reader\<close>

definition mr_exhausted :: "messageReader \<Rightarrow> bool" where
  "mr_exhausted r \<longleftrightarrow> mr_eof r \<and> length (mr_payload r) = 0 \<and> length (mr_tail r) = 0"

partial_function (option) mr_fill ::
    "('s, 'e) chunks \<Rightarrow> messageReader \<Rightarrow> 's \<Rightarrow> (('e derror + bool) \<times> messageReader \<times> 's) option" where
  "mr_fill nc r s =
    (if length (mr_payload r) = 0 \<and> \<not> mr_eof r
     then (case nc s of
             None \<Rightarrow> None
           | Some (res, s) \<Rightarrow>
              (case res of
                 Inl e \<Rightarrow> if e = DEOF then Some (Inr False, r\<lparr>mr_eof := True\<rparr>, s) else Some (Inl e, r, s)
               | Inr chunk \<Rightarrow> mr_fill nc (r\<lparr>mr_payload := chunk\<rparr>) s))
     else Some (Inr (length (mr_payload r) \<noteq> 0), r, s))"

definition mr_Read ::
    "('s, 'e) chunks \<Rightarrow> nat \<Rightarrow> messageReader \<Rightarrow> 's \<Rightarrow> (('e derror + bytes) \<times> messageReader \<times> 's) option" where
  "mr_Read nc len r s =
    (if len = 0 then Some (Inr [], r, s)
     else do {
       (res, r, s) \<leftarrow> mr_fill nc r s;
       Some (case res of
               Inl e \<Rightarrow> (Inl e, r, s)
             | Inr ok \<Rightarrow>
                if ok then (Inr (take len (mr_payload r)), r\<lparr>mr_payload := drop len (mr_payload r)\<rparr>, s)
                else
                  (let b = take len (mr_tail r); r = r\<lparr>mr_tail := drop len (mr_tail r)\<rparr>
                   in if length b = 0 then (Inl DEOF, r, s) else (Inr b, r, s)))
     })"

definition mr_ReadByte ::
    "('s, 'e) chunks \<Rightarrow> messageReader \<Rightarrow> 's \<Rightarrow> (('e derror + bytes) \<times> messageReader \<times> 's) option" where
  "mr_ReadByte nc r s =
    do {
      (res, r, s) \<leftarrow> mr_fill nc r s;
      Some (case res of
              Inl e \<Rightarrow> (Inl e, r, s)
            | Inr ok \<Rightarrow>
               if ok then (Inr [hd (mr_payload r)], r\<lparr>mr_payload := tl (mr_payload r)\<rparr>, s)
               else if length (mr_tail r) \<noteq> 0 then (Inr [hd (mr_tail r)], r\<lparr>mr_tail := tl (mr_tail r)\<rparr>, s)
               else (Inl DEOF, r, s))
    }"

text \<open>\<open>bytes.Reader\<close> of the standard library, as the bytes it has left.\<close>

definition br_Read :: "nat \<Rightarrow> bytes \<Rightarrow> ('e derror + bytes) \<times> bytes" where
  "br_Read len s = (if s = [] then (Inl DEOF, s) else (Inr (take len s), drop len s))"

definition br_ReadByte :: "bytes \<Rightarrow> ('e derror + bytes) \<times> bytes" where
  "br_ReadByte s = (case s of [] \<Rightarrow> (Inl DEOF, s) | b # s \<Rightarrow> (Inr [b], s))"

section \<open>The inflater on the source of the current mode\<close>

definition answer ::
    "('s, 'e) chunks \<Rightarrow> ask \<Rightarrow> 'r decompressor \<Rightarrow> 's \<Rightarrow> (('e derror + bytes) \<times> 'r decompressor \<times> 's) option" where
  "answer nc a d s =
    (if d_streaming d
     then do {
       (res, r, s) \<leftarrow> (case a of AskByte \<Rightarrow> mr_ReadByte nc (d_input d) s | AskRead k \<Rightarrow> mr_Read nc k (d_input d) s);
       Some (res, d\<lparr>d_input := r\<rparr>, s)
     }
     else
       (let (res, b) = (case a of AskByte \<Rightarrow> br_ReadByte (d_slice d) | AskRead k \<Rightarrow> br_Read k (d_slice d))
        in Some (res, d\<lparr>d_slice := b\<rparr>, s)))"

partial_function (option) drive ::
    "('r, 'e) flate_reader \<Rightarrow> ('s, 'e) chunks \<Rightarrow> 'r \<Rightarrow> 'r decompressor \<Rightarrow> 's
       \<Rightarrow> ((bytes \<times> 'e derror option) \<times> 'r \<times> 'r decompressor \<times> 's) option" where
  "drive F nc r d s =
    (case Reading F r of
       Inr out \<Rightarrow> Some (out, r, d, s)
     | Inl a \<Rightarrow>
        (case answer nc a d s of
           None \<Rightarrow> None
         | Some (res, d, s) \<Rightarrow> drive F nc (Give F res r) d s))"

section \<open>Ending a message\<close>

definition remember_at :: "('r, 'e) denv \<Rightarrow> nat \<Rightarrow> bytes \<Rightarrow> ('r, 's) dsys \<Rightarrow> ('r, 's) dsys option" where
  "remember_at E a p y =
    do { w \<leftarrow> remember (dv_gc E) p (y_win y a); Some (y\<lparr>y_win := (y_win y)(a := w)\<rparr>) }"

definition finish :: "('r, 'e) denv \<Rightarrow> bool \<Rightarrow> ('r, 's) dsys \<Rightarrow> ('r, 's) dsys option" where
  "finish E ok y =
    do {
      y \<leftarrow> (case d_window (y_d y) of
              None \<Rightarrow> Some y
            | Some a \<Rightarrow>
               if \<not> ok then Some (y\<lparr>y_win := (y_win y)(a := win_Reset (y_win y a))\<rparr>)
               else if \<not> d_streaming (y_d y)
               then (if d_kept (y_d y) > length (d_output (y_d y)) then None
                     else remember_at E a (drop (d_kept (y_d y)) (d_output (y_d y))) y)
               else Some y);
      Some (y\<lparr>y_d := (y_d y)\<lparr>d_window := None, d_input := zero_messageReader, d_slice := [],
                d_active := False, d_done := False, d_streaming := False\<rparr>\<rparr>)
    }"

definition fail_msg ::
    "('r, 'e) denv \<Rightarrow> 'e derror \<Rightarrow> ('r, 's) dsys \<Rightarrow> ('e derror \<times> ('r, 's) dsys) option" where
  "fail_msg E err y = do { y \<leftarrow> finish E False y; Some (err, y) }"

definition d_exhausted :: "'r decompressor \<Rightarrow> bool" where
  "d_exhausted d = (if d_streaming d then mr_exhausted (d_input d) else length (d_slice d) = 0)"

text \<open>The dictionary of a mid-message reset; \<open>n\<close> is what the current read has just produced.\<close>

definition d_dict :: "('r, 'e) denv \<Rightarrow> bytes \<Rightarrow> ('r, 's) dsys \<Rightarrow> (bytes \<times> ('r, 's) dsys) option" where
  "d_dict E n y =
    (let d = y_d y
     in if d_streaming d
        then Some (case d_window d of Some a \<Rightarrow> dict (Some (y_win y a)) | None \<Rightarrow> dict (Some (d_scratch d)), y)
        else
          (let out = d_output d @ n
           in case d_window d of
                Some a \<Rightarrow>
                  (if d_kept d > length out then None
                   else do {
                     y \<leftarrow> remember_at E a (drop (d_kept d) out) y;
                     Some (dict (Some (y_win y a)), y\<lparr>y_d := (y_d y)\<lparr>d_kept := length out\<rparr>\<rparr>)
                   })
              | None \<Rightarrow> Some (drop (length out - windowSize) out, y)))"

section \<open>Reading\<close>

definition note_output :: "('r, 'e) denv \<Rightarrow> bytes \<Rightarrow> ('r, 's) dsys \<Rightarrow> ('r, 's) dsys option" where
  "note_output E n y =
    (if length n \<noteq> 0 \<and> d_streaming (y_d y)
     then (case d_window (y_d y) of
             Some a \<Rightarrow> remember_at E a n y
           | None \<Rightarrow>
              do { w \<leftarrow> remember (dv_gc E) n (d_scratch (y_d y)); Some (y\<lparr>y_d := (y_d y)\<lparr>d_scratch := w\<rparr>\<rparr>) })
     else Some y)"

partial_function (option) read_loop ::
    "('r, 'e) denv \<Rightarrow> ('s, 'e) chunks \<Rightarrow> nat \<Rightarrow> ('r, 's) dsys \<Rightarrow> ((bytes \<times> 'e derror option) \<times> ('r, 's) dsys) option" where
  "read_loop E nc len y =
    (case d_reader (y_d y) of
       None \<Rightarrow> None
     | Some r \<Rightarrow>
      (case drive (dv_flate E) nc (CallRead (dv_flate E) len r) (y_d y) (y_src y) of
         None \<Rightarrow> None
       | Some ((n, err), r, d, s) \<Rightarrow>
        (case note_output E n (y\<lparr>y_d := d\<lparr>d_reader := Some r\<rparr>, y_src := s\<rparr>) of
           None \<Rightarrow> None
         | Some y \<Rightarrow>
            if err = Some DEOF
            then (if d_exhausted (y_d y)
                  then (if length n = 0 then do { y \<leftarrow> finish E True y; Some (([], Some DEOF), y) }
                        else Some ((n, None), y\<lparr>y_d := (y_d y)\<lparr>d_done := True\<rparr>\<rparr>))
                  else (case d_dict E n y of
                          None \<Rightarrow> None
                        | Some (dic, y) \<Rightarrow>
                            (let (rerr, r) = ResetReader (dv_flate E) dic r; y = y\<lparr>y_d := (y_d y)\<lparr>d_reader := Some r\<rparr>\<rparr>
                             in case rerr of
                                  Some e \<Rightarrow> do { (e, y) \<leftarrow> fail_msg E e y; Some (([], Some e), y) }
                                | None \<Rightarrow> if length n \<noteq> 0 then Some ((n, None), y) else read_loop E nc len y)))
            else (case err of
                    Some e \<Rightarrow> do { (e, y) \<leftarrow> fail_msg E e y; Some (([], Some e), y) }
                  | None \<Rightarrow>
                      if length n = 0 then do { (e, y) \<leftarrow> fail_msg E DNoProgress y; Some (([], Some e), y) }
                      else Some ((n, None), y)))))"

definition d_Read ::
    "('r, 'e) denv \<Rightarrow> ('s, 'e) chunks \<Rightarrow> nat \<Rightarrow> ('r, 's) dsys \<Rightarrow> ((bytes \<times> 'e derror option) \<times> ('r, 's) dsys) option" where
  "d_Read E nc len y =
    (if \<not> d_active (y_d y) then Some (([], Some (Deflate ErrNoDeflateMessage)), y)
     else if d_done (y_d y) then do { y \<leftarrow> finish E True y; Some (([], Some DEOF), y) }
     else read_loop E nc len y)"

section \<open>Beginning a message\<close>

definition buf_Get :: "('r, 'e) denv \<Rightarrow> int \<Rightarrow> ('r, 's) dsys \<Rightarrow> (nat \<times> ('r, 's) dsys) option" where
  "buf_Get E n y =
    do { (c, ps) \<leftarrow> pool_Get (dv_pick E (y_tick y)) n (y_pools y); Some (c, y\<lparr>y_pools := ps, y_tick := Suc (y_tick y)\<rparr>) }"

definition buf_Put :: "nat option \<Rightarrow> ('r, 's) dsys \<Rightarrow> ('r, 's) dsys option" where
  "buf_Put b y = do { ps \<leftarrow> pool_Put b (y_pools y); Some (y\<lparr>y_pools := ps\<rparr>) }"

text \<open>The input of slice mode: the payload and the tail, copied into pooled storage.\<close>

definition load_slice :: "('r, 'e) denv \<Rightarrow> bytes \<Rightarrow> ('r, 's) dsys \<Rightarrow> ('r, 's) dsys option" where
  "load_slice E payload y =
    do {
      y \<leftarrow> (if d_incap (y_d y) < length payload + length inflateTail
            then do {
              y \<leftarrow> buf_Put (d_inBuf (y_d y)) y;
              (c, y) \<leftarrow> buf_Get E (int (length payload + length inflateTail)) y;
              Some (y\<lparr>y_d := (y_d y)\<lparr>d_inBuf := Some c, d_in := [], d_incap := c\<rparr>\<rparr>)
            }
            else Some y);
      Some (y\<lparr>y_d := (y_d y)\<lparr>d_in := payload @ inflateTail, d_slice := payload @ inflateTail\<rparr>\<rparr>)
    }"

definition begin_msg ::
    "('r, 'e) denv \<Rightarrow> bool \<Rightarrow> bytes \<Rightarrow> nat option \<Rightarrow> ('r, 's) dsys \<Rightarrow> ('e derror option \<times> ('r, 's) dsys) option" where
  "begin_msg E src payload w y =
    do {
      y \<leftarrow> (if d_active (y_d y) then finish E False y else Some y);
      y \<leftarrow> Some (y\<lparr>y_d := (y_d y)\<lparr>d_window := w, d_scratch := win_Reset (d_scratch (y_d y)), d_streaming := src\<rparr>\<rparr>);
      y \<leftarrow> (if src
            then Some (y\<lparr>y_d := (y_d y)\<lparr>d_input := \<lparr>mr_src = True, mr_payload = [], mr_tail = inflateTail, mr_eof = False\<rparr>\<rparr>\<rparr>)
            else load_slice E payload y);
      y \<leftarrow> Some (y\<lparr>y_d := (y_d y)\<lparr>d_kept := 0, d_active := True, d_done := False\<rparr>\<rparr>);
      (let dic = dict (map_option (y_win y) w)
       in case d_reader (y_d y) of
            None \<Rightarrow> Some (None, y\<lparr>y_d := (y_d y)\<lparr>d_reader := Some (NewReaderDict (dv_flate E) dic)\<rparr>\<rparr>)
          | Some r \<Rightarrow>
             (let (err, r) = ResetReader (dv_flate E) dic r; y = y\<lparr>y_d := (y_d y)\<lparr>d_reader := Some r\<rparr>\<rparr>
              in case err of None \<Rightarrow> Some (None, y) | Some e \<Rightarrow> do { (e, y) \<leftarrow> fail_msg E e y; Some (Some e, y) }))
    }"

definition Begin :: "('r, 'e) denv \<Rightarrow> nat option \<Rightarrow> ('r, 's) dsys \<Rightarrow> ('e derror option \<times> ('r, 's) dsys) option" where
  "Begin E w y = begin_msg E True [] w y"

section \<open>Whole messages\<close>

text \<open>64-bit sums and products wrap, and division truncates towards zero (the divisors here are positive).\<close>

definition int64 :: "int \<Rightarrow> int" where
  "int64 n = (n + 2 ^ 63) mod 2 ^ 64 - 2 ^ 63"

definition go_quot :: "int \<Rightarrow> int \<Rightarrow> int" where
  "go_quot a b = (if a < 0 then - (- a div b) else a div b)"

definition projected :: "'r decompressor \<Rightarrow> int" where
  "projected d =
    (if d_streaming d then 0
     else
       (let left = int (length (d_slice d)); used = int (length (d_in d)) - left
        in if used \<le> 0 then 0 else go_quot (int64 (int (length (d_output d)) * left)) used))"

definition grow :: "('r, 'e) denv \<Rightarrow> int \<Rightarrow> ('r, 's) dsys \<Rightarrow> ('r, 's) dsys option" where
  "grow E n y =
    (if int (d_outcap (y_d y)) - int (length (d_output (y_d y))) \<ge> n then Some y
     else do {
       (c, y) \<leftarrow> buf_Get E (int64 (int (length (d_output (y_d y))) + n)) y;
       y \<leftarrow> buf_Put (d_outBuf (y_d y)) y;
       Some (y\<lparr>y_d := (y_d y)\<lparr>d_outBuf := Some c, d_outcap := c\<rparr>\<rparr>)
     })"

definition grow_full :: "('r, 'e) denv \<Rightarrow> ('r, 's) dsys \<Rightarrow> ('r, 's) dsys option" where
  "grow_full E y =
    (if d_outcap (y_d y) = length (d_output (y_d y))
     then (let p = projected (y_d y)
           in grow E (max (32 * 1024) (max (int (length (d_output (y_d y)) div 2)) (int64 (p + go_quot p 16)))) y)
     else Some y)"

definition read_size :: "int \<Rightarrow> 'r decompressor \<Rightarrow> int" where
  "read_size maxSize d =
    (let size = int (d_outcap d) - int (length (d_output d)); left = maxSize - int (length (d_output d))
     in if left < size then left + 1 else size)"

partial_function (option) dec_loop ::
    "('r, 'e) denv \<Rightarrow> ('s, 'e) chunks \<Rightarrow> int \<Rightarrow> ('r, 's) dsys \<Rightarrow> (('e derror + bytes) \<times> ('r, 's) dsys) option" where
  "dec_loop E nc maxSize y =
    (case grow_full E y of
       None \<Rightarrow> None
     | Some y \<Rightarrow>
      (if read_size maxSize (y_d y) < 0 then None
       else
        (case d_Read E nc (nat (read_size maxSize (y_d y))) y of
           None \<Rightarrow> None
         | Some ((n, err), y) \<Rightarrow>
            (let y = y\<lparr>y_d := (y_d y)\<lparr>d_output := d_output (y_d y) @ n\<rparr>\<rparr>
             in if int (length (d_output (y_d y))) > maxSize
                then do { y \<leftarrow> finish E False y; Some (Inl (Deflate ErrDecompressedTooLarge), y) }
                else if err = Some DEOF \<or> d_done (y_d y)
                then do { y \<leftarrow> finish E True y; Some (Inr (d_output (y_d y)), y) }
                else (case err of
                        Some e \<Rightarrow> Some (Inl e, y)
                      | None \<Rightarrow> dec_loop E nc maxSize y)))))"

definition reserve_output :: "('r, 'e) denv \<Rightarrow> int \<Rightarrow> bytes \<Rightarrow> ('r, 's) dsys \<Rightarrow> ('r, 's) dsys option" where
  "reserve_output E maxSize payload y =
    (let hint = min (4 * int (length payload)) (int64 (maxSize + 1))
     in if int (d_outcap (y_d y)) < hint
        then do {
          y \<leftarrow> buf_Put (d_outBuf (y_d y)) y;
          (c, y) \<leftarrow> buf_Get E hint y;
          Some (y\<lparr>y_d := (y_d y)\<lparr>d_outBuf := Some c, d_output := [], d_outcap := c\<rparr>\<rparr>)
        }
        else Some y)"

definition Decompress ::
    "('r, 'e) denv \<Rightarrow> ('s, 'e) chunks \<Rightarrow> bytes \<Rightarrow> int \<Rightarrow> nat option \<Rightarrow> ('r, 's) dsys
       \<Rightarrow> (('e derror + bytes) \<times> ('r, 's) dsys) option" where
  "Decompress E nc payload maxSize w y =
    (if maxSize < 0 then Some (Inl (Deflate ErrInvalidLimit), y)
     else do {
       (err, y) \<leftarrow> begin_msg E False payload w y;
       (case err of
          Some e \<Rightarrow> Some (Inl e, y)
        | None \<Rightarrow> do {
            y \<leftarrow> reserve_output E maxSize payload (y\<lparr>y_d := (y_d y)\<lparr>d_output := []\<rparr>\<rparr>);
            dec_loop E nc maxSize y
          })
     })"

definition d_Reset :: "('r, 'e) denv \<Rightarrow> ('r, 's) dsys \<Rightarrow> ('r, 's) dsys option" where
  "d_Reset E y = do { y \<leftarrow> finish E False y; Some (y\<lparr>y_d := (y_d y)\<lparr>d_output := []\<rparr>\<rparr>) }"

definition ReleaseOutput :: "('r, 'e) denv \<Rightarrow> ('r, 's) dsys \<Rightarrow> ('r, 's) dsys option" where
  "ReleaseOutput E y =
    do {
      y \<leftarrow> d_Reset E y;
      y \<leftarrow> buf_Put (d_outBuf (y_d y)) y;
      y \<leftarrow> buf_Put (d_inBuf (y_d y)) y;
      Some (y\<lparr>y_d := (y_d y)\<lparr>d_output := [], d_outcap := 0, d_outBuf := None, d_in := [], d_incap := 0, d_inBuf := None\<rparr>\<rparr>)
    }"

end
