(* ===== verification/Inflater.thy ===== *)
theory Inflater
  imports Decompressor "HOL-Library.Sublist"
begin

text \<open>
  What the decompressor relies on of the inflater, and what it makes of a source. \<open>stream D s\<close> is the
  DEFLATE stream at the front of \<open>s\<close>, up to and including its final block, decoded with
  dictionary \<open>D\<close>: the output and what follows the stream.
\<close>

type_synonym stream = "bytes \<Rightarrow> bytes \<Rightarrow> (bytes \<times> bytes) option"

text \<open>
  \<open>I r n D fed out\<close>: since it was reset with dictionary \<open>D\<close>, the inflater \<open>r\<close> has drawn
  \<open>fed\<close> from its source and returned \<open>out\<close>; it is inside a call for \<open>n\<close> bytes, or in none
  when \<open>n\<close> is zero. \<open>gone r n e\<close>: its source has failed with \<open>e\<close>. The documented
  behaviour: a stream is decided by its own bytes; the inflater draws from a byte reader only what the
  stream needs, returns output or the end of the stream, reports the end only of a
  complete stream, and after an error of its source draws nothing more.
\<close>

definition inflater ::
    "('r, 'e) flate_reader \<Rightarrow> ('r \<Rightarrow> nat \<Rightarrow> bytes \<Rightarrow> bytes \<Rightarrow> bytes \<Rightarrow> bool) \<Rightarrow> ('r \<Rightarrow> nat \<Rightarrow> 'e derror \<Rightarrow> bool) \<Rightarrow> stream \<Rightarrow> bool" where
  "inflater F I gone stream \<longleftrightarrow>
     (\<forall>D s p rest. stream D s = Some (p, rest) \<longrightarrow>
        (\<exists>z. z \<noteq> [] \<and> s = z @ rest \<and> (\<forall>s'. stream D (z @ s') = Some (p, s'))))
   \<and> (\<forall>D. I (NewReaderDict F D) 0 D [] [])
   \<and> (\<forall>D r. \<exists>r'. ResetReader F D r = (None, r') \<and> I r' 0 D [] [])
   \<and> (\<forall>r n D fed out. I r 0 D fed out \<and> 0 < n \<longrightarrow> I (CallRead F n r) n D fed out)
   \<and> (\<forall>r n D fed out x. I r n D fed out \<and> 0 < n \<and>
        (Reading F r = Inl AskByte \<and> length x = 1 \<or> (\<exists>k. Reading F r = Inl (AskRead k) \<and> 0 < length x \<and> length x \<le> k)) \<longrightarrow>
        I (Give F (Inr x) r) n D (fed @ x) out)
   \<and> (\<forall>r n D fed out a e. I r n D fed out \<and> 0 < n \<and> Reading F r = Inl a \<longrightarrow>
        a \<noteq> AskRead 0 \<and> gone (Give F (Inl e) r) n e)
   \<and> (\<forall>r n D fed out o' e. I r n D fed out \<and> 0 < n \<and> Reading F r = Inr (o', e) \<longrightarrow>
        length o' \<le> n \<and> (e = None \<longrightarrow> I r 0 D fed (out @ o')) \<and> (e = Some DEOF \<longrightarrow> stream D fed = Some (out @ o', [])))
   \<and> (\<forall>r n D fed out s p rest. I r n D fed out \<and> 0 < n \<and> stream D (fed @ s) = Some (p, rest) \<and> length rest \<le> length s \<longrightarrow>
        (case Reading F r of
           Inl AskByte \<Rightarrow> length rest < length s
         | Inl (AskRead k) \<Rightarrow> length rest + k \<le> length s
         | Inr (o', e) \<Rightarrow> prefix (out @ o') p \<and> (e = None \<and> o' \<noteq> [] \<or> e = Some DEOF)))
   \<and> (\<forall>r e n. gone r 0 e \<and> 0 < n \<longrightarrow> gone (CallRead F n r) n e)
   \<and> (\<forall>r e n. gone r n e \<and> 0 < n \<longrightarrow>
        (\<exists>o' x. Reading F r = Inr (o', x) \<and> length o' \<le> n \<and> x \<noteq> Some DEOF \<and> (x = None \<longrightarrow> gone r 0 e)
           \<and> (\<forall>y. x = Some y \<and> e \<noteq> DEOF \<longrightarrow> y = e)))"

lemma inflaterD:
  assumes "inflater F I gone stream"
  shows stream_split: "stream D s = Some (p, rest) \<Longrightarrow> \<exists>z. z \<noteq> [] \<and> s = z @ rest \<and> (\<forall>s'. stream D (z @ s') = Some (p, s'))"
    and new_reader: "I (NewReaderDict F D) 0 D [] []"
    and reset_reader: "\<exists>r'. ResetReader F D r = (None, r') \<and> I r' 0 D [] []"
    and call_read: "I r 0 D fed out \<Longrightarrow> 0 < n \<Longrightarrow> I (CallRead F n r) n D fed out"
    and give_byte: "I r n D fed out \<Longrightarrow> 0 < n \<Longrightarrow> Reading F r = Inl AskByte \<Longrightarrow> length x = 1 \<Longrightarrow> I (Give F (Inr x) r) n D (fed @ x) out"
    and give_read: "I r n D fed out \<Longrightarrow> 0 < n \<Longrightarrow> Reading F r = Inl (AskRead k) \<Longrightarrow> 0 < length x \<Longrightarrow> length x \<le> k \<Longrightarrow>
         I (Give F (Inr x) r) n D (fed @ x) out"
    and ask_some: "I r n D fed out \<Longrightarrow> 0 < n \<Longrightarrow> Reading F r = Inl a \<Longrightarrow> a \<noteq> AskRead 0"
    and give_error: "I r n D fed out \<Longrightarrow> 0 < n \<Longrightarrow> Reading F r = Inl a \<Longrightarrow> gone (Give F (Inl e) r) n e"
    and returned: "I r n D fed out \<Longrightarrow> 0 < n \<Longrightarrow> Reading F r = Inr (o', er) \<Longrightarrow>
         length o' \<le> n \<and> (er = None \<longrightarrow> I r 0 D fed (out @ o')) \<and> (er = Some DEOF \<longrightarrow> stream D fed = Some (out @ o', []))"
    and progress: "I r n D fed out \<Longrightarrow> 0 < n \<Longrightarrow> stream D (fed @ s) = Some (p, rest) \<Longrightarrow> length rest \<le> length s \<Longrightarrow>
        (case Reading F r of
           Inl AskByte \<Rightarrow> length rest < length s
         | Inl (AskRead k) \<Rightarrow> length rest + k \<le> length s
         | Inr (o', e) \<Rightarrow> prefix (out @ o') p \<and> (e = None \<and> o' \<noteq> [] \<or> e = Some DEOF))"
    and gone_call: "gone r 0 e \<Longrightarrow> 0 < n \<Longrightarrow> gone (CallRead F n r) n e"
    and gone_reads: "gone r n e \<Longrightarrow> 0 < n \<Longrightarrow> \<exists>o' er. Reading F r = Inr (o', er) \<and> length o' \<le> n \<and> er \<noteq> Some DEOF
         \<and> (er = None \<longrightarrow> gone r 0 e) \<and> (\<forall>y. er = Some y \<and> e \<noteq> DEOF \<longrightarrow> y = e)"
proof -
  note L = assms [unfolded inflater_def]
  note L1 = conjunct1 [OF L] and R1 = conjunct2 [OF L]
  note L2 = conjunct1 [OF R1] and R2 = conjunct2 [OF R1]
  note L3 = conjunct1 [OF R2] and R3 = conjunct2 [OF R2]
  note L4 = conjunct1 [OF R3] and R4 = conjunct2 [OF R3]
  note L5 = conjunct1 [OF R4] and R5 = conjunct2 [OF R4]
  note L6 = conjunct1 [OF R5] and R6 = conjunct2 [OF R5]
  note L7 = conjunct1 [OF R6] and R7 = conjunct2 [OF R6]
  note L8 = conjunct1 [OF R7] and R8 = conjunct2 [OF R7]
  note L9 = conjunct1 [OF R8] and R9 = conjunct2 [OF R8]
  show "stream D s = Some (p, rest) \<Longrightarrow> \<exists>z. z \<noteq> [] \<and> s = z @ rest \<and> (\<forall>s'. stream D (z @ s') = Some (p, s'))"
    using L1 by blast
  show "I (NewReaderDict F D) 0 D [] []"
    using L2 by blast
  show "\<exists>r'. ResetReader F D r = (None, r') \<and> I r' 0 D [] []"
    using L3 by blast
  show "I r 0 D fed out \<Longrightarrow> 0 < n \<Longrightarrow> I (CallRead F n r) n D fed out"
    using L4 by blast
  show "I r n D fed out \<Longrightarrow> 0 < n \<Longrightarrow> Reading F r = Inl AskByte \<Longrightarrow> length x = 1 \<Longrightarrow> I (Give F (Inr x) r) n D (fed @ x) out"
    using L5 by blast
  show "I r n D fed out \<Longrightarrow> 0 < n \<Longrightarrow> Reading F r = Inl (AskRead k) \<Longrightarrow> 0 < length x \<Longrightarrow> length x \<le> k \<Longrightarrow>
         I (Give F (Inr x) r) n D (fed @ x) out"
    using L5 by blast
  show "I r n D fed out \<Longrightarrow> 0 < n \<Longrightarrow> Reading F r = Inl a \<Longrightarrow> a \<noteq> AskRead 0"
    using L6 by blast
  show "I r n D fed out \<Longrightarrow> 0 < n \<Longrightarrow> Reading F r = Inl a \<Longrightarrow> gone (Give F (Inl e) r) n e"
    using L6 by blast
  show "I r n D fed out \<Longrightarrow> 0 < n \<Longrightarrow> Reading F r = Inr (o', er) \<Longrightarrow>
         length o' \<le> n \<and> (er = None \<longrightarrow> I r 0 D fed (out @ o')) \<and> (er = Some DEOF \<longrightarrow> stream D fed = Some (out @ o', []))"
    using L7 by blast
  show "I r n D fed out \<Longrightarrow> 0 < n \<Longrightarrow> stream D (fed @ s) = Some (p, rest) \<Longrightarrow> length rest \<le> length s \<Longrightarrow>
        (case Reading F r of
           Inl AskByte \<Rightarrow> length rest < length s
         | Inl (AskRead k) \<Rightarrow> length rest + k \<le> length s
         | Inr (o', e) \<Rightarrow> prefix (out @ o') p \<and> (e = None \<and> o' \<noteq> [] \<or> e = Some DEOF))"
    using L8 by blast
  show "gone r 0 e \<Longrightarrow> 0 < n \<Longrightarrow> gone (CallRead F n r) n e"
    using L9 by blast
  show "gone r n e \<Longrightarrow> 0 < n \<Longrightarrow> \<exists>o' er. Reading F r = Inr (o', er) \<and> length o' \<le> n \<and> er \<noteq> Some DEOF
         \<and> (er = None \<longrightarrow> gone r 0 e) \<and> (\<forall>y. er = Some y \<and> e \<noteq> DEOF \<longrightarrow> y = e)"
    using R9 by blast
qed

section \<open>Sources\<close>

text \<open>A chunk source that delivers \<open>b\<close> and then ends.\<close>

inductive chunked :: "('s, 'e) chunks \<Rightarrow> 's \<Rightarrow> bytes \<Rightarrow> 's \<Rightarrow> bool" for nc where
  chunked_end: "nc s = Some (Inl DEOF, s') \<Longrightarrow> chunked nc s [] s'"
| chunked_more: "nc s = Some (Inr c, s1) \<Longrightarrow> chunked nc s1 b s' \<Longrightarrow> chunked nc s (c @ b) s'"

text \<open>What the source of the current mode has left: the rest of the message and of the tail.\<close>

definition left :: "('s, 'e) chunks \<Rightarrow> 'r decompressor \<Rightarrow> 's \<Rightarrow> bytes \<Rightarrow> 's \<Rightarrow> bool" where
  "left nc d s b fin \<longleftrightarrow>
    (if \<not> d_streaming d then b = d_slice d \<and> fin = s
     else if mr_eof (d_input d) then b = mr_payload (d_input d) @ mr_tail (d_input d) \<and> fin = s
     else mr_tail (d_input d) \<noteq> [] \<and> (\<exists>b'. chunked nc s b' fin \<and> b = mr_payload (d_input d) @ b' @ mr_tail (d_input d)))"

lemma left_exhausted: "left nc d s b fin \<Longrightarrow> d_exhausted d \<longleftrightarrow> b = []"
  by (auto simp: left_def d_exhausted_def mr_exhausted_def split: if_splits)

lemma left_end: "left nc d s [] fin \<Longrightarrow> fin = s"
  by (auto simp: left_def split: if_splits)

lemma mr_fill_chunked:
  assumes "chunked nc s b fin" "\<not> mr_eof r" "mr_payload r = []"
  shows "\<exists>ok r' s' b'. mr_fill nc r s = Some (Inr ok, r', s') \<and> mr_tail r' = mr_tail r \<and> ok = (mr_payload r' \<noteq> [])
     \<and> b = mr_payload r' @ b' \<and> (if mr_eof r' then b' = [] \<and> s' = fin else ok \<and> chunked nc s' b' fin) \<and> (b = [] \<longrightarrow> mr_eof r')"
  using assms
proof (induction arbitrary: r)
  case (chunked_end s s')
  then show ?case by (subst mr_fill.simps) auto
next
  case (chunked_more s c s1 b s')
  show ?case
  proof (cases "c = []")
    case True
    have r: "r\<lparr>mr_payload := []\<rparr> = r" using chunked_more.prems by (cases r) simp
    have e: "mr_fill nc r s = mr_fill nc r s1"
      using chunked_more True by (subst mr_fill.simps) (simp only: r list.size if_True simp_thms option.case prod.case sum.case)
    from chunked_more.IH [OF chunked_more.prems] show ?thesis unfolding e using True by simp
  next
    case False
    have "mr_fill nc r s = Some (Inr True, r\<lparr>mr_payload := c\<rparr>, s1)"
      using chunked_more False by (subst mr_fill.simps) (simp add: mr_fill.simps [of nc "r\<lparr>mr_payload := c\<rparr>"])
    with chunked_more False show ?thesis by auto
  qed
qed

text \<open>A filled reader has payload at hand, or is at its tail.\<close>

lemma mr_fill_left:
  assumes "left nc d s b fin" "d_streaming d"
  shows "\<exists>r' s'. mr_fill nc (d_input d) s = Some (Inr (mr_payload r' \<noteq> []), r', s') \<and> left nc (d\<lparr>d_input := r'\<rparr>) s' b fin
     \<and> (mr_payload r' = [] \<longrightarrow> mr_eof r' \<and> b = mr_tail r')"
proof (cases "mr_payload (d_input d) = [] \<and> \<not> mr_eof (d_input d)")
  case True
  then obtain b0 where b0: "chunked nc s b0 fin" "b = b0 @ mr_tail (d_input d)" "mr_tail (d_input d) \<noteq> []"
    using assms by (auto simp: left_def)
  from mr_fill_chunked [OF b0(1), of "d_input d"] True obtain ok r' s' b' where
    f: "mr_fill nc (d_input d) s = Some (Inr ok, r', s')" "mr_tail r' = mr_tail (d_input d)" "ok = (mr_payload r' \<noteq> [])"
       "b0 = mr_payload r' @ b'" "if mr_eof r' then b' = [] \<and> s' = fin else ok \<and> chunked nc s' b' fin" by blast
  show ?thesis
    by (rule exI [of _ r'], rule exI [of _ s']) (use f b0 assms(2) in \<open>auto simp: left_def split: if_splits\<close>)
next
  case False
  then have "mr_fill nc (d_input d) s = Some (Inr (mr_payload (d_input d) \<noteq> []), d_input d, s)" by (subst mr_fill.simps) auto
  with False assms show ?thesis by (intro exI [of _ "d_input d"] exI [of _ s]) (auto simp: left_def)
qed

text \<open>Drawing changes nothing but the source.\<close>

definition drawn :: "'r decompressor \<Rightarrow> 'r decompressor \<Rightarrow> bool" where
  "drawn d d' \<longleftrightarrow> d' = d\<lparr>d_input := d_input d', d_slice := d_slice d'\<rparr> \<and> length (d_slice d') \<le> length (d_slice d)"

lemma drawn_refl [simp]: "drawn d d" by (simp add: drawn_def)
lemma drawn_update [simp]: "drawn d (d\<lparr>d_input := r\<rparr>)" "length z \<le> length (d_slice d) \<Longrightarrow> drawn d (d\<lparr>d_slice := z\<rparr>)"
  by (simp_all add: drawn_def)
lemma drawn_trans: "drawn d d1 \<Longrightarrow> drawn d1 d2 \<Longrightarrow> drawn d d2" 
  by (cases d; cases d1; cases d2) (simp add: drawn_def)

text \<open>Every question is answered with the next bytes of the message, or with the end.\<close>

definition answered ::
    "('s, 'e) chunks \<Rightarrow> ask \<Rightarrow> 'r decompressor \<Rightarrow> 's \<Rightarrow> bytes \<Rightarrow> 's \<Rightarrow> bytes \<Rightarrow> 'r decompressor \<Rightarrow> 's \<Rightarrow> bytes \<Rightarrow> bool" where
  "answered nc a d s b fin x d' s' b' \<longleftrightarrow>
     answer nc a d s = Some (if b = [] then Inl DEOF else Inr x, d', s') \<and> b = x @ b' \<and> left nc d' s' b' fin \<and> drawn d d'
     \<and> (b \<noteq> [] \<longrightarrow> 0 < length x) \<and> (case a of AskByte \<Rightarrow> length x \<le> 1 | AskRead k \<Rightarrow> length x \<le> k)"

lemma answer_slice:
  assumes l: "left nc d s b fin" and a: "a \<noteq> AskRead 0" and str: "\<not> d_streaming d"
  shows "\<exists>x d' s' b'. answered nc a d s b fin x d' s' b'"
proof -
  have b: "d_slice d = b" "fin = s" using l str by (simp_all add: left_def)
  show ?thesis
  proof (cases a)
    case AskByte
    show ?thesis
    proof (cases b)
      case Nil
      then have "answered nc a d s b fin [] (d\<lparr>d_slice := []\<rparr>) s []"
        using AskByte str b by (simp add: answered_def answer_def left_def br_ReadByte_def)
      then show ?thesis by blast
    next
      case (Cons c b')
      then have "answered nc a d s b fin [c] (d\<lparr>d_slice := b'\<rparr>) s b'"
        using AskByte str b by (simp add: answered_def answer_def left_def br_ReadByte_def)
      then show ?thesis by blast
    qed
  next
    case (AskRead k)
    then have "answered nc a d s b fin (take k b) (d\<lparr>d_slice := drop k b\<rparr>) s (drop k b)"
      using str b a by (simp add: answered_def answer_def left_def br_Read_def)
    then show ?thesis by blast
  qed
qed

lemma hd_take_1: "xs \<noteq> [] \<Longrightarrow> [hd xs] = take (Suc 0) xs" "tl xs = drop (Suc 0) xs"
  by (cases xs; simp)+

lemma answer_chunks:
  assumes l: "left nc d s b fin" and a: "a \<noteq> AskRead 0" and str: "d_streaming d"
  shows "\<exists>x d' s' b'. answered nc a d s b fin x d' s' b'"
proof -
  obtain r s' where f: "mr_fill nc (d_input d) s = Some (Inr (mr_payload r \<noteq> []), r, s')" "left nc (d\<lparr>d_input := r\<rparr>) s' b fin"
      "mr_payload r = [] \<longrightarrow> mr_eof r \<and> b = mr_tail r"
    using mr_fill_left [OF l str] by blast
  define k where "k = (case a of AskByte \<Rightarrow> 1 | AskRead k \<Rightarrow> k)"
  have k: "k > 0" "length x \<le> k \<Longrightarrow> case a of AskByte \<Rightarrow> length x \<le> 1 | AskRead k \<Rightarrow> length x \<le> k" for x :: bytes
    using a by (cases a; simp add: k_def)+
  show ?thesis
  proof (cases "mr_payload r = []")
    case True
    then have b: "b = mr_tail r" "mr_eof r" using f(3) by simp_all
    have "answer nc a d s = Some (if b = [] then Inl DEOF else Inr (take k b), d\<lparr>d_input := r\<lparr>mr_tail := drop k b\<rparr>\<rparr>, s')"
    proof (cases a)
      case AskByte
      have r: "r\<lparr>mr_tail := []\<rparr> = r" if "b = []" using that b by (cases r) simp
      show ?thesis using AskByte str f(1) True b k r by (simp add: answer_def mr_ReadByte_def k_def hd_take_1)
    next
      case (AskRead j)
      then show ?thesis using str f(1) True b k by (simp add: answer_def mr_Read_def k_def Let_def)
    qed
    moreover have "left nc (d\<lparr>d_input := r\<lparr>mr_tail := drop k b\<rparr>\<rparr>) s' (drop k b) fin" using f(2) str True b by (simp add: left_def)
    ultimately have "answered nc a d s b fin (take k b) (d\<lparr>d_input := r\<lparr>mr_tail := drop k b\<rparr>\<rparr>) s' (drop k b)"
      using k(1) k(2) [of "take k b"] by (simp add: answered_def)
    then show ?thesis by blast
  next
    case False
    then have bne: "b \<noteq> []" using f(2) str by (auto simp: left_def split: if_splits)
    define x where "x = take k (mr_payload r)"
    define d' where "d' = d\<lparr>d_input := r\<lparr>mr_payload := drop k (mr_payload r)\<rparr>\<rparr>"
    have "answer nc a d s = Some (Inr x, d', s')"
      using str f(1) False k(1) by (cases a) (simp_all add: answer_def mr_ReadByte_def mr_Read_def k_def hd_take_1 x_def d'_def)
    moreover have "\<exists>b'. b = x @ b' \<and> left nc d' s' b' fin"
    proof (cases "mr_eof r")
      case True
      then show ?thesis using f(2) str by (simp add: left_def x_def d'_def)
    next
      case nf: False
      then obtain b1 where "chunked nc s' b1 fin" "b = mr_payload r @ b1 @ mr_tail r" "mr_tail r \<noteq> []"
        using f(2) str by (auto simp: left_def)
      then show ?thesis using str nf
        by (intro exI [of _ "drop k (mr_payload r) @ b1 @ mr_tail r"]) (auto simp: left_def x_def d'_def simp flip: append_assoc)
    qed
    moreover have "0 < length x" "length x \<le> k" using k False by (simp_all add: x_def)
    ultimately have "\<exists>b'. answered nc a d s b fin x d' s' b'"
      using bne k(2) [of x] by (auto simp: answered_def d'_def)
    then show ?thesis by blast
  qed
qed

lemma answer_left:
  assumes "left nc d s b fin" "a \<noteq> AskRead 0"
  obtains x d' s' b' where "answered nc a d s b fin x d' s' b'"
  using answer_slice [OF assms] answer_chunks [OF assms] by blast

section \<open>One call of the inflater\<close>

text \<open>
  How a call ends, having drawn \<open>x\<close>: with output, at the end of the stream, with an error, or with
  output although the source is gone.
\<close>

definition call_ends ::
    "('r \<Rightarrow> nat \<Rightarrow> bytes \<Rightarrow> bytes \<Rightarrow> bytes \<Rightarrow> bool) \<Rightarrow> ('r \<Rightarrow> nat \<Rightarrow> 'e derror \<Rightarrow> bool) \<Rightarrow> stream \<Rightarrow> nat \<Rightarrow> bytes \<Rightarrow> bytes \<Rightarrow> bytes
       \<Rightarrow> bytes \<times> 'e derror option \<Rightarrow> 'r \<Rightarrow> bool" where
  "call_ends I gone stream n D fed out = (\<lambda>(o', e) r.
     case e of
       None \<Rightarrow> length o' \<le> n \<and> (I r 0 D fed (out @ o') \<or> gone r 0 DEOF)
     | Some e \<Rightarrow> e = DEOF \<longrightarrow> stream D fed = Some (out @ o', []) \<and> length o' \<le> n)"

text \<open>The stream ends no earlier than what has been drawn.\<close>

definition within :: "stream \<Rightarrow> bytes \<Rightarrow> bytes \<Rightarrow> bytes \<Rightarrow> bool" where
  "within stream D fed b \<longleftrightarrow> (\<forall>p rest. stream D (fed @ b) = Some (p, rest) \<longrightarrow> length rest \<le> length b)"

lemma drive_gone:
  assumes "inflater F I gone stream" "gone r n DEOF" "0 < n"
  shows "\<exists>o' e. drive F nc r d s = Some ((o', e), r, d, s) \<and> length o' \<le> n \<and> e \<noteq> Some DEOF \<and> (e = None \<longrightarrow> gone r 0 DEOF)"
proof -
  obtain o' e where r: "Reading F r = Inr (o', e)" "length o' \<le> n" "e \<noteq> Some DEOF" "e = None \<longrightarrow> gone r 0 DEOF"
    using gone_reads [OF assms] by blast
  then show ?thesis by (subst drive.simps) simp
qed

lemma drive_ok:
  assumes fl: "inflater F I gone stream" and n: "0 < n"
  shows "I r n D fed out \<Longrightarrow> left nc d s b fin \<Longrightarrow>
     \<exists>o' e r' d' s' x b'. drive F nc r d s = Some ((o', e), r', d', s') \<and> b = x @ b' \<and> left nc d' s' b' fin \<and> drawn d d'
       \<and> call_ends I gone stream n D (fed @ x) out (o', e) r'
       \<and> (within stream D fed b \<longrightarrow> within stream D (fed @ x) b'
          \<and> (\<forall>p rest. stream D (fed @ b) = Some (p, rest) \<longrightarrow>
               prefix (out @ o') p \<and> (e = None \<and> o' \<noteq> [] \<and> I r' 0 D (fed @ x) (out @ o') \<or> e = Some DEOF)))"
proof (induction "length b" arbitrary: r fed d s b rule: less_induct)
  case less
  note i = less.prems(1) and l = less.prems(2)
  show ?case
  proof (cases "Reading F r")
    case (Inr oe)
    obtain o' e where oe: "oe = (o', e)" by (cases oe)
    have d: "drive F nc r d s = Some ((o', e), r, d, s)" using Inr oe by (subst drive.simps) simp
    have c: "call_ends I gone stream n D (fed @ []) out (o', e) r"
      using returned [OF fl i n Inr [unfolded oe]] by (auto simp: call_ends_def split: option.split)
    have p: "prefix (out @ o') p \<and> (e = None \<and> o' \<noteq> [] \<and> I r 0 D fed (out @ o') \<or> e = Some DEOF)"
      if "within stream D fed b" "stream D (fed @ b) = Some (p, rest)" for p rest
      using progress [OF fl i n that(2)] that Inr oe returned [OF fl i n Inr [unfolded oe]] by (auto simp: within_def)
    show ?thesis
      by (rule exI [of _ o'], rule exI [of _ e], rule exI [of _ r], rule exI [of _ d], rule exI [of _ s], rule exI [of _ "[]"], rule exI [of _ b])
         (use d l c p in simp)
  next
    case (Inl a)
    have a0: "a \<noteq> AskRead 0" using ask_some [OF fl i n Inl] .
    obtain x d1 s1 b1 where an: "answered nc a d s b fin x d1 s1 b1" using answer_left [OF l a0] .
    then have an': "answer nc a d s = Some (if b = [] then Inl DEOF else Inr x, d1, s1)" "b = x @ b1" "left nc d1 s1 b1 fin" "drawn d d1"
       "b \<noteq> [] \<longrightarrow> 0 < length x" "case a of AskByte \<Rightarrow> length x \<le> 1 | AskRead k \<Rightarrow> length x \<le> k"
      unfolding answered_def by blast+
    have dr: "drive F nc r d s = drive F nc (Give F (if b = [] then Inl DEOF else Inr x) r) d1 s1"
      using Inl an'(1) by (subst drive.simps) simp
    show ?thesis
    proof (cases "b = []")
      case True
      have g: "gone (Give F (Inl DEOF) r) n DEOF" using give_error [OF fl i n Inl] .
      obtain o' e where r: "drive F nc (Give F (Inl DEOF) r) d1 s1 = Some ((o', e), Give F (Inl DEOF) r, d1, s1)"
        "length o' \<le> n" "e \<noteq> Some DEOF" "e = None \<longrightarrow> gone (Give F (Inl DEOF) r) 0 DEOF"
        using drive_gone [OF fl g n, of nc d1 s1] by (elim exE conjE) (rule that)
      have c: "call_ends I gone stream n D (fed @ []) out (o', e) (Give F (Inl DEOF) r)"
        using r(2-4) by (simp add: call_ends_def split: option.split)
      have no: "within stream D fed b \<Longrightarrow> stream D (fed @ b) \<noteq> Some (p, rest)" for p rest
        using progress [OF fl i n, of "[]" p rest] Inl True a0 by (auto simp: within_def split: ask.splits)
      show ?thesis
        by (rule exI [of _ o'], rule exI [of _ e], rule exI [of _ "Give F (Inl DEOF) r"], rule exI [of _ d1], rule exI [of _ s1],
            rule exI [of _ "[]"], rule exI [of _ "[]"])
           (use dr r(1) c an'(2,3,4) True no in simp)
    next
      case False
      have i1: "I (Give F (Inr x) r) n D (fed @ x) out"
      proof (cases a)
        case AskByte
        then have "length x = 1" using an'(5,6) False by (cases x) auto
        with give_byte [OF fl i n] Inl AskByte show ?thesis by blast
      next
        case (AskRead k)
        then show ?thesis using give_read [OF fl i n] Inl an'(5,6) False by simp
      qed
      have "length b1 < length b" using an'(2,5) False by simp
      from less.hyps [OF this i1 an'(3)]
      obtain o' e r' d' s' x1 b' where h: "drive F nc (Give F (Inr x) r) d1 s1 = Some ((o', e), r', d', s')" "b1 = x1 @ b'" "left nc d' s' b' fin"
         "drawn d1 d'" "call_ends I gone stream n D ((fed @ x) @ x1) out (o', e) r'"
         "within stream D (fed @ x) b1 \<longrightarrow> within stream D ((fed @ x) @ x1) b'
          \<and> (\<forall>p rest. stream D ((fed @ x) @ b1) = Some (p, rest) \<longrightarrow>
               prefix (out @ o') p \<and> (e = None \<and> o' \<noteq> [] \<and> I r' 0 D ((fed @ x) @ x1) (out @ o') \<or> e = Some DEOF))"
        by (elim exE conjE) (rule that)
      have w: "within stream D (fed @ x) b1" if "within stream D fed b"
        unfolding within_def
      proof (intro allI impI)
        fix p rest assume st: "stream D ((fed @ x) @ b1) = Some (p, rest)"
        then have "stream D (fed @ b) = Some (p, rest)" using an'(2) by simp
        with progress [OF fl i n this] that Inl an'(2,6) show "length rest \<le> length b1"
          by (auto simp: within_def split: ask.splits)
      qed
      show ?thesis
        by (rule exI [of _ o'], rule exI [of _ e], rule exI [of _ r'], rule exI [of _ d'], rule exI [of _ s'], rule exI [of _ "x @ x1"], rule exI [of _ b'])
           (use dr h an'(2,5) False w drawn_trans [OF an'(4) h(4)] in auto)
    qed
  qed
qed

end
