(* ===== verification/Decompressor_Read.thy ===== *)
theory Decompressor_Read
  imports Inflater
begin

text \<open>
  Reading a message: whatever the mode and the cuts of the source, the reads of a message return
  the bytes the message decodes to, and the window ends up with them.
\<close>

section \<open>What a message decodes to\<close>

text \<open>
  RFC 7692 lets a message hold several DEFLATE streams; each is decoded with the last \<open>m\<close> bytes of
  what precedes it. The fuel counts streams; each takes at least one byte.
\<close>

primrec unpack :: "stream \<Rightarrow> nat \<Rightarrow> nat \<Rightarrow> bytes \<Rightarrow> bytes \<Rightarrow> bytes option" where
  "unpack st m 0 D s = None"
| "unpack st m (Suc k) D s =
    (case st D s of
       None \<Rightarrow> None
     | Some (p, rest) \<Rightarrow> if rest = [] then Some p else map_option ((@) p) (unpack st m k (lastn m (D @ p)) rest))"

definition whole :: "stream \<Rightarrow> nat \<Rightarrow> bytes \<Rightarrow> bytes \<Rightarrow> bytes option" where
  "whole st m D s = unpack st m (Suc (length s)) D s"

lemma unpack_fuel:
  assumes fl: "inflater F I gone st"
  shows "length s < k \<Longrightarrow> length s < j \<Longrightarrow> unpack st m k D s = unpack st m j D s"
proof (induction k arbitrary: j D s)
  case (Suc k)
  then obtain i where j: "j = Suc i" by (cases j) auto
  show ?case
  proof (cases "st D s")
    case (Some pr)
    obtain p rest where pr: "pr = (p, rest)" by (cases pr)
    obtain z where "z \<noteq> []" "s = z @ rest" using stream_split [OF fl Some [unfolded pr]] by blast
    then have "length rest < k" "length rest < i" using Suc.prems j by (cases z; simp)+
    from Suc.IH [OF this, of "lastn m (D @ p)"] Some pr j show ?thesis by simp
  qed (simp add: j)
qed simp

lemma whole_unfold:
  assumes fl: "inflater F I gone st"
  shows "whole st m D s = (case st D s of None \<Rightarrow> None
     | Some (p, rest) \<Rightarrow> if rest = [] then Some p else map_option ((@) p) (whole st m (lastn m (D @ p)) rest))"
proof (cases "st D s")
  case (Some pr)
  obtain p rest where pr: "pr = (p, rest)" by (cases pr)
  obtain z where "z \<noteq> []" "s = z @ rest" using stream_split [OF fl Some [unfolded pr]] by blast
  then have "length rest < length s" by simp
  then have "unpack st m (length s) D' rest = whole st m D' rest" for D'
    unfolding whole_def by (intro unpack_fuel [OF fl]) auto
  with Some pr show ?thesis by (simp add: whole_def)
qed (simp add: whole_def)

lemma whole_None: "inflater F I gone st \<Longrightarrow> st D s = None \<Longrightarrow> whole st m D s = None"
  by (simp add: whole_unfold)

section \<open>A message in progress\<close>

definition msize :: "('r, 's) dsys \<Rightarrow> nat" where
  "msize y = (case d_window (y_d y) of Some a \<Rightarrow> Size (y_win y a) | None \<Rightarrow> windowSize)"

text \<open>The history kept of a message of which \<open>out\<close> has been produced, on top of \<open>h\<close>.\<close>

definition hist_ok :: "bytes \<Rightarrow> bytes \<Rightarrow> ('r, 's) dsys \<Rightarrow> bool" where
  "hist_ok h out y \<longleftrightarrow>
     (d_window (y_d y) = None \<longrightarrow> h = [] \<and> Size (d_scratch (y_d y)) = windowSize)
   \<and> (if d_streaming (y_d y)
      then dict (Some (case d_window (y_d y) of Some a \<Rightarrow> y_win y a | None \<Rightarrow> d_scratch (y_d y))) = lastn (msize y) (h @ out)
      else d_output (y_d y) = out \<and> d_kept (y_d y) \<le> length out
           \<and> (\<forall>a. d_window (y_d y) = Some a \<longrightarrow> dict (Some (y_win y a)) = lastn (msize y) (h @ take (d_kept (y_d y)) out)))"

text \<open>What a call must not touch: the other windows, the mode, the storage and the pools.\<close>

definition frame_ok :: "('r, 's) dsys \<Rightarrow> ('r, 's) dsys \<Rightarrow> bool" where
  "frame_ok y y' \<longleftrightarrow> (\<forall>a. Some a \<noteq> d_window (y_d y) \<longrightarrow> y_win y' a = y_win y a)
     \<and> (\<forall>a. Size (y_win y' a) = Size (y_win y a))
     \<and> y_pools y' = y_pools y \<and> y_tick y' = y_tick y \<and> length (d_slice (y_d y')) \<le> length (d_slice (y_d y))
     \<and> d_output (y_d y') = d_output (y_d y) \<and> d_outcap (y_d y') = d_outcap (y_d y) \<and> d_outBuf (y_d y') = d_outBuf (y_d y)
     \<and> d_in (y_d y') = d_in (y_d y) \<and> d_incap (y_d y') = d_incap (y_d y) \<and> d_inBuf (y_d y') = d_inBuf (y_d y)
     \<and> Size (d_scratch (y_d y')) = Size (d_scratch (y_d y)) \<and> (d_reader (y_d y) \<noteq> None \<longrightarrow> d_reader (y_d y') \<noteq> None)"

definition same_msg :: "('r, 's) dsys \<Rightarrow> ('r, 's) dsys \<Rightarrow> bool" where
  "same_msg y y' \<longleftrightarrow> d_window (y_d y') = d_window (y_d y) \<and> d_streaming (y_d y') = d_streaming (y_d y) \<and> d_active (y_d y') = d_active (y_d y)"

text \<open>In slice mode the caller appends what a read returns to the output.\<close>

definition took :: "bytes \<Rightarrow> ('r, 's) dsys \<Rightarrow> ('r, 's) dsys" where
  "took n y = (if d_streaming (y_d y) then y else y\<lparr>y_d := (y_d y)\<lparr>d_output := d_output (y_d y) @ n\<rparr>\<rparr>)"

definition idle :: "'r decompressor \<Rightarrow> bool" where
  "idle d \<longleftrightarrow> \<not> d_active d \<and> \<not> d_done d \<and> \<not> d_streaming d \<and> d_window d = None"

text \<open>The window of the message holds \<open>h\<close>.\<close>

definition window_holds :: "nat option \<Rightarrow> bytes \<Rightarrow> ('r, 's) dsys \<Rightarrow> bool" where
  "window_holds w h y \<longleftrightarrow> (\<forall>a. w = Some a \<longrightarrow> dict (Some (y_win y a)) = lastn (Size (y_win y a)) h)"

lemma remember_at_ok:
  obtains w where "remember_at E a p y = Some (y\<lparr>y_win := (y_win y)(a := w)\<rparr>)" "Size w = Size (y_win y a)"
    "dict (Some w) = lastn (Size (y_win y a)) (dict (Some (y_win y a)) @ p)"
  using remember_correct [of "dv_gc E" p "y_win y a"] by (auto simp: remember_at_def)

lemma finish_fail:
  "\<exists>y'. finish E False y = Some y' \<and> idle (y_d y') \<and> frame_ok y y' \<and> y_src y' = y_src y \<and> window_holds (d_window (y_d y)) [] y'"
  by (cases "d_window (y_d y)") (auto simp: finish_def idle_def frame_ok_def window_holds_def)

lemma finish_ok:
  assumes "hist_ok h out y"
  shows "\<exists>y'. finish E True y = Some y' \<and> idle (y_d y') \<and> frame_ok y y' \<and> y_src y' = y_src y \<and> window_holds (d_window (y_d y)) (h @ out) y'"
proof (cases "d_window (y_d y)")
  case None
  then show ?thesis by (simp add: finish_def idle_def frame_ok_def window_holds_def)
next
  case (Some a)
  show ?thesis
  proof (cases "d_streaming (y_d y)")
    case True
    then show ?thesis using Some assms by (simp add: finish_def idle_def frame_ok_def window_holds_def hist_ok_def msize_def)
  next
    case False
    let ?k = "d_kept (y_d y)"
    have o: "d_output (y_d y) = out" "?k \<le> length out" "dict (Some (y_win y a)) = lastn (Size (y_win y a)) (h @ take ?k out)"
      using assms False Some by (simp_all add: hist_ok_def msize_def Let_def)
    obtain w where w: "remember_at E a (drop ?k out) y = Some (y\<lparr>y_win := (y_win y)(a := w)\<rparr>)" "Size w = Size (y_win y a)"
        "dict (Some w) = lastn (Size (y_win y a)) (dict (Some (y_win y a)) @ drop ?k out)" by (rule remember_at_ok)
    then have "dict (Some w) = lastn (Size w) (h @ out)" using o(3) by simp
    then show ?thesis using False Some o(1,2) w(1,2) by (simp add: finish_def idle_def frame_ok_def window_holds_def)
  qed
qed

lemma note_output_ok:
  assumes "hist_ok h out y"
  shows "\<exists>y'. note_output E n y = Some y' \<and> frame_ok y y' \<and> same_msg y y' \<and> y_src y' = y_src y \<and> d_reader (y_d y') = d_reader (y_d y)
     \<and> d_slice (y_d y') = d_slice (y_d y) \<and> d_input (y_d y') = d_input (y_d y) \<and> d_done (y_d y') = d_done (y_d y)
     \<and> hist_ok h (out @ n) (took n y')"
proof (cases "n \<noteq> [] \<and> d_streaming (y_d y)")
  case False
  then have "note_output E n y = Some y" by (auto simp: note_output_def)
  moreover have "hist_ok h (out @ n) (took n y)" using assms False
    by (cases "d_streaming (y_d y)") (auto simp: hist_ok_def took_def Let_def msize_def)
  ultimately show ?thesis by (simp add: frame_ok_def same_msg_def)
next
  case True
  then have st: "d_streaming (y_d y)" by simp
  show ?thesis
  proof (cases "d_window (y_d y)")
    case (Some a)
    obtain w where w: "remember_at E a n y = Some (y\<lparr>y_win := (y_win y)(a := w)\<rparr>)" "Size w = Size (y_win y a)"
        "dict (Some w) = lastn (Size (y_win y a)) (dict (Some (y_win y a)) @ n)" by (rule remember_at_ok)
    have "dict (Some (y_win y a)) = lastn (Size (y_win y a)) (h @ out)" using assms st Some by (simp add: hist_ok_def msize_def)
    then have "hist_ok h (out @ n) (took n (y\<lparr>y_win := (y_win y)(a := w)\<rparr>))"
      using w(2,3) st Some by (simp add: hist_ok_def took_def msize_def)
    then show ?thesis using True Some w(1,2) by (simp add: note_output_def frame_ok_def same_msg_def)
  next
    case None
    obtain w where w: "remember (dv_gc E) n (d_scratch (y_d y)) = Some w" "Size w = Size (d_scratch (y_d y))"
        "dict (Some w) = lastn (Size (d_scratch (y_d y))) (dict (Some (d_scratch (y_d y))) @ n)"
      using remember_correct [of "dv_gc E" n "d_scratch (y_d y)"] by blast
    have "dict (Some (d_scratch (y_d y))) = lastn windowSize (h @ out)" "Size (d_scratch (y_d y)) = windowSize" "h = []"
      using assms st None by (simp_all add: hist_ok_def msize_def)
    then have "hist_ok h (out @ n) (took n (y\<lparr>y_d := (y_d y)\<lparr>d_scratch := w\<rparr>\<rparr>))"
      using w(2,3) st None by (simp add: hist_ok_def took_def msize_def)
    then show ?thesis using True None w(1,2) by (simp add: note_output_def frame_ok_def same_msg_def)
  qed
qed

lemma d_dict_ok:
  assumes "hist_ok h out (took n y)"
  shows "\<exists>y'. d_dict E n y = Some (lastn (msize y) (h @ out), y') \<and> frame_ok y y' \<and> same_msg y y' \<and> y_src y' = y_src y
     \<and> d_slice (y_d y') = d_slice (y_d y) \<and> d_input (y_d y') = d_input (y_d y) \<and> d_done (y_d y') = d_done (y_d y) \<and> msize y' = msize y
     \<and> hist_ok h out (took n y')"
proof (cases "d_streaming (y_d y)")
  case True
  then show ?thesis using assms
    by (auto simp: d_dict_def Let_def hist_ok_def took_def frame_ok_def same_msg_def split: option.splits)
next
  case False
  have o: "d_output (y_d y) @ n = out" "d_kept (y_d y) \<le> length out" using assms False by (simp_all add: hist_ok_def took_def Let_def)
  show ?thesis
  proof (cases "d_window (y_d y)")
    case None
    have "drop (length out - windowSize) out = lastn windowSize (h @ out)" using assms None False
      by (simp add: hist_ok_def took_def lastn_def)
    then show ?thesis using None False o assms by (simp add: d_dict_def msize_def frame_ok_def same_msg_def)
  next
    case (Some a)
    let ?k = "d_kept (y_d y)"
    obtain w where w: "remember_at E a (drop ?k out) y = Some (y\<lparr>y_win := (y_win y)(a := w)\<rparr>)" "Size w = Size (y_win y a)"
        "dict (Some w) = lastn (Size (y_win y a)) (dict (Some (y_win y a)) @ drop ?k out)" by (rule remember_at_ok)
    have "dict (Some (y_win y a)) = lastn (Size (y_win y a)) (h @ take ?k out)"
      using assms Some False by (simp add: hist_ok_def took_def msize_def Let_def)
    then have d: "dict (Some w) = lastn (Size (y_win y a)) (h @ out)" using w(3) by simp
    define y' where "y' = y\<lparr>y_win := (y_win y)(a := w), y_d := (y_d y)\<lparr>d_kept := length out\<rparr>\<rparr>"
    have "d_dict E n y = Some (lastn (msize y) (h @ out), y')"
      using Some False o w(1) d by (simp add: d_dict_def msize_def y'_def)
    moreover have "hist_ok h out (took n y')"
      using Some False o w(2) d by (simp add: hist_ok_def took_def msize_def y'_def)
    ultimately show ?thesis using Some False w(2) by (simp add: y'_def frame_ok_def same_msg_def msize_def)
  qed
qed

section \<open>Reads\<close>

text \<open>
  A message in progress: it decodes to \<open>target\<close> as a whole, \<open>out\<close> has been produced of it, and the
  inflater is in a stream that began after \<open>out0\<close>, has drawn \<open>fed\<close> and has \<open>b\<close> left. Once the source is
  gone the message does not decode.
\<close>

definition running ::
    "('r, 'e) flate_reader \<Rightarrow> ('r \<Rightarrow> nat \<Rightarrow> bytes \<Rightarrow> bytes \<Rightarrow> bytes \<Rightarrow> bool) \<Rightarrow> stream \<Rightarrow> ('s, 'e) chunks \<Rightarrow> bytes \<Rightarrow> 's
       \<Rightarrow> bytes \<Rightarrow> bytes option \<Rightarrow> bytes \<Rightarrow> bytes \<Rightarrow> ('r, 's) dsys \<Rightarrow> bool" where
  "running F I st nc h fin out target fed b y \<longleftrightarrow>
     (\<exists>r out0 seg. d_reader (y_d y) = Some r \<and> out = out0 @ seg \<and> I r 0 (lastn (msize y) (h @ out0)) fed seg
        \<and> left nc (y_d y) (y_src y) b fin
        \<and> target = map_option ((@) out0) (whole st (msize y) (lastn (msize y) (h @ out0)) (fed @ b))
        \<and> within st (lastn (msize y) (h @ out0)) fed b)
     \<and> (\<forall>p. target = Some p \<longrightarrow> prefix out p) \<and> hist_ok h out y"

definition stuck :: "('r \<Rightarrow> nat \<Rightarrow> 'e derror \<Rightarrow> bool) \<Rightarrow> bytes \<Rightarrow> bytes \<Rightarrow> bytes option \<Rightarrow> ('r, 's) dsys \<Rightarrow> bool" where
  "stuck gone h out target y \<longleftrightarrow> target = None \<and> hist_ok h out y \<and> (\<exists>r. d_reader (y_d y) = Some r \<and> gone r 0 DEOF)"

lemma msize_same: "same_msg y y' \<Longrightarrow> frame_ok y y' \<Longrightarrow> msize y' = msize y"
  by (simp add: msize_def same_msg_def frame_ok_def split: option.split)

lemma frame_ok_trans: "frame_ok y y1 \<Longrightarrow> frame_ok y1 y2 \<Longrightarrow> d_window (y_d y1) = d_window (y_d y) \<Longrightarrow> frame_ok y y2"
  by (auto simp: frame_ok_def)

lemma same_msg_trans: "same_msg y y1 \<Longrightarrow> same_msg y1 y2 \<Longrightarrow> same_msg y y2"
  by (simp add: same_msg_def)

text \<open>The four ways a read ends.\<close>

definition read_ends ::
    "('r, 'e) flate_reader \<Rightarrow> ('r \<Rightarrow> nat \<Rightarrow> bytes \<Rightarrow> bytes \<Rightarrow> bytes \<Rightarrow> bool) \<Rightarrow> ('r \<Rightarrow> nat \<Rightarrow> 'e derror \<Rightarrow> bool) \<Rightarrow> stream
       \<Rightarrow> ('s, 'e) chunks \<Rightarrow> nat \<Rightarrow> bytes \<Rightarrow> 's \<Rightarrow> bytes \<Rightarrow> bytes option \<Rightarrow> ('r, 's) dsys \<Rightarrow> bytes \<times> 'e derror option \<Rightarrow> ('r, 's) dsys \<Rightarrow> bool" where
  "read_ends F I gone st nc n h fin out target y = (\<lambda>(o', e) y'. frame_ok y y' \<and>
     (case e of
        None \<Rightarrow> o' \<noteq> [] \<and> length o' \<le> n \<and> same_msg y y' \<and>
          (if d_done (y_d y') then target = Some (out @ o') \<and> y_src y' = fin \<and> hist_ok h (out @ o') (took o' y')
           else (\<exists>fed b. running F I st nc h fin (out @ o') target fed b (took o' y')) \<or> stuck gone h (out @ o') target (took o' y'))
      | Some e \<Rightarrow> o' = [] \<and> idle (y_d y')
          \<and> (if e = DEOF then target = Some out \<and> y_src y' = fin \<and> window_holds (d_window (y_d y)) (h @ out) y'
             else target = None \<and> window_holds (d_window (y_d y)) [] y')))"

lemma whole_stream:
  assumes "inflater F I gone st" "whole st m D s = Some p"
  shows "\<exists>q rest. st D s = Some (q, rest) \<and> prefix q p"
  using assms(2) unfolding whole_unfold [OF assms(1), of m D s] by (auto split: option.splits prod.splits if_splits)

lemma left_cong:
  "left nc d s b fin \<Longrightarrow> d_streaming d' = d_streaming d \<Longrightarrow> d_input d' = d_input d \<Longrightarrow> d_slice d' = d_slice d \<Longrightarrow> left nc d' s b fin"
  by (simp add: left_def)

lemma took_simps [simp]:
  "took [] y = y" "d_window (y_d (took n y)) = d_window (y_d y)" "d_streaming (y_d (took n y)) = d_streaming (y_d y)"
  "d_reader (y_d (took n y)) = d_reader (y_d y)" "d_input (y_d (took n y)) = d_input (y_d y)" "d_slice (y_d (took n y)) = d_slice (y_d y)"
  "y_src (took n y) = y_src y" "y_win (took n y) = y_win y" "d_done (y_d (took n y)) = d_done (y_d y)" "d_active (y_d (took n y)) = d_active (y_d y)"
  by (simp_all add: took_def)

lemma msize_took [simp]: "msize (took n y) = msize y"
  by (simp add: msize_def split: option.split)

lemma took_reader: "took n (y\<lparr>y_d := (y_d y)\<lparr>d_reader := r\<rparr>\<rparr>) = (took n y)\<lparr>y_d := (y_d (took n y))\<lparr>d_reader := r\<rparr>\<rparr>"
  by (simp add: took_def)

lemma hist_ok_reader [simp]: "hist_ok h out (y\<lparr>y_d := (y_d y)\<lparr>d_reader := r\<rparr>\<rparr>) = hist_ok h out y"
  by (simp add: hist_ok_def msize_def split: option.split)

lemma drawn_fields:
  assumes "drawn d d'"
  shows "d_window d' = d_window d" "d_streaming d' = d_streaming d" "d_active d' = d_active d" "d_done d' = d_done d" "d_kept d' = d_kept d"
    "d_scratch d' = d_scratch d" "d_output d' = d_output d" "d_outcap d' = d_outcap d" "d_outBuf d' = d_outBuf d"
    "d_in d' = d_in d" "d_incap d' = d_incap d" "d_inBuf d' = d_inBuf d" "length (d_slice d') \<le> length (d_slice d)"
  using assms by (cases d; cases d'; simp add: drawn_def)+

text \<open>The inflater's call on a message in progress, and the history it leaves.\<close>

lemma running_call:
  assumes fl: "inflater (dv_flate E) I gone st" and n: "0 < n" and run: "running (dv_flate E) I st nc h fin out target fed b y"
  obtains r out0 seg o' e r' d s x b' y2 where
    "d_reader (y_d y) = Some r" "out = out0 @ seg"
    "drive (dv_flate E) nc (CallRead (dv_flate E) n r) (y_d y) (y_src y) = Some ((o', e), r', d, s)"
    "note_output E o' (y\<lparr>y_d := d\<lparr>d_reader := Some r'\<rparr>, y_src := s\<rparr>) = Some y2"
    "frame_ok y y2" "same_msg y y2" "d_reader (y_d y2) = Some r'" "d_done (y_d y2) = d_done (y_d y)" "msize y2 = msize y"
    "hist_ok h (out @ o') (took o' y2)" "left nc (y_d y2) (y_src y2) b' fin" "b = x @ b'"
    "call_ends I gone st n (lastn (msize y) (h @ out0)) (fed @ x) seg (o', e) r'" "within st (lastn (msize y) (h @ out0)) (fed @ x) b'"
    "target = map_option ((@) out0) (whole st (msize y) (lastn (msize y) (h @ out0)) (fed @ b))"
    "\<And>p. target = Some p \<Longrightarrow> prefix (out @ o') p \<and> (e = None \<and> o' \<noteq> [] \<and> I r' 0 (lastn (msize y) (h @ out0)) (fed @ x) (seg @ o') \<or> e = Some DEOF)"
proof -
  obtain r out0 seg where r: "d_reader (y_d y) = Some r" "out = out0 @ seg" "I r 0 (lastn (msize y) (h @ out0)) fed seg"
     "left nc (y_d y) (y_src y) b fin" "target = map_option ((@) out0) (whole st (msize y) (lastn (msize y) (h @ out0)) (fed @ b))"
     "within st (lastn (msize y) (h @ out0)) fed b" and ho: "hist_ok h out y"
    using run unfolding running_def by blast
  let ?D = "lastn (msize y) (h @ out0)"
  obtain o' e r' d s x b' where dr: "drive (dv_flate E) nc (CallRead (dv_flate E) n r) (y_d y) (y_src y) = Some ((o', e), r', d, s)" "b = x @ b'"
      "left nc d s b' fin" "drawn (y_d y) d" "call_ends I gone st n ?D (fed @ x) seg (o', e) r'"
      "within st ?D fed b \<longrightarrow> within st ?D (fed @ x) b' \<and> (\<forall>p rest. st ?D (fed @ b) = Some (p, rest) \<longrightarrow>
               prefix (seg @ o') p \<and> (e = None \<and> o' \<noteq> [] \<and> I r' 0 ?D (fed @ x) (seg @ o') \<or> e = Some DEOF))"
    using drive_ok [OF fl n call_read [OF fl r(3) n] r(4)] by (elim exE conjE) (rule that)
  define y1 where "y1 = y\<lparr>y_d := d\<lparr>d_reader := Some r'\<rparr>, y_src := s\<rparr>"
  have fl1: "y_win y1 = y_win y" "d_window (y_d y1) = d_window (y_d y)" "d_streaming (y_d y1) = d_streaming (y_d y)"
     "d_scratch (y_d y1) = d_scratch (y_d y)" "d_output (y_d y1) = d_output (y_d y)" "d_kept (y_d y1) = d_kept (y_d y)"
    by (simp_all add: y1_def drawn_fields [OF dr(4)])
  have "msize y1 = msize y" by (simp add: msize_def fl1 cong: option.case_cong)
  then have "hist_ok h out y1" using ho by (simp add: hist_ok_def fl1 cong: option.case_cong)
  then have y1: "frame_ok y y1" "same_msg y y1" "hist_ok h out y1" "d_done (y_d y1) = d_done (y_d y)"
    by (simp_all add: y1_def frame_ok_def same_msg_def drawn_fields [OF dr(4)])
  obtain y2 where y2: "note_output E o' y1 = Some y2" "frame_ok y1 y2" "same_msg y1 y2" "y_src y2 = y_src y1" "d_reader (y_d y2) = d_reader (y_d y1)"
     "d_slice (y_d y2) = d_slice (y_d y1)" "d_input (y_d y2) = d_input (y_d y1)" "d_done (y_d y2) = d_done (y_d y1)" "hist_ok h (out @ o') (took o' y2)"
    using note_output_ok [OF y1(3), of E o'] by (elim exE conjE) (rule that)
  have fo: "frame_ok y y2" using frame_ok_trans [OF y1(1) y2(2)] y1(2) by (simp add: same_msg_def)
  have sm: "same_msg y y2" using same_msg_trans [OF y1(2) y2(3)] .
  have lf: "left nc (y_d y2) (y_src y2) b' fin"
    using left_cong [OF dr(3), of "y_d y2"] y2(3,4,6,7) by (simp add: y1_def same_msg_def)
  have tg: "prefix (out @ o') p \<and> (e = None \<and> o' \<noteq> [] \<and> I r' 0 ?D (fed @ x) (seg @ o') \<or> e = Some DEOF)" if t: "target = Some p" for p
  proof -
    obtain q where q: "whole st (msize y) ?D (fed @ b) = Some q" "p = out0 @ q" using t r(5) by auto
    obtain q' rest where q': "st ?D (fed @ b) = Some (q', rest)" "prefix q' q" using whole_stream [OF fl q(1)] by blast
    with dr(6) r(6) have "prefix (seg @ o') q'" "e = None \<and> o' \<noteq> [] \<and> I r' 0 ?D (fed @ x) (seg @ o') \<or> e = Some DEOF" by blast+
    with q(2) q'(2) r(2) show ?thesis by (metis append.assoc prefix_order.trans same_prefix_prefix)
  qed
  show thesis
    by (rule that [OF r(1,2) dr(1) y2(1) [unfolded y1_def] fo sm _ _ msize_same [OF sm fo] y2(9) lf dr(2,5) _ r(5) tg])
       (use y2(5,8) y1(4) dr(6) r(6) in \<open>simp_all add: y1_def\<close>)
qed

lemma read_ends_fail:
  assumes "frame_ok y y2" "same_msg y y2" "e \<noteq> DEOF" "target = None"
  shows "\<exists>y'. fail_msg E e y2 = Some (e, y') \<and> read_ends F I gone st nc n h fin out target y ([], Some e) y'"
proof -
  have w: "d_window (y_d y2) = d_window (y_d y)" using assms(2) by (simp add: same_msg_def)
  obtain y' where y': "finish E False y2 = Some y'" "idle (y_d y')" "frame_ok y2 y'" "window_holds (d_window (y_d y2)) [] y'"
    using finish_fail [of E y2] by blast
  with assms frame_ok_trans [OF assms(1) y'(3) w] w show ?thesis by (simp add: fail_msg_def read_ends_def)
qed

lemma read_ends_mono:
  assumes "read_ends F I gone st nc n h fin out target y1 res y'" "frame_ok y y1" "same_msg y y1"
  shows "read_ends F I gone st nc n h fin out target y res y'"
proof -
  have w: "d_window (y_d y1) = d_window (y_d y)" using assms(3) by (simp add: same_msg_def)
  obtain o' e where res: "res = (o', e)" by (cases res)
  have f: "frame_ok y y'" using assms(1) frame_ok_trans [OF assms(2) _ w] by (auto simp: read_ends_def res)
  have sm: "same_msg y1 y' \<Longrightarrow> same_msg y y'" using same_msg_trans [OF assms(3)] .
  show ?thesis using assms(1) f sm w by (cases e) (simp_all add: read_ends_def res split: if_splits)
qed

text \<open>A mid-message reset: the next stream of the message.\<close>

lemma running_reset:
  assumes fl: "inflater (dv_flate E) I gone st" and D: "D = lastn m (h @ out0)" "m = msize y2"
    and end_st: "st D (fed @ x) = Some (seg @ o', [])" and b': "b' \<noteq> []" and lf: "left nc (y_d y2) (y_src y2) b' fin"
    and tg: "target = map_option ((@) out0) (whole st m D ((fed @ x) @ b'))" and out: "out = out0 @ seg"
    and pf: "\<And>p. target = Some p \<Longrightarrow> prefix (out @ o') p" and ho: "hist_ok h (out @ o') (took o' y2)"
  obtains y3 r3 where "d_dict E o' y2 = Some (lastn m (h @ out @ o'), y3)"
    "ResetReader (dv_flate E) (lastn m (h @ out @ o')) r = (None, r3)"
    "frame_ok y2 y3" "same_msg y2 y3" "d_done (y_d y3) = d_done (y_d y2)"
    "running (dv_flate E) I st nc h fin (out @ o') target [] b' (took o' (y3\<lparr>y_d := (y_d y3)\<lparr>d_reader := Some r3\<rparr>\<rparr>))"
    "length b' < length ((fed @ x) @ b')"
proof -
  obtain y3 where y3: "d_dict E o' y2 = Some (lastn (msize y2) (h @ out @ o'), y3)" "frame_ok y2 y3" "same_msg y2 y3" "y_src y3 = y_src y2"
     "d_slice (y_d y3) = d_slice (y_d y2)" "d_input (y_d y3) = d_input (y_d y2)" "d_done (y_d y3) = d_done (y_d y2)" "msize y3 = msize y2"
     "hist_ok h (out @ o') (took o' y3)"
    using d_dict_ok [OF ho, of E] by (elim exE conjE) (rule that)
  let ?D' = "lastn m (h @ out @ o')"
  obtain r3 where r3: "ResetReader (dv_flate E) ?D' r = (None, r3)" "I r3 0 ?D' [] []" using reset_reader [OF fl] by blast
  obtain z where z: "z \<noteq> []" "fed @ x = z @ []" "\<And>s'. st D (z @ s') = Some (seg @ o', s')" using stream_split [OF fl end_st] by blast
  have "lastn m (D @ seg @ o') = ?D'" unfolding D(1) out by (simp only: lastn_append_lastn append_assoc)
  then have "whole st m D ((fed @ x) @ b') = map_option ((@) (seg @ o')) (whole st m ?D' b')"
    using whole_unfold [OF fl, of m D "(fed @ x) @ b'"] z b' by simp
  then have tg': "target = map_option ((@) (out @ o')) (whole st m ?D' ([] @ b'))"
    unfolding tg out by (cases "whole st m (lastn m (h @ out0 @ seg @ o')) b'") simp_all
  let ?y = "y3\<lparr>y_d := (y_d y3)\<lparr>d_reader := Some r3\<rparr>\<rparr>"
  have ms: "msize (took o' ?y) = m" using y3(8) D(2) by (simp add: msize_def split: option.splits)
  have lf': "left nc (y_d (took o' ?y)) (y_src (took o' ?y)) b' fin"
    using left_cong [OF lf, of "y_d (took o' ?y)"] y3(3-6) by (simp add: same_msg_def)
  have ho': "hist_ok h (out @ o') (took o' ?y)" using y3(9) by (simp add: took_reader)
  have "running (dv_flate E) I st nc h fin (out @ o') target [] b' (took o' ?y)"
    unfolding running_def ms
    by (intro conjI exI [of _ r3] exI [of _ "out @ o'"] exI [of _ "[]"])
       (use r3(2) lf' tg' ho' pf in \<open>simp_all add: within_def\<close>,
        use stream_split [OF fl] in \<open>fastforce\<close>)
  then show thesis
    using that [OF y3(1) [folded D(2)] r3(1) y3(2,3,7)] z(1,2) by simp
qed

lemma read_loop_ok:
  assumes fl: "inflater (dv_flate E) I gone st" and n: "0 < n"
  shows "running (dv_flate E) I st nc h fin out target fed b y \<Longrightarrow> \<not> d_done (y_d y) \<Longrightarrow>
    \<exists>res y'. read_loop E nc n y = Some (res, y') \<and> read_ends (dv_flate E) I gone st nc n h fin out target y res y'"
proof (induction "length (fed @ b)" arbitrary: fed b y rule: less_induct)
  case less
  note run = less.prems(1) and nd = less.prems(2)
  let ?F = "dv_flate E"
  obtain r out0 seg o' e r' d s x b' y2 where c: "d_reader (y_d y) = Some r" "out = out0 @ seg"
    "drive ?F nc (CallRead ?F n r) (y_d y) (y_src y) = Some ((o', e), r', d, s)"
    "note_output E o' (y\<lparr>y_d := d\<lparr>d_reader := Some r'\<rparr>, y_src := s\<rparr>) = Some y2"
    "frame_ok y y2" "same_msg y y2" "d_reader (y_d y2) = Some r'" "d_done (y_d y2) = d_done (y_d y)" "msize y2 = msize y"
    "hist_ok h (out @ o') (took o' y2)" "left nc (y_d y2) (y_src y2) b' fin" "b = x @ b'"
    "call_ends I gone st n (lastn (msize y) (h @ out0)) (fed @ x) seg (o', e) r'" "within st (lastn (msize y) (h @ out0)) (fed @ x) b'"
    "target = map_option ((@) out0) (whole st (msize y) (lastn (msize y) (h @ out0)) (fed @ b))"
    "\<And>p. target = Some p \<Longrightarrow> prefix (out @ o') p \<and> (e = None \<and> o' \<noteq> [] \<and> I r' 0 (lastn (msize y) (h @ out0)) (fed @ x) (seg @ o') \<or> e = Some DEOF)"
    by (rule running_call [OF fl n run]) (rule that; assumption)
  let ?D = "lastn (msize y) (h @ out0)"
  have rl: "read_loop E nc n y =
    (if e = Some DEOF
     then (if d_exhausted (y_d y2)
           then (if length o' = 0 then do { y \<leftarrow> finish E True y2; Some (([], Some DEOF), y) }
                 else Some ((o', None), y2\<lparr>y_d := (y_d y2)\<lparr>d_done := True\<rparr>\<rparr>))
           else (case d_dict E o' y2 of
                   None \<Rightarrow> None
                 | Some (dic, y) \<Rightarrow>
                     (let (rerr, r) = ResetReader (dv_flate E) dic r'; y = y\<lparr>y_d := (y_d y)\<lparr>d_reader := Some r\<rparr>\<rparr>
                      in case rerr of
                           Some e \<Rightarrow> do { (e, y) \<leftarrow> fail_msg E e y; Some (([], Some e), y) }
                         | None \<Rightarrow> if length o' \<noteq> 0 then Some ((o', None), y) else read_loop E nc n y)))
     else (case e of
             Some e \<Rightarrow> do { (e, y) \<leftarrow> fail_msg E e y2; Some (([], Some e), y) }
           | None \<Rightarrow>
               if length o' = 0 then do { (e, y) \<leftarrow> fail_msg E DNoProgress y2; Some (([], Some e), y) }
               else Some ((o', None), y2)))"
    by (subst read_loop.simps) (simp only: c(1,3,4) option.case prod.case)
  have w: "d_window (y_d y2) = d_window (y_d y)" using c(6) by (simp add: same_msg_def)
  consider (eof) "e = Some DEOF" | (err) e1 where "e = Some e1" "e1 \<noteq> DEOF" | (none) "e = None" "o' = []" | (out) "e = None" "o' \<noteq> []"
    by (cases e) auto
  then show ?case
  proof cases
    case err
    then have "target = None" using c(16) by (cases target) auto
    with read_ends_fail [OF c(5,6) err(2), of target E ?F I gone st nc n h fin out] err show ?thesis unfolding rl by auto
  next
    case none
    then have "target = None" using c(16) by (cases target) auto
    with read_ends_fail [OF c(5,6), of DNoProgress target E ?F I gone st nc n h fin out] none show ?thesis unfolding rl by auto
  next
    case out
    have len: "length o' \<le> n" and ig: "I r' 0 ?D (fed @ x) (seg @ o') \<or> gone r' 0 DEOF" using c(13) out by (simp_all add: call_ends_def)
    have l2: "left nc (y_d (took o' y2)) (y_src (took o' y2)) b' fin" using left_cong [OF c(11), of "y_d (took o' y2)"] by simp
    have "(\<exists>fed b. running ?F I st nc h fin (out @ o') target fed b (took o' y2)) \<or> stuck gone h (out @ o') target (took o' y2)"
    proof (cases "I r' 0 ?D (fed @ x) (seg @ o')")
      case True
      have "running ?F I st nc h fin (out @ o') target (fed @ x) b' (took o' y2)"
        unfolding running_def msize_took c(9)
        by (intro conjI exI [of _ r'] exI [of _ out0] exI [of _ "seg @ o'"])
           (use True c(2,7,10,12,14,15,16) l2 in \<open>auto\<close>)
      then show ?thesis by blast
    next
      case False
      then have "target = None" "gone r' 0 DEOF" using c(16) ig out by (cases target, auto)+
      then show ?thesis using c(7,10) by (simp add: stuck_def)
    qed
    then have "read_ends ?F I gone st nc n h fin out target y (o', None) y2"
      using out(2) len c(5,6,8) nd by (simp add: read_ends_def)
    then show ?thesis unfolding rl using out by simp
  next
    case eof
    have st: "st ?D (fed @ x) = Some (seg @ o', [])" "length o' \<le> n" using c(13) eof by (simp_all add: call_ends_def)
    have ex: "d_exhausted (y_d y2) \<longleftrightarrow> b' = []" using left_exhausted [OF c(11)] .
    show ?thesis
    proof (cases "b' = []")
      case True
      have "whole st (msize y) ?D (fed @ b) = Some (seg @ o')" using whole_unfold [OF fl, of "msize y" ?D "fed @ b"] st(1) True c(12) by simp
      then have tg: "target = Some (out @ o')" using c(2,15) by simp
      have fin: "y_src y2 = fin" using left_end c(11) True by metis
      show ?thesis
      proof (cases "o' = []")
        case emp: True
        obtain y' where y': "finish E True y2 = Some y'" "idle (y_d y')" "frame_ok y2 y'" "y_src y' = y_src y2" "window_holds (d_window (y_d y2)) (h @ out) y'"
          using finish_ok [of h out y2 E] c(10) emp by auto
        then have "read_ends ?F I gone st nc n h fin out target y ([], Some DEOF) y'"
          using frame_ok_trans [OF c(5) y'(3) w] tg emp fin w by (simp add: read_ends_def)
        then show ?thesis unfolding rl using eof ex True emp y'(1) by simp
      next
        case False
        let ?y = "y2\<lparr>y_d := (y_d y2)\<lparr>d_done := True\<rparr>\<rparr>"
        have "hist_ok h (out @ o') (took o' ?y)" using c(10) by (simp add: hist_ok_def took_def msize_def cong: option.case_cong split: if_splits)
        then have "read_ends ?F I gone st nc n h fin out target y (o', None) ?y"
          using c(5,6) tg fin st(2) False by (simp add: read_ends_def frame_ok_def same_msg_def)
        then show ?thesis unfolding rl using eof ex True False by simp
      qed
    next
      case False
      have tg: "target = map_option ((@) out0) (whole st (msize y) ?D ((fed @ x) @ b'))" using c(12,15) by simp
      obtain y3 r3 where y3: "d_dict E o' y2 = Some (lastn (msize y) (h @ out @ o'), y3)"
        "ResetReader ?F (lastn (msize y) (h @ out @ o')) r' = (None, r3)" "frame_ok y2 y3" "same_msg y2 y3" "d_done (y_d y3) = d_done (y_d y2)"
        "running ?F I st nc h fin (out @ o') target [] b' (took o' (y3\<lparr>y_d := (y_d y3)\<lparr>d_reader := Some r3\<rparr>\<rparr>))"
        "length b' < length ((fed @ x) @ b')"
        by (rule running_reset [OF fl refl c(9) [symmetric] st(1) False c(11) tg c(2) conjunct1 [OF c(16)] c(10), where r = r'])
           (assumption, (rule that; assumption))
      let ?y = "y3\<lparr>y_d := (y_d y3)\<lparr>d_reader := Some r3\<rparr>\<rparr>"
      have f: "frame_ok y ?y" using frame_ok_trans [OF c(5) y3(3) w] by (simp add: frame_ok_def)
      have sm: "same_msg y ?y" using same_msg_trans [OF c(6) y3(4)] by (simp add: same_msg_def)
      show ?thesis
      proof (cases "o' = []")
        case True
        have run': "running ?F I st nc h fin out target [] b' ?y" using y3(6) True by simp
        have "length ([] @ b') < length (fed @ b)" using y3(7) c(12) by simp
        from less.hyps [OF this run'] nd c(8) y3(5) obtain res y' where
          r: "read_loop E nc n ?y = Some (res, y')" "read_ends ?F I gone st nc n h fin out target ?y res y'" by auto
        have "read_loop E nc n y = Some (res, y')" unfolding rl using eof ex False True y3(1,2) r(1) by simp
        then show ?thesis using read_ends_mono [OF r(2) f sm] by blast
      next
        case ne: False
        have "read_ends ?F I gone st nc n h fin out target y (o', None) ?y"
          using f sm ne st(2) nd c(8) y3(5,6) by (auto simp: read_ends_def)
        then show ?thesis unfolding rl using eof ex False ne y3(1,2) by simp
      qed
    qed
  qed
qed

end
