(* ===== verification/Decompressor_Msg.thy ===== *)
theory Decompressor_Msg
  imports Decompressor_Read
begin

text \<open>
  Whole messages: beginning one, reading it to its end, and \<open>Decompress\<close> with its limit and its
  pooled storage.
\<close>

section \<open>A message that was begun\<close>

definition inmsg ::
    "('r, 'e) flate_reader \<Rightarrow> ('r \<Rightarrow> nat \<Rightarrow> bytes \<Rightarrow> bytes \<Rightarrow> bytes \<Rightarrow> bool) \<Rightarrow> ('r \<Rightarrow> nat \<Rightarrow> 'e derror \<Rightarrow> bool) \<Rightarrow> stream
       \<Rightarrow> ('s, 'e) chunks \<Rightarrow> bytes \<Rightarrow> 's \<Rightarrow> bytes \<Rightarrow> bytes option \<Rightarrow> ('r, 's) dsys \<Rightarrow> bool" where
  "inmsg F I gone st nc h fin out target y \<longleftrightarrow> d_active (y_d y) \<and>
     (if d_done (y_d y) then target = Some out \<and> y_src y = fin \<and> hist_ok h out y
      else (\<exists>fed b. running F I st nc h fin out target fed b y) \<or> stuck gone h out target y)"

lemma inmsg_prefix: "inmsg F I gone st nc h fin out target y \<Longrightarrow> target = Some p \<Longrightarrow> prefix out p"
  by (auto simp: inmsg_def running_def stuck_def split: if_splits)

lemma stuck_read:
  assumes fl: "inflater (dv_flate E) I gone st" and n: "0 < n" and s: "stuck gone h out target y" and nd: "\<not> d_done (y_d y)"
  shows "\<exists>res y'. read_loop E nc n y = Some (res, y') \<and> read_ends (dv_flate E) I gone st nc n h fin out target y res y'"
proof -
  obtain r where r: "d_reader (y_d y) = Some r" "gone r 0 DEOF" "target = None" and ho: "hist_ok h out y" using s by (auto simp: stuck_def)
  let ?r = "CallRead (dv_flate E) n r"
  obtain o' e where dr: "drive (dv_flate E) nc ?r (y_d y) (y_src y) = Some ((o', e), ?r, y_d y, y_src y)" "length o' \<le> n" "e \<noteq> Some DEOF"
     "e = None \<longrightarrow> gone ?r 0 DEOF"
    using drive_gone [OF fl gone_call [OF fl r(2) n] n, of nc "y_d y" "y_src y"] by (elim exE conjE) (rule that)
  define y1 where "y1 = y\<lparr>y_d := (y_d y)\<lparr>d_reader := Some ?r\<rparr>, y_src := y_src y\<rparr>"
  have y1e: "y1 = y\<lparr>y_d := (y_d y)\<lparr>d_reader := Some ?r\<rparr>\<rparr>" by (simp add: y1_def)
  have "hist_ok h out y1" using ho by (simp add: y1e)
  from note_output_ok [OF this, of E o'] obtain y2 where y2: "note_output E o' y1 = Some y2" "frame_ok y1 y2" "same_msg y1 y2"
     "d_reader (y_d y2) = d_reader (y_d y1)" "d_done (y_d y2) = d_done (y_d y1)" "hist_ok h (out @ o') (took o' y2)"
    by (elim exE conjE) (rule that)
  have f: "frame_ok y y2" and sm: "same_msg y y2" using y2(2,3) by (simp_all add: y1e frame_ok_def same_msg_def)
  have rl: "read_loop E nc n y = (case e of
             Some e \<Rightarrow> do { (e, y) \<leftarrow> fail_msg E e y2; Some (([], Some e), y) }
           | None \<Rightarrow>
               if length o' = 0 then do { (e, y) \<leftarrow> fail_msg E DNoProgress y2; Some (([], Some e), y) }
               else Some ((o', None), y2))"
    by (subst read_loop.simps) (simp only: r(1) dr(1,3) y2(1) [unfolded y1_def] option.case prod.case if_False)
  show ?thesis
  proof (cases e)
    case (Some e1)
    with dr(3) read_ends_fail [OF f sm, of e1 target E "dv_flate E" I gone st nc n h fin out] r(3) show ?thesis unfolding rl by auto
  next
    case None
    show ?thesis
    proof (cases "o' = []")
      case True
      with None read_ends_fail [OF f sm, of DNoProgress target E "dv_flate E" I gone st nc n h fin out] r(3) show ?thesis unfolding rl by auto
    next
      case False
      have "stuck gone h (out @ o') target (took o' y2)" using r(3) y2(4,6) dr(4) None by (simp add: stuck_def y1e)
      then have "read_ends (dv_flate E) I gone st nc n h fin out target y (o', None) y2"
        using f sm False dr(2) nd y2(5) by (simp add: read_ends_def y1e)
      then show ?thesis unfolding rl using None False by simp
    qed
  qed
qed

lemma d_Read_ok:
  assumes fl: "inflater (dv_flate E) I gone st" and n: "0 < n" and m: "inmsg (dv_flate E) I gone st nc h fin out target y"
  shows "\<exists>o' e y'. d_Read E nc n y = Some ((o', e), y') \<and> frame_ok y y' \<and>
     (case e of
        None \<Rightarrow> o' \<noteq> [] \<and> length o' \<le> n \<and> same_msg y y' \<and> inmsg (dv_flate E) I gone st nc h fin (out @ o') target (took o' y')
      | Some e \<Rightarrow> o' = [] \<and> idle (y_d y')
          \<and> (if e = DEOF then target = Some out \<and> y_src y' = fin \<and> window_holds (d_window (y_d y)) (h @ out) y'
             else target = None \<and> window_holds (d_window (y_d y)) [] y'))"
proof (cases "d_done (y_d y)")
  case True
  then have t: "target = Some out" "y_src y = fin" and ho: "hist_ok h out y" using m by (simp_all add: inmsg_def)
  obtain y' where y': "finish E True y = Some y'" "idle (y_d y')" "frame_ok y y'" "y_src y' = y_src y" "window_holds (d_window (y_d y)) (h @ out) y'"
    using finish_ok [OF ho, of E] by blast
  have "d_Read E nc n y = Some (([], Some DEOF), y')" using m True y'(1) by (simp add: d_Read_def inmsg_def)
  with y' t show ?thesis by (intro exI [of _ "[]"] exI [of _ "Some DEOF"] exI [of _ y']) simp
next
  case False
  have a: "d_active (y_d y)" using m by (simp add: inmsg_def)
  have "\<exists>res y'. read_loop E nc n y = Some (res, y') \<and> read_ends (dv_flate E) I gone st nc n h fin out target y res y'"
    using m False read_loop_ok [OF fl n _ False] stuck_read [OF fl n _ False] by (auto simp: inmsg_def)
  then obtain o' e y' where r: "read_loop E nc n y = Some ((o', e), y')" "read_ends (dv_flate E) I gone st nc n h fin out target y (o', e) y'" by auto
  have "d_Read E nc n y = Some ((o', e), y')" using a False r(1) by (simp add: d_Read_def)
  with r(2) a show ?thesis
    by (intro exI [of _ o'] exI [of _ e] exI [of _ y'])
       (cases e, auto simp: read_ends_def inmsg_def same_msg_def split: if_splits)
qed

section \<open>Beginning\<close>

definition dec_ok :: "'r decompressor \<Rightarrow> bool" where
  "dec_ok d \<longleftrightarrow> Size (d_scratch d) = windowSize \<and> length (d_output d) \<le> d_outcap d"

definition hsize :: "nat option \<Rightarrow> ('r, 's) dsys \<Rightarrow> nat" where
  "hsize w y = (case w of Some a \<Rightarrow> Size (y_win y a) | None \<Rightarrow> windowSize)"

definition hdict :: "nat option \<Rightarrow> ('r, 's) dsys \<Rightarrow> bytes" where
  "hdict w y = dict (map_option (y_win y) w)"

lemma buf_Put_ok:
  "pools_ok (y_pools y) \<Longrightarrow> \<exists>ps. buf_Put b y = Some (y\<lparr>y_pools := ps\<rparr>) \<and> pools_ok ps"
  using pools_ok_Put [of "y_pools y" b] by (auto simp: buf_Put_def)

lemma buf_Get_ok:
  assumes "pools_ok (y_pools y)" "1 \<le> n"
  shows "\<exists>c ps. buf_Get E n y = Some (c, y\<lparr>y_pools := ps, y_tick := Suc (y_tick y)\<rparr>) \<and> pools_ok ps \<and> n \<le> int c"
  using pool_Get_enough [OF assms, of "dv_pick E (y_tick y)"] pools_ok_Get [OF assms(1)] by (fastforce simp: buf_Get_def)

text \<open>What loading the input leaves alone.\<close>

definition loaded :: "'r decompressor \<Rightarrow> 'r decompressor \<Rightarrow> bool" where
  "loaded d d' \<longleftrightarrow> d_window d' = d_window d \<and> d_scratch d' = d_scratch d \<and> d_streaming d' = d_streaming d \<and> d_reader d' = d_reader d
     \<and> d_output d' = d_output d \<and> d_outcap d' = d_outcap d \<and> d_outBuf d' = d_outBuf d"

lemma load_slice_ok:
  assumes "pools_ok (y_pools y)"
  shows "\<exists>y'. load_slice E payload y = Some y' \<and> pools_ok (y_pools y') \<and> y_win y' = y_win y \<and> y_src y' = y_src y
     \<and> d_slice (y_d y') = payload @ inflateTail \<and> d_in (y_d y') = payload @ inflateTail \<and> loaded (y_d y) (y_d y')"
proof (cases "d_incap (y_d y) < length payload + length inflateTail")
  case False
  with assms show ?thesis by (simp add: load_slice_def loaded_def)
next
  case True
  obtain ps where ps: "buf_Put (d_inBuf (y_d y)) y = Some (y\<lparr>y_pools := ps\<rparr>)" "pools_ok ps" using buf_Put_ok [OF assms] by blast
  obtain c ps' where g: "buf_Get E (int (length payload + length inflateTail)) (y\<lparr>y_pools := ps\<rparr>)
      = Some (c, y\<lparr>y_pools := ps', y_tick := Suc (y_tick y)\<rparr>)" "pools_ok ps'"
    using buf_Get_ok [of "y\<lparr>y_pools := ps\<rparr>" "int (length payload + length inflateTail)" E] ps(2) by (auto simp: inflateTail_def)
  show ?thesis
    using True ps(1) g by (auto simp: load_slice_def loaded_def)
qed

definition emptied :: "('r, 's) dsys \<Rightarrow> ('r, 's) dsys" where
  "emptied y = y\<lparr>y_d := (y_d y)\<lparr>d_output := []\<rparr>\<rparr>"

lemma map_option_Nil: "map_option ((@) []) x = x"
  by (cases x) simp_all

text \<open>A begun message: nothing produced, everything to decode.\<close>

lemma inmsg_start:
  assumes fl: "inflater F I gone st" and r: "d_reader (y_d y) = Some r" "I r 0 (hdict w y) [] []"
    and d: "d_window (y_d y) = w" "d_active (y_d y)" "\<not> d_done (y_d y)" "d_kept (y_d y) = 0" "\<not> d_streaming (y_d y) \<longrightarrow> d_output (y_d y) = []"
      "Size (d_scratch (y_d y)) = windowSize" "dict (Some (d_scratch (y_d y))) = []"
    and l: "left nc (y_d y) (y_src y) b fin"
  shows "inmsg F I gone st nc (hdict w y) fin [] (whole st (hsize w y) (hdict w y) b) y"
proof -
  have ms: "msize y = hsize w y" by (simp add: msize_def hsize_def d(1))
  have hd: "lastn (hsize w y) (hdict w y) = hdict w y" "w = None \<longrightarrow> hdict w y = []"
    by (cases w; simp add: hsize_def hdict_def dict_lastn)+
  have ho: "hist_ok (hdict w y) [] y"
    using d hd ms by (cases w) (simp_all add: hist_ok_def hdict_def)
  have "within st (hdict w y) [] b" unfolding within_def using stream_split [OF fl] by fastforce
  then have "running F I st nc (hdict w y) fin [] (whole st (hsize w y) (hdict w y) b) [] b y"
    unfolding running_def ms using r l hd(1) ho by (auto intro!: exI [of _ "[]"] simp: map_option_Nil)
  then show ?thesis using d by (auto simp: inmsg_def)
qed

lemma begin_ok:
  assumes fl: "inflater (dv_flate E) I gone st" and y: "\<not> d_active (y_d y)" "dec_ok (y_d y)" "pools_ok (y_pools y)"
    and b: "if src then chunked nc (y_src y) b fin else b = payload \<and> fin = y_src y"
  shows "\<exists>y'. begin_msg E src payload w y = Some (None, y') \<and> pools_ok (y_pools y') \<and> y_win y' = y_win y \<and> y_src y' = y_src y
     \<and> dec_ok (y_d y') \<and> d_window (y_d y') = w \<and> d_streaming (y_d y') = src \<and> \<not> d_done (y_d y') \<and> (\<not> src \<longrightarrow> d_in (y_d y') = payload @ inflateTail \<and> length (d_slice (y_d y')) = length payload + 9)
     \<and> inmsg (dv_flate E) I gone st nc (hdict w y) fin [] (whole st (hsize w y) (hdict w y) (b @ inflateTail)) (if src then y' else emptied y')"
proof -
  define y1 where "y1 = y\<lparr>y_d := (y_d y)\<lparr>d_window := w, d_scratch := win_Reset (d_scratch (y_d y)), d_streaming := src\<rparr>\<rparr>"
  have "\<exists>y2. (if src then Some (y1\<lparr>y_d := (y_d y1)\<lparr>d_input := \<lparr>mr_src = True, mr_payload = [], mr_tail = inflateTail, mr_eof = False\<rparr>\<rparr>\<rparr>)
            else load_slice E payload y1) = Some y2 \<and> pools_ok (y_pools y2) \<and> y_win y2 = y_win y \<and> y_src y2 = y_src y \<and> loaded (y_d y1) (y_d y2)
       \<and> left nc (y_d y2) (y_src y2) (b @ inflateTail) fin \<and> (\<not> src \<longrightarrow> d_in (y_d y2) = payload @ inflateTail \<and> length (d_slice (y_d y2)) = length payload + 9)"
  proof (cases src)
    case True
    then show ?thesis using y(3) b by (auto simp: y1_def loaded_def left_def inflateTail_def)
  next
    case False
    have "pools_ok (y_pools y1)" using y(3) by (simp add: y1_def)
    from load_slice_ok [OF this, of E payload] False b show ?thesis by (auto simp: y1_def loaded_def left_def inflateTail_def)
  qed
  then obtain y2 where y2: "(if src then Some (y1\<lparr>y_d := (y_d y1)\<lparr>d_input := \<lparr>mr_src = True, mr_payload = [], mr_tail = inflateTail, mr_eof = False\<rparr>\<rparr>\<rparr>)
            else load_slice E payload y1) = Some y2" "pools_ok (y_pools y2)" "y_win y2 = y_win y" "y_src y2 = y_src y" "loaded (y_d y1) (y_d y2)"
       "left nc (y_d y2) (y_src y2) (b @ inflateTail) fin" "\<not> src \<longrightarrow> d_in (y_d y2) = payload @ inflateTail \<and> length (d_slice (y_d y2)) = length payload + 9"
    by (elim exE conjE) (rule that)
  define y3 where "y3 = y2\<lparr>y_d := (y_d y2)\<lparr>d_kept := 0, d_active := True, d_done := False\<rparr>\<rparr>"
  have bm: "begin_msg E src payload w y =
      (let dic = dict (map_option (y_win y3) w)
       in case d_reader (y_d y3) of
            None \<Rightarrow> Some (None, y3\<lparr>y_d := (y_d y3)\<lparr>d_reader := Some (NewReaderDict (dv_flate E) dic)\<rparr>\<rparr>)
          | Some r \<Rightarrow>
             (let (err, r) = ResetReader (dv_flate E) dic r; y = y3\<lparr>y_d := (y_d y3)\<lparr>d_reader := Some r\<rparr>\<rparr>
              in case err of None \<Rightarrow> Some (None, y) | Some e \<Rightarrow> do { (e, y) \<leftarrow> fail_msg E e y; Some (Some e, y) }))"
    by (simp only: begin_msg_def y(1) if_False bind.bind_lunit y1_def [symmetric] y2(1) y3_def [symmetric])
  have dic: "dict (map_option (y_win y3) w) = hdict w y" by (simp add: y3_def hdict_def y2(3))
  have "\<exists>r. begin_msg E src payload w y = Some (None, y3\<lparr>y_d := (y_d y3)\<lparr>d_reader := Some r\<rparr>\<rparr>) \<and> I r 0 (hdict w y) [] []"
  proof (cases "d_reader (y_d y3)")
    case None
    then show ?thesis unfolding bm dic using new_reader [OF fl]
      by (intro exI [of _ "NewReaderDict (dv_flate E) (hdict w y)"]) simp
  next
    case (Some r)
    obtain r' where "ResetReader (dv_flate E) (hdict w y) r = (None, r')" "I r' 0 (hdict w y) [] []" using reset_reader [OF fl] by blast
    then show ?thesis unfolding bm dic using Some by (intro exI [of _ r']) simp
  qed
  then obtain r where r: "begin_msg E src payload w y = Some (None, y3\<lparr>y_d := (y_d y3)\<lparr>d_reader := Some r\<rparr>\<rparr>)" "I r 0 (hdict w y) [] []" by blast
  let ?y = "y3\<lparr>y_d := (y_d y3)\<lparr>d_reader := Some r\<rparr>\<rparr>"
  define z where "z = (if src then ?y else emptied ?y)"
  have f: "d_window (y_d ?y) = w" "d_streaming (y_d ?y) = src" "d_scratch (y_d ?y) = win_Reset (d_scratch (y_d y))" "d_output (y_d ?y) = d_output (y_d y)"
    "d_outcap (y_d ?y) = d_outcap (y_d y)"
    using y2(5) by (simp_all add: y3_def y1_def loaded_def)
  have zf: "d_reader (y_d z) = Some r" "d_window (y_d z) = w" "d_streaming (y_d z) = src" "d_scratch (y_d z) = win_Reset (d_scratch (y_d y))" "d_active (y_d z)"
    "\<not> d_done (y_d z)" "d_kept (y_d z) = 0" "\<not> src \<longrightarrow> d_output (y_d z) = []" "y_win z = y_win y" "y_src z = y_src y2" "d_input (y_d z) = d_input (y_d y2)" "d_slice (y_d z) = d_slice (y_d y2)"
    using f y2(3) by (auto simp: z_def emptied_def y3_def)
  have hz: "hdict w z = hdict w y" "hsize w z = hsize w y" by (simp_all add: hdict_def hsize_def zf(9) cong: option.case_cong)
  have "left nc (y_d z) (y_src z) (b @ inflateTail) fin"
    using left_cong [OF y2(6), of "y_d z"] zf(3,10-12) y2(5) by (simp add: loaded_def y1_def)
  from inmsg_start [OF fl zf(1) r(2) [folded hz(1)] zf(2) zf(5-7) _ _ _ this] zf(3,4,8) y(2)
  have "inmsg (dv_flate E) I gone st nc (hdict w y) fin [] (whole st (hsize w y) (hdict w y) (b @ inflateTail)) z"
    by (simp add: hz dec_ok_def)
  then show ?thesis
    using r(1) y2(2-4,7) f y(2) by (intro exI [of _ ?y]) (simp add: z_def dec_ok_def y3_def)
qed

section \<open>Storage\<close>

lemma int64_small: "- (2 ^ 63) \<le> n \<Longrightarrow> n < 2 ^ 63 \<Longrightarrow> int64 n = n"
  by (simp add: int64_def)

lemma div_bounds: "0 \<le> a \<Longrightarrow> 0 < u \<Longrightarrow> 0 \<le> a div u \<and> a div u \<le> a" for a u :: int
  using zdiv_mono2 [of a 1 u] by (simp add: pos_imp_zdiv_nonneg_iff)

lemma projected_bounds:
  assumes "int (length (d_output d)) * int (length (d_slice d)) < 2 ^ 58"
  shows "0 \<le> projected d \<and> projected d < 2 ^ 58"
proof -
  define a where "a = int (length (d_output d)) * int (length (d_slice d))"
  have a: "0 \<le> a" "a < 2 ^ 58" using assms by (simp_all add: a_def)
  have e: "int64 a = a" using a by (intro int64_small) simp_all
  have "0 \<le> a div u \<and> a div u < 2 ^ 58" if "u > 0" for u
    using div_bounds [OF a(1) that] a(2) by simp
  then show ?thesis using a(1) by (auto simp: projected_def Let_def go_quot_def e simp flip: a_def)
qed

text \<open>Only the output's storage and the pools change when it grows.\<close>

definition regrown :: "('r, 's) dsys \<Rightarrow> ('r, 's) dsys \<Rightarrow> bool" where
  "regrown y y' \<longleftrightarrow> (\<exists>ps t c b. y' = y\<lparr>y_tick := t, y_pools := ps, y_d := (y_d y)\<lparr>d_outcap := c, d_outBuf := b\<rparr>\<rparr>)"

lemma regrownD:
  assumes "regrown y y'"
  shows "y_win y' = y_win y" "y_src y' = y_src y" "d_output (y_d y') = d_output (y_d y)" "d_slice (y_d y') = d_slice (y_d y)" "d_in (y_d y') = d_in (y_d y)"
    "d_window (y_d y') = d_window (y_d y)" "d_streaming (y_d y') = d_streaming (y_d y)" "d_scratch (y_d y') = d_scratch (y_d y)"
    "d_kept (y_d y') = d_kept (y_d y)" "d_reader (y_d y') = d_reader (y_d y)" "d_active (y_d y') = d_active (y_d y)" "d_done (y_d y') = d_done (y_d y)"
    "d_input (y_d y') = d_input (y_d y)"
  using assms by (auto simp: regrown_def)

lemma regrown_inmsg:
  assumes "regrown y y'"
  shows "inmsg F I gone st nc h fin out target y' = inmsg F I gone st nc h fin out target y"
proof -
  note r = regrownD [OF assms]
  have ms: "msize y' = msize y" by (simp add: msize_def r cong: option.case_cong)
  show ?thesis by (simp add: inmsg_def running_def stuck_def hist_ok_def left_def r ms cong: option.case_cong)
qed

lemma grow_full_ok:
  assumes p: "pools_ok (y_pools y)" and c: "length (d_output (y_d y)) \<le> d_outcap (y_d y)"
    and b: "int (length (d_output (y_d y))) * int (length (d_slice (y_d y))) < 2 ^ 58" "int (length (d_output (y_d y))) < 2 ^ 58"
  shows "\<exists>y'. grow_full E y = Some y' \<and> regrown y y' \<and> pools_ok (y_pools y') \<and> length (d_output (y_d y)) < d_outcap (y_d y')"
proof (cases "d_outcap (y_d y) = length (d_output (y_d y))")
  case False
  then have "grow_full E y = Some y" by (simp add: grow_full_def)
  moreover have "regrown y y" unfolding regrown_def
    by (intro exI [of _ "y_pools y"] exI [of _ "y_tick y"] exI [of _ "d_outcap (y_d y)"] exI [of _ "d_outBuf (y_d y)"]) simp
  ultimately show ?thesis using False c p by auto
next
  case True
  let ?l = "int (length (d_output (y_d y)))"
  define q where "q = projected (y_d y)"
  have q: "0 \<le> q" "q < 2 ^ 58" using projected_bounds [OF b(1)] by (simp_all add: q_def)
  have q2: "0 \<le> q div 16" "q div 16 \<le> q" using div_bounds [OF q(1), of 16] by simp_all
  define n where "n = max (32 * 1024) (max (int (length (d_output (y_d y)) div 2)) (int64 (q + go_quot q 16)))"
  have s: "int64 (q + go_quot q 16) = q + q div 16" using q q2 by (simp add: go_quot_def int64_small)
  have n: "32 * 1024 \<le> n" "n < 2 ^ 60" using q q2 b(2) by (auto simp: n_def s)
  have l: "int64 (?l + n) = ?l + n" using n b(2) by (intro int64_small) simp_all
  have "grow_full E y = grow E n y" using True by (simp add: grow_full_def n_def q_def Let_def)
  moreover have "\<not> n \<le> int (d_outcap (y_d y)) - ?l" using True n(1) by simp
  moreover obtain k ps where g: "buf_Get E (?l + n) y = Some (k, y\<lparr>y_pools := ps, y_tick := Suc (y_tick y)\<rparr>)" "pools_ok ps" "?l + n \<le> int k"
    using buf_Get_ok [OF p, of "?l + n" E] n(1) by auto
  moreover obtain ps' where "buf_Put (d_outBuf (y_d y)) (y\<lparr>y_pools := ps, y_tick := Suc (y_tick y)\<rparr>) = Some (y\<lparr>y_tick := Suc (y_tick y), y_pools := ps'\<rparr>)" "pools_ok ps'"
    using buf_Put_ok [of "y\<lparr>y_pools := ps, y_tick := Suc (y_tick y)\<rparr>" "d_outBuf (y_d y)"] g(2) by auto
  ultimately have gf: "grow_full E y = Some (y\<lparr>y_tick := Suc (y_tick y), y_pools := ps', y_d := (y_d y)\<lparr>d_outcap := k, d_outBuf := Some k\<rparr>\<rparr>)"
    "pools_ok ps'" by (simp_all add: grow_def l)
  then show ?thesis
    using g(3) n(1) by (intro exI [of _ "y\<lparr>y_tick := Suc (y_tick y), y_pools := ps', y_d := (y_d y)\<lparr>d_outcap := k, d_outBuf := Some k\<rparr>\<rparr>"])
      (auto simp: regrown_def)
qed

section \<open>Decompress\<close>

text \<open>What \<open>Decompress\<close> must do for a message that decodes to \<open>target\<close>.\<close>

definition dec_result :: "nat option \<Rightarrow> bytes \<Rightarrow> int \<Rightarrow> bytes option \<Rightarrow> 'e derror + bytes \<Rightarrow> ('r, 's) dsys \<Rightarrow> bool" where
  "dec_result w h maxSize target res y \<longleftrightarrow>
    (case target of
       None \<Rightarrow> (\<exists>e. res = Inl e) \<and> window_holds w [] y
     | Some p \<Rightarrow>
        if int (length p) \<le> maxSize then res = Inr p \<and> window_holds w (h @ p) y
        else res = Inl (Deflate ErrDecompressedTooLarge) \<and> window_holds w [] y)"

definition dec_frame :: "nat option \<Rightarrow> ('r, 's) dsys \<Rightarrow> ('r, 's) dsys \<Rightarrow> bool" where
  "dec_frame w y y' \<longleftrightarrow> idle (y_d y') \<and> pools_ok (y_pools y') \<and> Size (d_scratch (y_d y')) = windowSize
     \<and> (\<forall>a. Some a \<noteq> w \<longrightarrow> y_win y' a = y_win y a) \<and> (\<forall>a. Size (y_win y' a) = Size (y_win y a))"

lemma finish_again:
  assumes "idle (y_d y)"
  shows "finish E ok y = Some (y\<lparr>y_d := (y_d y)\<lparr>d_input := zero_messageReader, d_slice := []\<rparr>\<rparr>)"
  using assms by (cases "y_d y") (simp add: finish_def idle_def)

lemma dec_loop_ok:
  assumes fl: "inflater (dv_flate E) I gone st" and lim: "0 \<le> maxSize" "(maxSize + 1) * N < 2 ^ 58" "0 < N"
  shows "inmsg (dv_flate E) I gone st nc h fin out target y \<Longrightarrow> \<not> d_streaming (y_d y) \<Longrightarrow> \<not> d_done (y_d y) \<Longrightarrow> d_output (y_d y) = out
     \<Longrightarrow> int (length out) \<le> maxSize \<Longrightarrow> pools_ok (y_pools y) \<Longrightarrow> dec_ok (y_d y) \<Longrightarrow> int (length (d_slice (y_d y))) \<le> N \<Longrightarrow> d_window (y_d y) = w
     \<Longrightarrow> \<exists>res y'. dec_loop E nc maxSize y = Some (res, y') \<and> dec_result w h maxSize target res y' \<and> dec_frame w y y' \<and> dec_ok (y_d y')
        \<and> (\<forall>p. res = Inr p \<longrightarrow> y_src y' = fin \<and> d_output (y_d y') = p)"
proof (induction "nat (maxSize + 1 - int (length out))" arbitrary: out y rule: less_induct)
  case less
  note m = less.prems(1) and str = less.prems(2) and nd = less.prems(3) and o = less.prems(4) and len = less.prems(5) and pk = less.prems(6)
    and dk = less.prems(7) and sl = less.prems(8) and w = less.prems(9)
  have big: "int (length out) * int (length (d_slice (y_d y))) < 2 ^ 58" "int (length out) < 2 ^ 58"
  proof -
    have "int (length out) * int (length (d_slice (y_d y))) \<le> (maxSize + 1) * N" using len sl lim by (intro mult_mono) auto
    then show "int (length out) * int (length (d_slice (y_d y))) < 2 ^ 58" using lim(2) by simp
    have "maxSize + 1 \<le> (maxSize + 1) * N" using mult_left_mono [of 1 N "maxSize + 1"] lim by simp
    with lim(2) len show "int (length out) < 2 ^ 58" by linarith
  qed
  obtain y1 where y1: "grow_full E y = Some y1" "regrown y y1" "pools_ok (y_pools y1)" "length out < d_outcap (y_d y1)"
    using grow_full_ok [OF pk, of E] dk big o by (auto simp: dec_ok_def)
  note r1 = regrownD [OF y1(2)]
  have m1: "inmsg (dv_flate E) I gone st nc h fin out target y1" using m regrown_inmsg [OF y1(2)] by metis
  define n where "n = nat (read_size maxSize (y_d y1))"
  have n: "0 < n" "\<not> read_size maxSize (y_d y1) < 0" "n \<le> d_outcap (y_d y1) - length out" "int n \<le> maxSize - int (length out) + 1"
    using y1(4) len r1(3) o by (auto simp: n_def read_size_def Let_def)
  obtain o' e y2 where rd: "d_Read E nc n y1 = Some ((o', e), y2)" "frame_ok y1 y2"
    "case e of
        None \<Rightarrow> o' \<noteq> [] \<and> length o' \<le> n \<and> same_msg y1 y2 \<and> inmsg (dv_flate E) I gone st nc h fin (out @ o') target (took o' y2)
      | Some e \<Rightarrow> o' = [] \<and> idle (y_d y2)
          \<and> (if e = DEOF then target = Some out \<and> y_src y2 = fin \<and> window_holds (d_window (y_d y1)) (h @ out) y2
             else target = None \<and> window_holds (d_window (y_d y1)) [] y2)"
    using d_Read_ok [OF fl n(1) m1] by (elim exE conjE) (rule that)
  define y3 where "y3 = y2\<lparr>y_d := (y_d y2)\<lparr>d_output := d_output (y_d y2) @ o'\<rparr>\<rparr>"
  have out3: "d_output (y_d y3) = out @ o'" using rd(2) r1(3) o by (simp add: y3_def frame_ok_def)
  have fr: "frame_ok y1 y2" "\<And>a. Some a \<noteq> w \<Longrightarrow> y_win y2 a = y_win y a" "\<And>a. Size (y_win y2 a) = Size (y_win y a)"
    using rd(2) w by (simp_all add: frame_ok_def r1)
  have sc: "Size (d_scratch (y_d y2)) = windowSize" "d_outcap (y_d y2) = d_outcap (y_d y1)" "pools_ok (y_pools y2)"
     "length (d_slice (y_d y2)) \<le> length (d_slice (y_d y))" "d_output (y_d y2) = out"
    using rd(2) dk y1(3) o by (simp_all add: frame_ok_def dec_ok_def r1)
  have w1: "d_window (y_d y1) = w" using w r1 by simp
  have dl: "dec_loop E nc maxSize y =
      (if int (length (d_output (y_d y3))) > maxSize
                then do { y \<leftarrow> finish E False y3; Some (Inl (Deflate ErrDecompressedTooLarge), y) }
                else if e = Some DEOF \<or> d_done (y_d y3)
                then do { y \<leftarrow> finish E True y3; Some (Inr (d_output (y_d y)), y) }
                else (case e of
                        Some e \<Rightarrow> Some (Inl e, y3)
                      | None \<Rightarrow> dec_loop E nc maxSize y3))"
    by (subst dec_loop.simps) (simp only: y1(1) n(2) rd(1) [unfolded n_def] option.case prod.case if_False Let_def y3_def)
  show ?case
  proof (cases e)
    case (Some e1)
    then have e1: "o' = []" "idle (y_d y2)" using rd(3) by simp_all
    have y3e: "y3 = y2" using e1(1) by (simp add: y3_def)
    show ?thesis
    proof (cases "e1 = DEOF")
      case True
      then have t: "target = Some out" "y_src y2 = fin" "window_holds w (h @ out) y2" using rd(3) Some w1 by simp_all
      let ?y = "y2\<lparr>y_d := (y_d y2)\<lparr>d_input := zero_messageReader, d_slice := []\<rparr>\<rparr>"
      have "dec_loop E nc maxSize y = Some (Inr out, ?y)"
        unfolding dl using True Some out3 e1 len finish_again [OF e1(2), of E True] by (simp add: y3e)
      then show ?thesis using t fr sc e1 len y1(4)
        by (simp add: dec_result_def window_holds_def dec_frame_def idle_def dec_ok_def)
    next
      case False
      then have t: "target = None" "window_holds w [] y2" using rd(3) Some w1 by simp_all
      have "\<not> d_done (y_d y2)" using e1(2) by (simp add: idle_def)
      then have "dec_loop E nc maxSize y = Some (Inl e1, y2)" unfolding dl using False Some out3 e1 len by (simp add: y3e)
      then show ?thesis using t fr sc e1 y1(4) by (simp add: dec_result_def dec_frame_def dec_ok_def)
    qed
  next
    case None
    then have e0: "o' \<noteq> []" "length o' \<le> n" "same_msg y1 y2" "inmsg (dv_flate E) I gone st nc h fin (out @ o') target (took o' y2)"
      using rd(3) by simp_all
    have st2: "\<not> d_streaming (y_d y2)" "d_window (y_d y2) = w" using e0(3) str w1 r1 by (simp_all add: same_msg_def)
    have t3: "took o' y2 = y3" using st2 by (simp add: took_def y3_def)
    have f3: "y_win y3 = y_win y2" "d_window (y_d y3) = w" "d_streaming (y_d y3) = False" "d_scratch (y_d y3) = d_scratch (y_d y2)"
      "d_outcap (y_d y3) = d_outcap (y_d y1)" "y_pools y3 = y_pools y2" "d_slice (y_d y3) = d_slice (y_d y2)"
      using st2 sc by (simp_all add: y3_def)
    have cap3: "length (out @ o') \<le> d_outcap (y_d y3)" using e0(2) n(3) y1(4) f3(5) by simp
    have pre: "prefix (out @ o') p" if "target = Some p" for p using inmsg_prefix [OF e0(4) that] .
    show ?thesis
    proof (cases "int (length (out @ o')) > maxSize")
      case True
      obtain y4 where y4: "finish E False y3 = Some y4" "idle (y_d y4)" "frame_ok y3 y4" "window_holds w [] y4" using finish_fail [of E y3] f3(2) by metis
      have "target = None \<or> (\<exists>p. target = Some p \<and> \<not> int (length p) \<le> maxSize)"
        using pre True prefix_length_le by (cases target) fastforce+
      then have "dec_result w h maxSize target (Inl (Deflate ErrDecompressedTooLarge)) y4" using y4(4) by (auto simp: dec_result_def)
      moreover have "dec_frame w y y4" using y4(2,3) fr sc f3 by (auto simp: dec_frame_def frame_ok_def)
      moreover have "dec_ok (y_d y4)" using y4(3) sc f3 cap3 out3 by (simp add: dec_ok_def frame_ok_def)
      ultimately show ?thesis unfolding dl out3 using True y4(1) by simp
    next
      case False
      show ?thesis
      proof (cases "d_done (y_d y3)")
        case True
        have t: "target = Some (out @ o')" "y_src y3 = fin" and ho: "hist_ok h (out @ o') y3" using e0(4) True by (simp_all add: t3 inmsg_def)
        obtain y4 where y4: "finish E True y3 = Some y4" "idle (y_d y4)" "frame_ok y3 y4" "y_src y4 = y_src y3" "window_holds w (h @ out @ o') y4"
          using finish_ok [OF ho, of E] f3(2) by metis
        have o4: "d_output (y_d y4) = out @ o'" using y4(3) out3 by (simp add: frame_ok_def)
        have "dec_frame w y y4" using y4(2,3) fr sc f3 by (auto simp: dec_frame_def frame_ok_def)
        moreover have "dec_ok (y_d y4)" using y4(3) sc f3 cap3 out3 by (simp add: dec_ok_def frame_ok_def)
        ultimately show ?thesis unfolding dl out3 using False True y4 o4 t by (simp add: dec_result_def)
      next
        case nd3: False
        have "nat (maxSize + 1 - int (length (out @ o'))) < nat (maxSize + 1 - int (length out))" using e0(1) len by simp
        from less.hyps [OF this, of y3] e0(4) t3 f3 nd3 out3 False sc sl cap3
        obtain res y' where ih: "dec_loop E nc maxSize y3 = Some (res, y')" "dec_result w h maxSize target res y'" "dec_frame w y3 y'" "dec_ok (y_d y')"
           "\<forall>p. res = Inr p \<longrightarrow> y_src y' = fin \<and> d_output (y_d y') = p" by (auto simp: dec_ok_def)
        have "dec_frame w y y'" using ih(3) fr f3(1) by (simp add: dec_frame_def)
        then show ?thesis unfolding dl out3 using False nd3 None ih by simp
      qed
    qed
  qed
qed

end
