(* ===== verification/Decompressor_Thm.thy ===== *)
theory Decompressor_Thm
  imports Decompressor_Msg
begin

text \<open>
  The theorems of decompression, and a concrete inflater that satisfies what they assume.
\<close>

lemma reserve_output_ok:
  assumes "pools_ok (y_pools y)" "d_output (y_d y) = []" "0 \<le> maxSize" "maxSize < 2 ^ 62"
  shows "\<exists>y'. reserve_output E maxSize payload y = Some y' \<and> regrown y y' \<and> pools_ok (y_pools y')"
proof -
  have i: "int64 (maxSize + 1) = maxSize + 1" using assms(3,4) by (simp add: int64_small)
  define hint where "hint = min (4 * int (length payload)) (maxSize + 1)"
  show ?thesis
  proof (cases "int (d_outcap (y_d y)) < hint")
    case False
    then have "reserve_output E maxSize payload y = Some y" by (simp add: reserve_output_def i Let_def flip: hint_def)
    moreover have "regrown y y" unfolding regrown_def
      by (intro exI [of _ "y_pools y"] exI [of _ "y_tick y"] exI [of _ "d_outcap (y_d y)"] exI [of _ "d_outBuf (y_d y)"]) simp
    ultimately show ?thesis using assms(1) by blast
  next
    case True
    obtain ps where ps: "buf_Put (d_outBuf (y_d y)) y = Some (y\<lparr>y_pools := ps\<rparr>)" "pools_ok ps" using buf_Put_ok [OF assms(1)] by blast
    obtain c ps' where g: "buf_Get E hint (y\<lparr>y_pools := ps\<rparr>) = Some (c, y\<lparr>y_pools := ps\<rparr>\<lparr>y_pools := ps', y_tick := Suc (y_tick (y\<lparr>y_pools := ps\<rparr>))\<rparr>)" "pools_ok ps'"
      using buf_Get_ok [of "y\<lparr>y_pools := ps\<rparr>" hint E] ps(2) True by auto
    have e: "(y_d y)\<lparr>d_outBuf := Some c, d_output := [], d_outcap := c\<rparr> = (y_d y)\<lparr>d_outcap := c, d_outBuf := Some c\<rparr>"
      using assms(2) by (cases "y_d y") simp
    have "reserve_output E maxSize payload y = Some (y\<lparr>y_pools := ps', y_tick := Suc (y_tick y), y_d := (y_d y)\<lparr>d_outcap := c, d_outBuf := Some c\<rparr>\<rparr>)"
      using True ps(1) g(1) e by (simp add: reserve_output_def i Let_def flip: hint_def)
    moreover have "regrown y (y\<lparr>y_pools := ps', y_tick := Suc (y_tick y), y_d := (y_d y)\<lparr>d_outcap := c, d_outBuf := Some c\<rparr>\<rparr>)"
      unfolding regrown_def by (rule exI [of _ ps'], rule exI [of _ "Suc (y_tick y)"], rule exI [of _ c], rule exI [of _ "Some c"], cases y) simp
    ultimately show ?thesis using g(2) by (intro exI [of _ "y\<lparr>y_pools := ps', y_tick := Suc (y_tick y), y_d := (y_d y)\<lparr>d_outcap := c, d_outBuf := Some c\<rparr>\<rparr>"]) simp
  qed
qed

text \<open>What a message decodes to for a decompressor with history window \<open>w\<close>.\<close>

definition message :: "stream \<Rightarrow> nat option \<Rightarrow> ('r, 's) dsys \<Rightarrow> bytes \<Rightarrow> bytes option" where
  "message st w y payload = whole st (hsize w y) (hdict w y) (payload @ inflateTail)"

lemma Decompress_ok:
  assumes fl: "inflater (dv_flate E) I gone st" and y: "\<not> d_active (y_d y)" "dec_ok (y_d y)" "pools_ok (y_pools y)"
    and lim: "0 \<le> maxSize" "(maxSize + 1) * (int (length payload) + 9) < 2 ^ 58"
  shows "\<exists>res y'. Decompress E nc payload maxSize w y = Some (res, y') \<and> dec_result w (hdict w y) maxSize (message st w y payload) res y'
     \<and> dec_frame w y y' \<and> dec_ok (y_d y') \<and> (\<forall>p. res = Inr p \<longrightarrow> y_src y' = y_src y \<and> d_output (y_d y') = p)"
proof -
  obtain y1 where y1: "begin_msg E False payload w y = Some (None, y1)" "pools_ok (y_pools y1)" "y_win y1 = y_win y" "y_src y1 = y_src y" "dec_ok (y_d y1)"
      "d_window (y_d y1) = w" "\<not> d_streaming (y_d y1)" "length (d_slice (y_d y1)) = length payload + 9"
      "inmsg (dv_flate E) I gone st nc (hdict w y) (y_src y) [] (message st w y payload) (emptied y1)" "\<not> d_done (y_d y1)"
    using begin_ok [OF fl y, where src = False and nc = nc and b = payload and payload = payload and w = w and fin = "y_src y"] unfolding message_def by auto
  have "maxSize + 1 \<le> (maxSize + 1) * (int (length payload) + 9)"
    using mult_left_mono [of 1 "int (length payload) + 9" "maxSize + 1"] lim(1) by simp
  then have "maxSize < 2 ^ 58" using lim(2) by linarith
  then have "maxSize < 2 ^ 62" by simp
  with y1(2) lim(1) obtain y2 where y2: "reserve_output E maxSize payload (emptied y1) = Some y2" "regrown (emptied y1) y2" "pools_ok (y_pools y2)"
    using reserve_output_ok [of "emptied y1" maxSize E payload] by (auto simp: emptied_def)
  note r = regrownD [OF y2(2)]
  have m2: "inmsg (dv_flate E) I gone st nc (hdict w y) (y_src y) [] (message st w y payload) y2" using y1(9) regrown_inmsg [OF y2(2)] by metis
  have f2: "\<not> d_streaming (y_d y2)" "d_output (y_d y2) = []" "dec_ok (y_d y2)" "int (length (d_slice (y_d y2))) \<le> int (length payload) + 9" "d_window (y_d y2) = w"
    "\<not> d_done (y_d y2)"
    using y1(5-10) r by (auto simp: emptied_def dec_ok_def inmsg_def)
  obtain res y' where l: "dec_loop E nc maxSize y2 = Some (res, y')" "dec_result w (hdict w y) maxSize (message st w y payload) res y'" "dec_frame w y2 y'"
     "dec_ok (y_d y')" "\<forall>p. res = Inr p \<longrightarrow> y_src y' = y_src y \<and> d_output (y_d y') = p"
    using dec_loop_ok [OF fl lim _ m2 f2(1,6,2) _ y2(3) f2(3,4,5)] lim(1) by auto
  have "Decompress E nc payload maxSize w y = Some (res, y')"
    using lim(1) y1(1) y2(1) l(1) by (simp add: Decompress_def flip: emptied_def)
  moreover have "dec_frame w y y'" using l(3) r(1) y1(3) by (simp add: dec_frame_def emptied_def)
  ultimately show ?thesis using l(2,4,5) by blast
qed

text \<open>Draining a streamed message with reads of any sizes.\<close>

partial_function (option) drain_msg ::
    "('r, 'e) denv \<Rightarrow> ('s, 'e) chunks \<Rightarrow> (nat \<Rightarrow> nat) \<Rightarrow> bytes \<Rightarrow> ('r, 's) dsys \<Rightarrow> ((bytes \<times> 'e derror) \<times> ('r, 's) dsys) option" where
  "drain_msg E nc sizes acc y =
    (case d_Read E nc (sizes (length acc)) y of
       None \<Rightarrow> None
     | Some ((n, err), y) \<Rightarrow> (case err of Some e \<Rightarrow> Some ((acc @ n, e), y) | None \<Rightarrow> drain_msg E nc sizes (acc @ n) y))"

lemma drain_msg_ok:
  assumes fl: "inflater (dv_flate E) I gone st" and sz: "\<And>k. 0 < sizes k"
  shows "inmsg (dv_flate E) I gone st nc h fin acc (Some p) y \<Longrightarrow> d_streaming (y_d y) \<Longrightarrow>
     \<exists>y'. drain_msg E nc sizes acc y = Some ((p, DEOF), y') \<and> idle (y_d y') \<and> frame_ok y y' \<and> y_src y' = fin \<and> window_holds (d_window (y_d y)) (h @ p) y'"
proof (induction "length p - length acc" arbitrary: acc y rule: less_induct)
  case less
  obtain o' e y1 where rd: "d_Read E nc (sizes (length acc)) y = Some ((o', e), y1)" "frame_ok y y1"
    "case e of
        None \<Rightarrow> o' \<noteq> [] \<and> length o' \<le> sizes (length acc) \<and> same_msg y y1 \<and> inmsg (dv_flate E) I gone st nc h fin (acc @ o') (Some p) (took o' y1)
      | Some e \<Rightarrow> o' = [] \<and> idle (y_d y1)
          \<and> (if e = DEOF then Some p = Some acc \<and> y_src y1 = fin \<and> window_holds (d_window (y_d y)) (h @ acc) y1
             else Some p = None \<and> window_holds (d_window (y_d y)) [] y1)"
    using d_Read_ok [OF fl sz [of "length acc"] less.prems(1)] by (elim exE conjE) (rule that)
  show ?case
  proof (cases e)
    case (Some e1)
    then have "e1 = DEOF" "p = acc" "o' = []" "idle (y_d y1)" "y_src y1 = fin" "window_holds (d_window (y_d y)) (h @ acc) y1" using rd(3) by (auto split: if_splits)
    then show ?thesis using rd(1,2) Some by (subst drain_msg.simps) simp
  next
    case None
    then have e0: "o' \<noteq> []" "same_msg y y1" "inmsg (dv_flate E) I gone st nc h fin (acc @ o') (Some p) (took o' y1)" using rd(3) by simp_all
    have s1: "d_streaming (y_d y1)" "d_window (y_d y1) = d_window (y_d y)" using e0(2) less.prems(2) by (simp_all add: same_msg_def)
    then have t: "took o' y1 = y1" by (simp add: took_def)
    have "prefix (acc @ o') p" using inmsg_prefix [OF e0(3)] by simp
    then have "length (acc @ o') \<le> length p" by (rule prefix_length_le)
    then have "length p - length (acc @ o') < length p - length acc" using e0(1) by (cases o') auto
    from less.hyps [OF this e0(3) [unfolded t] s1(1)] obtain y' where
      y': "drain_msg E nc sizes (acc @ o') y1 = Some ((p, DEOF), y')" "idle (y_d y')" "frame_ok y1 y'" "y_src y' = fin" "window_holds (d_window (y_d y1)) (h @ p) y'" by blast
    have "drain_msg E nc sizes acc y = Some ((p, DEOF), y')" using rd(1) None y'(1) by (subst drain_msg.simps) simp
    with y' frame_ok_trans [OF rd(2) y'(3) s1(2)] s1(2) show ?thesis by auto
  qed
qed

section \<open>A concrete inflater\<close>

text \<open>For any prefix-decided stream format: ask byte by byte until the stream is complete, then hand out its output.\<close>

record 'e toy =
  t_n :: nat
  t_dict :: bytes
  t_fed :: bytes
  t_out :: nat
  t_gone :: "'e derror option"

definition toy_Reading :: "stream \<Rightarrow> 'e toy \<Rightarrow> ask + bytes \<times> 'e derror option" where
  "toy_Reading st r =
    (case t_gone r of
       Some e \<Rightarrow> Inr ([], Some (if e = DEOF then Deflate (FlateError 0) else e))
     | None \<Rightarrow>
        (case st (t_dict r) (t_fed r) of
           None \<Rightarrow> Inl AskByte
         | Some (p, _) \<Rightarrow>
            (let q = drop (t_out r) p in if length q \<le> t_n r then Inr (q, Some DEOF) else Inr (take (t_n r) q, None))))"

definition toy_reader :: "stream \<Rightarrow> ('e toy, 'e) flate_reader" where
  "toy_reader st =
    \<lparr>NewReaderDict = (\<lambda>D. \<lparr>t_n = 0, t_dict = D, t_fed = [], t_out = 0, t_gone = None\<rparr>),
     ResetReader = (\<lambda>D r. (None, \<lparr>t_n = 0, t_dict = D, t_fed = [], t_out = 0, t_gone = None\<rparr>)),
     CallRead = (\<lambda>n r. r\<lparr>t_n := n, t_out := t_out r + t_n r\<rparr>),
     Reading = toy_Reading st,
     Give = (\<lambda>a r. case a of Inl e \<Rightarrow> r\<lparr>t_gone := Some e\<rparr> | Inr x \<Rightarrow> r\<lparr>t_fed := t_fed r @ x\<rparr>)\<rparr>"

definition toy_at :: "stream \<Rightarrow> 'e toy \<Rightarrow> nat \<Rightarrow> bytes \<Rightarrow> bytes \<Rightarrow> bytes \<Rightarrow> bool" where
  "toy_at st r n D fed out \<longleftrightarrow> t_dict r = D \<and> t_fed r = fed \<and> t_gone r = None \<and> (n \<noteq> 0 \<longrightarrow> t_n r = n) \<and>
     (let k = (if n = 0 then t_out r + t_n r else t_out r)
      in case st D fed of None \<Rightarrow> k = 0 \<and> out = [] | Some (p, rest) \<Rightarrow> rest = [] \<and> out = take k p)"

definition toy_gone :: "'e toy \<Rightarrow> nat \<Rightarrow> 'e derror \<Rightarrow> bool" where
  "toy_gone r n e \<longleftrightarrow> t_gone r = Some e"

text \<open>A format in which a stream is decided by its own, nonempty, bytes.\<close>

definition prefix_decided :: "stream \<Rightarrow> bool" where
  "prefix_decided st \<longleftrightarrow> (\<forall>D s p rest. st D s = Some (p, rest) \<longrightarrow>
     (\<exists>z. z \<noteq> [] \<and> s = z @ rest \<and> (\<forall>s'. st D (z @ s') = Some (p, s'))))"

lemma prefix_decided_byte:
  assumes "prefix_decided st" "st D fed = None" "st D (fed @ [b]) = Some (p, rest)"
  shows "rest = []"
proof (rule ccontr)
  assume r: "rest \<noteq> []"
  obtain z where z: "fed @ [b] = z @ rest" "\<And>s'. st D (z @ s') = Some (p, s')" using assms(1,3) unfolding prefix_decided_def by blast
  from r z(1) have "fed = z @ butlast rest" by (metis butlast_append butlast_snoc)
  with z(2) assms(2) show False by simp
qed

lemma prefix_decided_end:
  assumes "prefix_decided st" "st D fed = None" "st D (fed @ s) = Some (p, rest)" "length rest \<le> length s"
  shows "length rest < length s"
proof (rule ccontr)
  assume n: "\<not> ?thesis"
  obtain z where z: "fed @ s = z @ rest" "\<And>s'. st D (z @ s') = Some (p, s')" using assms(1,3) unfolding prefix_decided_def by blast
  from n assms(4) z(1) have "z = fed" by simp
  with z(2) [of "[]"] assms(2) show False by simp
qed

lemma prefix_decided_same:
  assumes "prefix_decided st" "st D fed = Some (q, [])" "st D (fed @ s) = Some (p, rest)"
  shows "q = p \<and> rest = s"
proof -
  obtain z where "fed = z @ []" "\<And>s'. st D (z @ s') = Some (q, s')" using assms(1,2) unfolding prefix_decided_def by blast
  with assms(3) show ?thesis by auto
qed

lemma toy_returned:
  assumes "prefix_decided st" "toy_at st r n D fed out" "0 < n" "toy_Reading st r = Inr (o', e)"
  obtains p where "st D fed = Some (p, [])" "out = take (t_out r) p" "t_n r = n" "t_dict r = D" "t_fed r = fed" "t_gone r = None"
    "if length (drop (t_out r) p) \<le> n then o' = drop (t_out r) p \<and> e = Some DEOF else o' = take n (drop (t_out r) p) \<and> e = None"
  using assms by (auto simp: toy_at_def toy_Reading_def Let_def split: option.splits if_splits)

lemma toy_inflater:
  assumes pd: "prefix_decided st"
  shows "inflater (toy_reader st :: ('e toy, 'e) flate_reader) (toy_at st) toy_gone st"
proof -
  have "st D [] = None" for D
    using pd unfolding prefix_decided_def by (cases "st D []") fastforce+
  then have 2: "toy_at st (\<lparr>t_n = 0, t_dict = D, t_fed = [], t_out = 0, t_gone = None\<rparr> :: 'e toy) 0 D [] []" for D
    by (simp add: toy_at_def)
  have 4: "toy_at st (r\<lparr>t_n := n, t_out := t_out r + t_n r\<rparr>) n D fed out" if "toy_at st r 0 D fed out" "0 < n" for r :: "'e toy" and n D fed out
    using that by (simp add: toy_at_def)
  have 5: "toy_at st (r\<lparr>t_fed := t_fed r @ x\<rparr>) n D (fed @ x) out"
    if a: "toy_at st r n D fed out" "0 < n" "toy_Reading st r = Inl AskByte" "length x = 1" for r :: "'e toy" and n D fed out x
  proof -
    obtain b where x: "x = [b]" using a(4) by (cases x) auto
    have "st D fed = None" using a by (auto simp: toy_at_def toy_Reading_def Let_def split: option.splits if_splits)
    with a x prefix_decided_byte [OF pd this] show ?thesis by (auto simp: toy_at_def split: option.splits)
  qed
  have 6: "a = AskByte" if "toy_Reading st r = Inl a" for r :: "'e toy" and a
    using that by (auto simp: toy_Reading_def Let_def split: option.splits if_splits)
  have 7: "length o' \<le> n \<and> (e = None \<longrightarrow> toy_at st r 0 D fed (out @ o')) \<and> (e = Some DEOF \<longrightarrow> st D fed = Some (out @ o', []))"
    if "toy_at st r n D fed out" "0 < n" "toy_Reading st r = Inr (o', e)" for r :: "'e toy" and n D fed out o' e
    by (rule toy_returned [OF pd that]) (auto simp: toy_at_def take_add split: if_splits)
  have 8: "case toy_Reading st r of Inl AskByte \<Rightarrow> length rest < length s | Inl (AskRead k) \<Rightarrow> length rest + k \<le> length s
      | Inr (o', e) \<Rightarrow> prefix (out @ o') p \<and> (e = None \<and> o' \<noteq> [] \<or> e = Some DEOF)"
    if a: "toy_at st r n D fed out" "0 < n" "st D (fed @ s) = Some (p, rest)" "length rest \<le> length s" for r :: "'e toy" and n D fed out s p rest
  proof (cases "toy_Reading st r")
    case (Inl q)
    have "st D fed = None" using a(1) Inl by (auto simp: toy_at_def toy_Reading_def Let_def split: option.splits if_splits)
    with prefix_decided_end [OF pd this a(3,4)] Inl 6 [OF Inl] show ?thesis by simp
  next
    case (Inr oe)
    obtain o' e where oe: "oe = (o', e)" by (cases oe)
    obtain q where q: "st D fed = Some (q, [])" "out = take (t_out r) q"
      "if length (drop (t_out r) q) \<le> n then o' = drop (t_out r) q \<and> e = Some DEOF else o' = take n (drop (t_out r) q) \<and> e = None"
      by (rule toy_returned [OF pd a(1,2) Inr [unfolded oe]])
    have "q = p" using prefix_decided_same [OF pd q(1) a(3)] by simp
    moreover have "prefix (out @ o') q" using q(2,3) a(2) by (auto simp: take_is_prefix simp flip: take_add split: if_splits)
    moreover have "e = None \<and> o' \<noteq> [] \<or> e = Some DEOF" using q(3) a(2) by (auto split: if_splits)
    ultimately show ?thesis using Inr oe by simp
  qed
  show ?thesis
    unfolding inflater_def toy_reader_def flate_reader.simps
    apply (intro conjI)
    subgoal using pd unfolding prefix_decided_def .
    subgoal using 2 by simp
    subgoal using 2 by simp
    subgoal using 4 by simp
    subgoal using 5 6 by fastforce
    subgoal using 6 by (auto simp: toy_gone_def)
    subgoal using 7 by blast
    subgoal using 8 by blast
    subgoal by (simp add: toy_gone_def)
    subgoal by (auto simp: toy_gone_def toy_Reading_def)
    done
qed

text \<open>A format of literals, empty blocks and an empty final block.\<close>

fun lit_stream :: "bytes \<Rightarrow> (bytes \<times> bytes) option" where
  "lit_stream (x # y # r) =
    (if x = 2 then (case lit_stream r of None \<Rightarrow> None | Some (p, s) \<Rightarrow> Some (y # p, s))
     else case r of
            u # v # r' \<Rightarrow>
              (if [x, y, u, v] = sync_tail then lit_stream r'
               else case r' of w # r'' \<Rightarrow> if [x, y, u, v, w] = [1, 0, 0, 0xff, 0xff] then Some ([], r'') else None | [] \<Rightarrow> None)
          | _ \<Rightarrow> None)"
| "lit_stream _ = None"

lemma lit_stream_split:
  "lit_stream s = Some (p, rest) \<Longrightarrow> \<exists>z. z \<noteq> [] \<and> s = z @ rest \<and> (\<forall>s'. lit_stream (z @ s') = Some (p, s'))"
proof (induction s arbitrary: p rule: lit_stream.induct)
  case (1 x y r)
  consider (lit) "x = 2" | (emp) r' where "x \<noteq> 2" "r = 0xff # 0xff # r'" "x = 0" "y = 0"
    | (final) r'' where "r = 0 # 0xff # 0xff # r''" "x = 1" "y = 0" "rest = r''" "p = []"
    using "1.prems" by (auto split: if_splits list.splits)
  then show ?case
  proof cases
    case lit
    then obtain q where q: "lit_stream r = Some (q, rest)" "p = y # q" using "1.prems" by (auto split: option.splits)
    obtain z where "z \<noteq> []" "r = z @ rest" "\<forall>s'. lit_stream (z @ s') = Some (q, s')" using "1.IH"(1) [OF lit q(1)] by blast
    with lit q(2) show ?thesis by (intro exI [of _ "x # y # z"]) simp
  next
    case emp
    then have "lit_stream r' = Some (p, rest)" using "1.prems" by simp
    with emp "1.IH"(2) [of "0xff" "0xff # r'" "0xff" r'] obtain z where "z \<noteq> []" "r' = z @ rest" "\<forall>s'. lit_stream (z @ s') = Some (p, s')" by auto
    with emp show ?thesis by (intro exI [of _ "x # y # 0xff # 0xff # z"]) simp
  next
    case final
    then show ?thesis by (intro exI [of _ "[1, 0, 0, 0xff, 0xff]"]) simp
  qed
qed simp_all

lemma lit_prefix_decided: "prefix_decided (\<lambda>D. lit_stream)"
  unfolding prefix_decided_def using lit_stream_split by blast

section \<open>The theorems\<close>

text \<open>C10: \<open>Decompress\<close> always returns. If the payload, with the restored tail, is a sequence of DEFLATE
  streams that decodes to at most \<open>maxSize\<close> bytes against the window's history, it returns exactly those bytes and the
  window then ends with them; if it decodes to more, it fails with \<open>ErrMessageTooLarge\<close>; otherwise it fails. Every failure
  clears the window, no other window is touched, and the decompressor is ready for the next message.
  This holds for every state of the buffer pools, so no growth step ever indexes out of range.\<close>

theorem decompress_correct:
  assumes "inflater (dv_flate E) I gone st" "\<not> d_active (y_d y)" "dec_ok (y_d y)" "pools_ok (y_pools y)"
    and "0 \<le> maxSize" "(maxSize + 1) * (int (length payload) + 9) < 2 ^ 58"
  shows "\<exists>res y'. Decompress E nc payload maxSize w y = Some (res, y')
     \<and> (case message st w y payload of
          None \<Rightarrow> (\<exists>e. res = Inl e) \<and> window_holds w [] y'
        | Some p \<Rightarrow>
           if int (length p) \<le> maxSize then res = Inr p \<and> window_holds w (hdict w y @ p) y'
           else res = Inl (Deflate ErrDecompressedTooLarge) \<and> window_holds w [] y')
     \<and> \<not> d_active (y_d y') \<and> dec_ok (y_d y') \<and> pools_ok (y_pools y') \<and> (\<forall>a. Some a \<noteq> w \<longrightarrow> y_win y' a = y_win y a)"
  using Decompress_ok [OF assms, of nc w] unfolding dec_result_def dec_frame_def idle_def by blast

definition demo_dsys :: "(unit toy, unit) dsys" where
  "demo_dsys = \<lparr>y_d = zero_decompressor, y_win = (\<lambda>a. zero_window), y_pools = (\<lambda>c. []), y_tick = 0, y_src = ()\<rparr>"

definition demo_denv :: "(unit toy, unit) denv" where
  "demo_denv = \<lparr>dv_flate = toy_reader (\<lambda>D. lit_stream), dv_gc = (\<lambda>c n. n), dv_pick = (\<lambda>k. None)\<rparr>"

lemma demo_ok:
  "inflater (dv_flate demo_denv) (toy_at (\<lambda>D. lit_stream)) toy_gone (\<lambda>D. lit_stream)" "\<not> d_active (y_d demo_dsys)" "dec_ok (y_d demo_dsys)"
  "pools_ok (y_pools demo_dsys)"
  using toy_inflater [OF lit_prefix_decided]
  by (simp_all add: demo_denv_def demo_dsys_def zero_decompressor_def dec_ok_def zero_window_def Size_def pools_ok_def)

lemma demo_message: "message (\<lambda>D. lit_stream) w y [2, 104, 2, 105] = Some [104, 105]"
  by (simp add: message_def whole_def inflateTail_def)

theorem decompress_correct_witness:
  "\<exists>y'. Decompress demo_denv (\<lambda>s. None) [2, 104, 2, 105] 100 (Some 3) demo_dsys = Some (Inr [104, 105], y')
     \<and> dict (Some (y_win y' 3)) = [104, 105]"
proof -
  have "(100 + 1) * (int (length [2 :: byte, 104, 2, 105]) + 9) < 2 ^ 58" by simp
  from decompress_correct [OF demo_ok _ this, of "\<lambda>s. None" "Some 3"]
  obtain y' where "Decompress demo_denv (\<lambda>s. None) [2, 104, 2, 105] 100 (Some 3) demo_dsys = Some (Inr [104, 105], y')"
    "window_holds (Some 3) (hdict (Some 3) demo_dsys @ [104, 105]) y'"
    by (auto simp: demo_message)
  moreover have "hdict (Some 3) demo_dsys = []" by (simp add: hdict_def demo_dsys_def zero_window_def dict_lastn)
  moreover have "Size (y_win y' 3) \<ge> 256" by (rule Size_pos)
  ultimately show ?thesis by (auto simp: window_holds_def)
qed

text \<open>C12: Streaming gives what decompressing the whole message gives. A message fed to \<open>Begin\<close> in chunks of any sizes (empty
  ones too) and drained by reads of any sizes yields exactly the bytes it decodes to, then the end of the message, and the
  window ends with the same history.\<close>

theorem streamed_message:
  assumes fl: "inflater (dv_flate E) I gone st" and y: "\<not> d_active (y_d y)" "dec_ok (y_d y)" "pools_ok (y_pools y)"
    and src: "chunked nc (y_src y) b fin" and p: "message st w y b = Some p" and sz: "\<And>k. 0 < sizes k"
  shows "\<exists>y1 y2. Begin E w y = Some (None, y1) \<and> drain_msg E nc sizes [] y1 = Some ((p, DEOF), y2)
     \<and> window_holds w (hdict w y @ p) y2 \<and> y_src y2 = fin \<and> \<not> d_active (y_d y2)"
proof -
  obtain y1 where y1: "begin_msg E True [] w y = Some (None, y1)" "d_window (y_d y1) = w" "d_streaming (y_d y1)"
    "inmsg (dv_flate E) I gone st nc (hdict w y) fin [] (Some p) y1"
    using begin_ok [OF fl y, where src = True and nc = nc and b = b and payload = "[]" and w = w and fin = fin] src p unfolding message_def by auto
  obtain y2 where "drain_msg E nc sizes [] y1 = Some ((p, DEOF), y2)" "idle (y_d y2)" "y_src y2 = fin" "window_holds w (hdict w y @ p) y2"
    using drain_msg_ok [where sizes = sizes, OF fl sz y1(4,3)] y1(2) by auto
  with y1(1) show ?thesis by (auto simp: Begin_def idle_def)
qed

text \<open>A source that hands out a list of chunks.\<close>

fun list_chunks :: "bytes list \<Rightarrow> (('e derror + bytes) \<times> bytes list) option" where
  "list_chunks [] = Some (Inl DEOF, [])"
| "list_chunks (c # cs) = Some (Inr c, cs)"

lemma list_chunks_chunked: "chunked list_chunks cs (concat cs) []"
  by (induction cs) (auto intro: chunked.intros)

theorem streamed_message_witness:
  "\<exists>y1 y2. Begin demo_denv None
       \<lparr>y_d = zero_decompressor, y_win = (\<lambda>a. zero_window), y_pools = (\<lambda>c. []), y_tick = 0, y_src = [[2], [], [104, 2], [105]]\<rparr> = Some (None, y1)
     \<and> drain_msg demo_denv list_chunks (\<lambda>k. 1) [] y1 = Some (([104, 105], DEOF), y2)"
proof -
  let ?y = "\<lparr>y_d = zero_decompressor, y_win = (\<lambda>a. zero_window), y_pools = (\<lambda>c. []), y_tick = 0, y_src = [[2], [], [104, 2], [105]]\<rparr> :: (unit toy, bytes list) dsys"
  have "\<not> d_active (y_d ?y)" "dec_ok (y_d ?y)" "pools_ok (y_pools ?y)"
    by (simp_all add: zero_decompressor_def dec_ok_def zero_window_def Size_def pools_ok_def)
  moreover have "chunked list_chunks (y_src ?y) [2, 104, 2, 105] []"
    using list_chunks_chunked [of "[[2], [], [104, 2], [105]]"] by simp
  ultimately show ?thesis
    using streamed_message [OF demo_ok(1), of ?y list_chunks "[2, 104, 2, 105]" "[]" None "[104, 105]" "\<lambda>k. 1", OF _ _ _ _ demo_message]
    by (auto simp: Let_def)
qed

end
