(* ===== verification/ConnRead.thy ===== *)
theory ConnRead
  imports Receiver_Props ConnWrite_Queue Decompressor_Thm
begin

text \<open>
  The read side of a connection: \<^verbatim>\<open>src/ws/conn_read.go\<close>, \<^verbatim>\<open>control.go\<close>, the receive half of
  \<^verbatim>\<open>conn_compress.go\<close>, and \<open>NewConn\<close> of \<^verbatim>\<open>conn.go\<close>. One goroutine reads at a time, so every
  operation is a function on the whole connection. The transport's reads to come are a script: a
  read that finds it empty blocks for ever, which, like a panic, is \<open>None\<close>.
\<close>

section \<open>State\<close>

text \<open>A read delivers bytes (none of them is a read of zero bytes without error) or fails.\<close>

datatype rdev = RdData bytes | RdErr go_error

text \<open>A control handler acts on the write side; \<open>None\<close> is a handler that panics.\<close>

record 'w ControlHandler =
  OnPing :: "bytes \<Rightarrow> 'w wconn \<Rightarrow> (go_error option \<times> 'w wconn) option"
  OnPong :: "bytes \<Rightarrow> 'w wconn \<Rightarrow> (go_error option \<times> 'w wconn) option"
  OnClose :: "u16 \<Rightarrow> bytes \<Rightarrow> 'w wconn \<Rightarrow> (go_error option \<times> 'w wconn) option"

text \<open>A slice is its contents and capacity; a size-class buffer its capacity.\<close>

type_synonym slice = "bytes \<times> nat"

record msgBuf =
  mb_b :: slice
  mb_large :: "nat option"
  mb_home :: nat

record 'r decompressorContext =
  dc_dec :: "'r decompressor option"
  dc_window :: "Window option"
  dc_streaming :: bool
  dc_large :: bool
  dc_srcErr :: "go_error option"

record ('w, 'r) conn =
  c_w :: "'w wconn"
  c_handler :: "'w ControlHandler option"
  c_limit :: int
  c_validateUTF8 :: bool
  c_rx :: receiver
  c_buf :: nat
  c_msg :: "msgBuf option"
  c_msgHint :: int
  c_inMessage :: bool
  c_readErr :: "go_error option"
  c_decomp :: "'r decompressorContext"
  c_in :: "rdev list"
  c_bufs :: pools
  c_msgPool :: "msgBuf list"
  c_decPool :: "'r decompressor list"
  c_tick :: nat

text \<open>What the environment decides of a read: as for writes, and the pooled value of each draw.\<close>

record ('w, 'r) renv =
  re_w :: "'w env"
  re_d :: "('r, go_error) denv"
  re_pick :: "nat \<Rightarrow> nat option"

definition with_w :: "('w wconn \<Rightarrow> 'w wconn) \<Rightarrow> ('w, 'r) conn \<Rightarrow> ('w, 'r) conn" where
  "with_w f c = c\<lparr>c_w := f (c_w c)\<rparr>"

section \<open>control.go\<close>

definition Default_OnPing :: "'w env \<Rightarrow> bytes \<Rightarrow> 'w wconn \<Rightarrow> (go_error option \<times> 'w wconn) option" where
  "Default_OnPing E payload w = Some (conn_Pong E payload w)"

definition Default_OnPong :: "bytes \<Rightarrow> 'w wconn \<Rightarrow> (go_error option \<times> 'w wconn) option" where
  "Default_OnPong payload w = Some (None, w)"

definition Default_OnClose :: "'w env \<Rightarrow> u16 \<Rightarrow> bytes \<Rightarrow> 'w wconn \<Rightarrow> (go_error option \<times> 'w wconn) option" where
  "Default_OnClose E code reason w =
    (let code = (if code = NoStatus then 0 else code) in Some (None, snd (conn_Close E code [] w)))"

definition DefaultControlHandler :: "'w env \<Rightarrow> 'w ControlHandler" where
  "DefaultControlHandler E = \<lparr>OnPing = Default_OnPing E, OnPong = Default_OnPong, OnClose = Default_OnClose E\<rparr>"

section \<open>Reading from the transport\<close>

definition transport_Read :: "nat \<Rightarrow> rdev list \<Rightarrow> ((bytes \<times> go_error option) \<times> rdev list) option" where
  "transport_Read len s =
    (case s of
       [] \<Rightarrow> None
     | RdErr e # s \<Rightarrow> Some (([], Some e), s)
     | RdData d # s \<Rightarrow> Some (if length d \<le> len then ((d, None), s) else ((take len d, None), RdData (drop len d) # s)))"

fun read_tries :: "nat \<Rightarrow> nat \<Rightarrow> ('w, 'r) conn \<Rightarrow> ((go_error + bytes) \<times> ('w, 'r) conn) option" where
  "read_tries 0 len c = Some (Inl ErrNoProgress, c)"
| "read_tries (Suc k) len c =
    (case transport_Read len (c_in c) of
       None \<Rightarrow> None
     | Some ((d, err), s) \<Rightarrow>
        (let c = c\<lparr>c_in := s\<rparr>
         in if length d \<noteq> 0 then Some (Inr d, c)
            else if err = Some EOF \<and> \<not> receiver_Idle (c_rx c) then Some (Inl UnexpectedEOF, c)
            else case err of Some e \<Rightarrow> Some (Inl e, c) | None \<Rightarrow> read_tries k len c))"

definition conn_read :: "nat \<Rightarrow> ('w, 'r) conn \<Rightarrow> ((go_error + bytes) \<times> ('w, 'r) conn) option" where
  "conn_read len c = read_tries 100 len c"

definition conn_fill :: "('w, 'r) conn \<Rightarrow> (go_error option \<times> ('w, 'r) conn) option" where
  "conn_fill c =
    do {
      (res, c) \<leftarrow> conn_read (c_buf c) (c\<lparr>c_rx := receiver_Preserve (c_rx c)\<rparr>);
      Some (case res of
              Inl e \<Rightarrow> (Some e, c)
            | Inr d \<Rightarrow> (None, c\<lparr>c_rx := receiver_Feed d (c_rx c)\<rparr>))
    }"

section \<open>Terminal states\<close>

definition set_terminal :: "go_error \<Rightarrow> ('w, 'r) conn \<Rightarrow> ('w, 'r) conn" where
  "set_terminal err c = c\<lparr>c_readErr := Some err, c_inMessage := False, c_decomp := (c_decomp c)\<lparr>dc_streaming := False\<rparr>\<rparr>"

definition conn_fail :: "('w, 'r) renv \<Rightarrow> go_error \<Rightarrow> ('w, 'r) conn \<Rightarrow> ('w, 'r) conn" where
  "conn_fail E err c =
    set_terminal err (case err of Error code _ \<Rightarrow> with_w (sendClose (re_w E) code) c | _ \<Rightarrow> c)"

definition handleControl :: "('w, 'r) renv \<Rightarrow> ('w, 'r) conn \<Rightarrow> (go_error option \<times> ('w, 'r) conn) option" where
  "handleControl E c =
    (let h = (case c_handler c of Some h \<Rightarrow> h | None \<Rightarrow> DefaultControlHandler (re_w E));
         payload = ControlPayload (c_rx c); op = ControlOpcode (c_rx c)
     in do {
       (err, w) \<leftarrow>
         (if op = Ping then OnPing h payload (c_w c)
          else if op = Pong then OnPong h payload (c_w c)
          else if op = Close then
            (let (code, reason) = parseClose payload
             in do {
               (err, w) \<leftarrow> OnClose h code reason (c_w c);
               Some (case err of None \<Rightarrow> Some (CloseError code reason) | Some e \<Rightarrow> Some e, w)
             })
          else Some (None, c_w c));
       (let c = c\<lparr>c_w := w\<rparr> in Some (err, case err of None \<Rightarrow> c | Some e \<Rightarrow> set_terminal e c))
     })"

section \<open>Frames\<close>

partial_function (option) nextFrame :: "('w, 'r) renv \<Rightarrow> ('w, 'r) conn \<Rightarrow> (go_error option \<times> ('w, 'r) conn) option" where
  "nextFrame E c =
    (case Next (c_rx c) of
       (Inl err, rx) \<Rightarrow> Some (Some err, conn_fail E err (c\<lparr>c_rx := rx\<rparr>))
     | (Inr kind, rx) \<Rightarrow>
        (case kind of
           DataFrame \<Rightarrow> Some (None, c\<lparr>c_rx := rx\<rparr>)
         | ControlFrame \<Rightarrow>
            (case handleControl E (c\<lparr>c_rx := rx\<rparr>) of
               None \<Rightarrow> None
             | Some (err, c) \<Rightarrow> (case err of Some e \<Rightarrow> Some (Some e, c) | None \<Rightarrow> nextFrame E c))
         | NeedInput \<Rightarrow>
            (case conn_fill (c\<lparr>c_rx := rx\<rparr>) of
               None \<Rightarrow> None
             | Some (err, c) \<Rightarrow> (case err of Some e \<Rightarrow> Some (Some e, c) | None \<Rightarrow> nextFrame E c))))"

section \<open>conn\_compress.go: the receive half\<close>

partial_function (option) nextChunk :: "('w, 'r) renv \<Rightarrow> ('w, 'r) conn \<Rightarrow> ((go_error + bytes) \<times> ('w, 'r) conn) option" where
  "nextChunk E c =
    (case receiver_Payload (c_rx c) of
       (Inl err, rx) \<Rightarrow> Some (Inl err, conn_fail E err (c\<lparr>c_rx := rx\<rparr>))
     | (Inr (chunk, dn), rx) \<Rightarrow>
        (if length chunk \<noteq> 0 then Some (Inr chunk, c\<lparr>c_rx := rx\<rparr>)
         else if \<not> dn then
           (case conn_fill (c\<lparr>c_rx := rx\<rparr>) of
              None \<Rightarrow> None
            | Some (err, c) \<Rightarrow> (case err of Some e \<Rightarrow> Some (Inl e, c) | None \<Rightarrow> nextChunk E c))
         else if \<not> MessageOpen rx then Some (Inl EOF, c\<lparr>c_rx := rx\<rparr>)
         else
           (case nextFrame E (c\<lparr>c_rx := rx\<rparr>) of
              None \<Rightarrow> None
            | Some (err, c) \<Rightarrow> (case err of Some e \<Rightarrow> Some (Inl e, c) | None \<Rightarrow> nextChunk E c))))"

text \<open>The errors of the inflater's world: \<open>io.EOF\<close> is the same value in both.\<close>

definition to_derror :: "go_error \<Rightarrow> go_error derror" where
  "to_derror e = (if e = EOF then DEOF else if e = ErrNoProgress then DNoProgress else Source e)"

fun same_error :: "go_error derror \<Rightarrow> go_error option \<Rightarrow> bool" where
  "same_error e None \<longleftrightarrow> False"
| "same_error e (Some s) \<longleftrightarrow> e = to_derror s"

fun from_derror :: "go_error derror \<Rightarrow> go_error" where
  "from_derror DEOF = EOF"
| "from_derror DNoProgress = ErrNoProgress"
| "from_derror (Source e) = e"
| "from_derror (Deflate e) = hand_on e"

definition chunkSource :: "('w, 'r) renv \<Rightarrow> (('w, 'r) conn, go_error) chunks" where
  "chunkSource E c =
    do {
      (res, c) \<leftarrow> nextChunk E c;
      Some (case res of
              Inr chunk \<Rightarrow> (Inr chunk, c)
            | Inl e \<Rightarrow> (Inl (to_derror e), if e = EOF then c else c\<lparr>c_decomp := (c_decomp c)\<lparr>dc_srcErr := Some e\<rparr>\<rparr>))
    }"

definition take_pick :: "nat option \<Rightarrow> 'a list \<Rightarrow> 'a option \<times> 'a list" where
  "take_pick pick xs =
    (case pick of
       Some i \<Rightarrow> if i < length xs then (Some (xs ! i), take i xs @ drop (Suc i) xs) else (None, xs)
     | None \<Rightarrow> (None, xs))"

definition acquireDecompressor :: "('w, 'r) renv \<Rightarrow> ('w, 'r) conn \<Rightarrow> ('w, 'r) conn" where
  "acquireDecompressor E c =
    (case dc_dec (c_decomp c) of
       Some d \<Rightarrow> c
     | None \<Rightarrow>
        (let (v, pool) = take_pick (re_pick E (c_tick c)) (c_decPool c);
             d = (case v of Some d \<Rightarrow> d | None \<Rightarrow> zero_decompressor)
         in c\<lparr>c_decPool := pool, c_tick := Suc (c_tick c), c_decomp := (c_decomp c)\<lparr>dc_dec := Some d\<rparr>\<rparr>))"

text \<open>A call of the attached decompressor. The connection's receive window has address zero.\<close>

definition rx_window :: "('w, 'r) conn \<Rightarrow> nat option" where
  "rx_window c = map_option (\<lambda>w. 0) (dc_window (c_decomp c))"

definition enter_dec :: "'r decompressor \<Rightarrow> ('w, 'r) conn \<Rightarrow> ('r, ('w, 'r) conn) dsys" where
  "enter_dec d c =
    \<lparr>y_d = d, y_win = (\<lambda>a. case dc_window (c_decomp c) of Some w \<Rightarrow> w | None \<Rightarrow> zero_window), y_pools = c_bufs c,
     y_tick = c_tick c, y_src = c\<rparr>"

definition leave_dec :: "('r, ('w, 'r) conn) dsys \<Rightarrow> ('w, 'r) conn" where
  "leave_dec y =
    (let c = y_src y
     in c\<lparr>c_bufs := y_pools y, c_tick := y_tick y,
          c_decomp := (c_decomp c)\<lparr>dc_dec := Some (y_d y), dc_window := map_option (\<lambda>w. y_win y 0) (dc_window (c_decomp c))\<rparr>\<rparr>)"

definition with_dec ::
    "(('r, ('w, 'r) conn) dsys \<Rightarrow> ('a \<times> ('r, ('w, 'r) conn) dsys) option) \<Rightarrow> ('w, 'r) conn \<Rightarrow> ('a \<times> ('w, 'r) conn) option" where
  "with_dec f c =
    do { d \<leftarrow> dc_dec (c_decomp c); (a, y) \<leftarrow> f (enter_dec d c); Some (a, leave_dec y) }"

definition releaseDecompressor :: "('w, 'r) renv \<Rightarrow> ('w, 'r) conn \<Rightarrow> ('w, 'r) conn option" where
  "releaseDecompressor E c =
    (case dc_dec (c_decomp c) of
       None \<Rightarrow> Some c
     | Some d \<Rightarrow> do {
         (u, c) \<leftarrow> with_dec (\<lambda>y. map_option (Pair ()) (if dc_large (c_decomp c) then ReleaseOutput (re_d E) y else d_Reset (re_d E) y)) c;
         d \<leftarrow> dc_dec (c_decomp c);
         Some (c\<lparr>c_decomp := (c_decomp c)\<lparr>dc_dec := None, dc_large := False\<rparr>, c_decPool := d # c_decPool c\<rparr>)
       })"

definition decompress ::
    "('w, 'r) renv \<Rightarrow> bytes \<Rightarrow> ('w, 'r) conn \<Rightarrow> ((go_error + bytes) \<times> ('w, 'r) conn) option" where
  "decompress E payload c =
    (let c = acquireDecompressor E c
     in do {
       (res, c) \<leftarrow> with_dec (Decompress (re_d E) (chunkSource E) payload (c_limit c) (rx_window c)) c;
       Some (case res of
               Inl e \<Rightarrow>
                 (let err = (if e = Deflate ErrDecompressedTooLarge then Error 1009 ErrMessageTooLarge else Error 1007 ErrInvalidData)
                  in (Inl err, conn_fail E err c))
             | Inr out \<Rightarrow> (Inr out, c\<lparr>c_decomp := (c_decomp c)\<lparr>dc_large := int (length out) > poolKeep\<rparr>\<rparr>))
     })"

definition inflate_begin :: "('w, 'r) renv \<Rightarrow> ('w, 'r) conn \<Rightarrow> (go_error option \<times> ('w, 'r) conn) option" where
  "inflate_begin E c =
    (if dc_streaming (c_decomp c) then Some (None, c)
     else do {
       (err, c) \<leftarrow> with_dec (Begin (re_d E) (rx_window c)) c;
       Some (case err of
               Some e \<Rightarrow> (Some (Error 1007 ErrInvalidData), conn_fail E (Error 1007 ErrInvalidData) c)
             | None \<Rightarrow> (None, c\<lparr>c_decomp := (c_decomp c)\<lparr>dc_streaming := True\<rparr>\<rparr>))
     })"

definition inflate_end ::
    "('w, 'r) renv \<Rightarrow> bytes \<Rightarrow> go_error derror option \<Rightarrow> ('w, 'r) conn \<Rightarrow> (bytes \<times> go_error option) \<times> ('w, 'r) conn" where
  "inflate_end E n err c =
    (case err of
       None \<Rightarrow> ((n, None), c)
     | Some e \<Rightarrow>
        if e = DEOF then (([], Some EOF), c\<lparr>c_inMessage := False, c_decomp := (c_decomp c)\<lparr>dc_streaming := False\<rparr>\<rparr>)
        else if c_readErr c \<noteq> None then (([], c_readErr c), c)
        else if same_error e (dc_srcErr (c_decomp c)) then (([], Some (from_derror e)), set_terminal (from_derror e) c)
        else (([], Some (Error 1007 ErrInvalidData)), conn_fail E (Error 1007 ErrInvalidData) c))"

definition inflate ::
    "('w, 'r) renv \<Rightarrow> nat \<Rightarrow> ('w, 'r) conn \<Rightarrow> ((bytes \<times> go_error option) \<times> ('w, 'r) conn) option" where
  "inflate E len c =
    do {
      (err, c) \<leftarrow> inflate_begin E (acquireDecompressor E c);
      (case err of
         Some e \<Rightarrow> Some (([], Some e), c)
       | None \<Rightarrow> do {
           ((n, err), c) \<leftarrow> with_dec (d_Read (re_d E) (chunkSource E) len) c;
           Some (inflate_end E n err c)
         })
    }"

section \<open>The message buffer\<close>

definition acquire_msg :: "('w, 'r) renv \<Rightarrow> slice \<Rightarrow> ('w, 'r) conn \<Rightarrow> slice \<times> msgBuf \<times> ('w, 'r) conn" where
  "acquire_msg E msg c =
    (case c_msg c of
       Some m \<Rightarrow> (msg, m, c)
     | None \<Rightarrow>
        (let (v, pool) = take_pick (re_pick E (c_tick c)) (c_msgPool c);
             m = (case v of Some m \<Rightarrow> m | None \<Rightarrow> \<lparr>mb_b = ([], 0), mb_large = None, mb_home = 0\<rparr>)
         in (([], snd (mb_b m)), m, c\<lparr>c_msgPool := pool, c_tick := Suc (c_tick c), c_msg := Some m\<rparr>)))"

definition app_slice :: "('w, 'r) renv \<Rightarrow> slice \<Rightarrow> bytes \<Rightarrow> slice" where
  "app_slice E s b =
    (fst s @ b, if length (fst s) + length b \<le> snd s then snd s else dv_gc (re_d E) (snd s) (length (fst s) + length b))"

definition growMsg :: "('w, 'r) renv \<Rightarrow> slice \<Rightarrow> int \<Rightarrow> ('w, 'r) conn \<Rightarrow> (slice \<times> ('w, 'r) conn) option" where
  "growMsg E msg n c =
    (let (msg, m, c) = acquire_msg E msg c; need = int (length (fst msg)) + n
     in if need \<le> int (snd msg) then Some (msg, c)
        else if need \<le> poolKeep
        then (let msg = (fst msg, nat (min (max need (2 * int (snd msg))) poolKeep))
              in Some (msg, c\<lparr>c_msg := Some (m\<lparr>mb_b := msg\<rparr>)\<rparr>))
        else do {
          (g, ps) \<leftarrow> pool_Get (dv_pick (re_d E) (c_tick c)) (max need (c_msgHint c)) (c_bufs c);
          (let new = app_slice E ([], g) (fst msg)
           in do {
             (m, ps) \<leftarrow> (case mb_large m of
                          Some l \<Rightarrow> do { ps \<leftarrow> pool_Put (Some l) ps; Some (m, ps) }
                        | None \<Rightarrow> Some (m\<lparr>mb_home := snd msg\<rparr>, ps));
             Some (new, c\<lparr>c_bufs := ps, c_tick := Suc (c_tick c), c_msg := Some (m\<lparr>mb_large := Some (snd new), mb_b := new\<rparr>)\<rparr>)
           })
        })"

text \<open>\<open>int(c.rx.Remaining())\<close> of a 64-bit count.\<close>

definition Remaining_int :: "receiver \<Rightarrow> int" where
  "Remaining_int r = sint (rx_remaining r)"

definition set_msg_b :: "slice \<Rightarrow> ('w, 'r) conn \<Rightarrow> ('w, 'r) conn" where
  "set_msg_b msg c = c\<lparr>c_msg := map_option (\<lambda>m. m\<lparr>mb_b := msg\<rparr>) (c_msg c)\<rparr>"

definition appendMsg :: "('w, 'r) renv \<Rightarrow> slice \<Rightarrow> bytes \<Rightarrow> ('w, 'r) conn \<Rightarrow> (slice \<times> ('w, 'r) conn) option" where
  "appendMsg E msg chunk c =
    do {
      (msg, c) \<leftarrow> growMsg E msg (int (length chunk) + Remaining_int (c_rx c)) c;
      (let msg = app_slice E msg chunk in Some (msg, set_msg_b msg c))
    }"

definition releaseMsg :: "('w, 'r) conn \<Rightarrow> ('w, 'r) conn option" where
  "releaseMsg c =
    (case c_msg c of
       None \<Rightarrow> Some c
     | Some m \<Rightarrow> do {
         (m, ps) \<leftarrow> (case mb_large m of
                      None \<Rightarrow> Some (m, c_bufs c)
                    | Some l \<Rightarrow> do {
                        ps \<leftarrow> pool_Put (Some l) (c_bufs c);
                        Some (m\<lparr>mb_large := None, mb_b := ([], mb_home m), mb_home := 0\<rparr>, ps) });
         Some (c\<lparr>c_bufs := ps, c_msg := None, c_msgPool := m\<lparr>mb_b := ([], snd (mb_b m))\<rparr> # c_msgPool c\<rparr>)
       })"

definition msg_b0 :: "('w, 'r) conn \<Rightarrow> slice" where
  "msg_b0 c = (case c_msg c of Some m \<Rightarrow> ([], snd (mb_b m)) | None \<Rightarrow> ([], 0))"

text \<open>\<open>staging\<close> is used for its length and storage only, which is \<open>fragmentSize\<close>.\<close>

definition staging :: "('w, 'r) renv \<Rightarrow> ('w, 'r) conn \<Rightarrow> (nat \<times> ('w, 'r) conn) option" where
  "staging E c =
    do {
      (msg, c) \<leftarrow> growMsg E (msg_b0 c) (w_fragmentSize (c_w c)) c;
      (if 0 \<le> w_fragmentSize (c_w c) \<and> w_fragmentSize (c_w c) \<le> int (snd msg) then Some (nat (w_fragmentSize (c_w c)), c) else None)
    }"

text \<open>Payload of the open frame that a read of the transport has just delivered.\<close>

definition take_read :: "('w, 'r) renv \<Rightarrow> bytes \<Rightarrow> ('w, 'r) conn \<Rightarrow> (go_error + bytes) \<times> ('w, 'r) conn" where
  "take_read E d c =
    (case receiver_PayloadN (int (length d)) (receiver_Feed d (c_rx c)) of
       (Inl err, rx) \<Rightarrow> (Inl err, conn_fail E err (c\<lparr>c_rx := rx\<rparr>))
     | (Inr (chunk, dn), rx) \<Rightarrow> (Inr chunk, c\<lparr>c_rx := rx\<rparr>))"

definition readInto :: "('w, 'r) renv \<Rightarrow> slice \<Rightarrow> int \<Rightarrow> ('w, 'r) conn \<Rightarrow> ((go_error + slice) \<times> ('w, 'r) conn) option" where
  "readInto E msg n c =
    do {
      (msg, c) \<leftarrow> growMsg E msg n c;
      (if n < 0 \<or> int (length (fst msg)) + n > int (snd msg) then None
       else do {
         (res, c) \<leftarrow> conn_read (nat n) c;
         Some (case res of
                 Inl e \<Rightarrow> (Inl e, c)
               | Inr d \<Rightarrow>
                  (case take_read E d c of
                     (Inl e, c) \<Rightarrow> (Inl e, c)
                   | (Inr chunk, c) \<Rightarrow> (Inr (fst msg @ chunk, snd msg), c)))
       })
    }"

definition readDirect :: "('w, 'r) renv \<Rightarrow> nat \<Rightarrow> ('w, 'r) conn \<Rightarrow> ((bytes \<times> go_error option) \<times> ('w, 'r) conn) option" where
  "readDirect E len c =
    do {
      (res, c) \<leftarrow> conn_read len c;
      Some (case res of
              Inl e \<Rightarrow> (([], Some e), c)
            | Inr d \<Rightarrow>
               (case take_read E d c of
                  (Inl e, c) \<Rightarrow> (([], Some e), c)
                | (Inr chunk, c) \<Rightarrow> ((chunk, None), c)))
    }"

section \<open>Discarding the rest of a message\<close>

partial_function (option) discard_inflate ::
    "('w, 'r) renv \<Rightarrow> nat \<Rightarrow> ('w, 'r) conn \<Rightarrow> (go_error option \<times> ('w, 'r) conn) option" where
  "discard_inflate E len c =
    (case inflate E len c of
       None \<Rightarrow> None
     | Some ((n, err), c) \<Rightarrow>
        (case err of
           None \<Rightarrow> discard_inflate E len c
         | Some e \<Rightarrow> if e = EOF then Some (None, c) else Some (Some e, c)))"

partial_function (option) discard_plain :: "('w, 'r) renv \<Rightarrow> ('w, 'r) conn \<Rightarrow> (go_error option \<times> ('w, 'r) conn) option" where
  "discard_plain E c =
    (if \<not> c_inMessage c then Some (None, c)
     else
       (case receiver_Payload (c_rx c) of
          (Inl err, rx) \<Rightarrow> Some (Some err, conn_fail E err (c\<lparr>c_rx := rx\<rparr>))
        | (Inr (chunk, dn), rx) \<Rightarrow>
           (if \<not> dn then
              (if length chunk = 0 then
                 (case conn_fill (c\<lparr>c_rx := rx\<rparr>) of
                    None \<Rightarrow> None
                  | Some (err, c) \<Rightarrow> (case err of Some e \<Rightarrow> Some (Some e, c) | None \<Rightarrow> discard_plain E c))
               else discard_plain E (c\<lparr>c_rx := rx\<rparr>))
            else if \<not> MessageOpen rx then Some (None, c\<lparr>c_rx := rx, c_inMessage := False\<rparr>)
            else
              (case nextFrame E (c\<lparr>c_rx := rx\<rparr>) of
                 None \<Rightarrow> None
               | Some (err, c) \<Rightarrow> (case err of Some e \<Rightarrow> Some (Some e, c) | None \<Rightarrow> discard_plain E c)))))"

definition discard :: "('w, 'r) renv \<Rightarrow> ('w, 'r) conn \<Rightarrow> (go_error option \<times> ('w, 'r) conn) option" where
  "discard E c =
    do {
      (err, c) \<leftarrow>
        (if c_inMessage c \<and> MessageCompressed (c_rx c) \<and> dc_window (c_decomp c) \<noteq> None
         then do { (len, c) \<leftarrow> staging E c; discard_inflate E len c }
         else Some (None, c));
      (case err of
         Some e \<Rightarrow> Some (Some e, c)
       | None \<Rightarrow> discard_plain E (c\<lparr>c_decomp := (c_decomp c)\<lparr>dc_streaming := False\<rparr>\<rparr>))
    }"

section \<open>Messages\<close>

definition NextMessage :: "('w, 'r) renv \<Rightarrow> ('w, 'r) conn \<Rightarrow> ((go_error + opcode) \<times> ('w, 'r) conn) option" where
  "NextMessage E c =
    (case c_readErr c of
       Some e \<Rightarrow> Some (Inl e, c)
     | None \<Rightarrow> do {
         (err, c) \<leftarrow> discard E c;
         (case err of
            Some e \<Rightarrow> Some (Inl e, c)
          | None \<Rightarrow> do {
              c \<leftarrow> releaseDecompressor E c;
              c \<leftarrow> releaseMsg c;
              (err, c) \<leftarrow> nextFrame E c;
              Some (case err of
                      Some e \<Rightarrow> (Inl e, c)
                    | None \<Rightarrow> (Inr (Opcode (rx_header (c_rx c))), c\<lparr>c_inMessage := True\<rparr>))
            })
       })"

partial_function (option) read_plain ::
    "('w, 'r) renv \<Rightarrow> nat \<Rightarrow> ('w, 'r) conn \<Rightarrow> ((bytes \<times> go_error option) \<times> ('w, 'r) conn) option" where
  "read_plain E len c =
    (case receiver_PayloadN (int len) (c_rx c) of
       (Inl err, rx) \<Rightarrow> Some (([], Some err), conn_fail E err (c\<lparr>c_rx := rx\<rparr>))
     | (Inr (chunk, dn), rx) \<Rightarrow>
        (if length chunk \<noteq> 0 then Some ((take len chunk, None), c\<lparr>c_rx := rx\<rparr>)
         else if \<not> dn then
           (let n = (if rx_remaining rx < of_nat len then nat (Remaining_int rx) else len)
            in if n \<ge> c_buf c then readDirect E n (c\<lparr>c_rx := rx\<rparr>)
               else
                 (case conn_fill (c\<lparr>c_rx := rx\<rparr>) of
                    None \<Rightarrow> None
                  | Some (err, c) \<Rightarrow> (case err of Some e \<Rightarrow> Some (([], Some e), c) | None \<Rightarrow> read_plain E len c)))
         else if \<not> MessageOpen rx then Some (([], Some EOF), c\<lparr>c_rx := rx, c_inMessage := False\<rparr>)
         else
           (case nextFrame E (c\<lparr>c_rx := rx\<rparr>) of
              None \<Rightarrow> None
            | Some (err, c) \<Rightarrow> (case err of Some e \<Rightarrow> Some (([], Some e), c) | None \<Rightarrow> read_plain E len c))))"

text \<open>A read returns the bytes it put into the caller's buffer of \<open>len\<close> bytes.\<close>

definition conn_Read ::
    "('w, 'r) renv \<Rightarrow> nat \<Rightarrow> ('w, 'r) conn \<Rightarrow> ((bytes \<times> go_error option) \<times> ('w, 'r) conn) option" where
  "conn_Read E len c =
    (case c_readErr c of
       Some e \<Rightarrow> Some (([], Some e), c)
     | None \<Rightarrow>
        if \<not> c_inMessage c then Some (([], Some EOF), c)
        else if len = 0 then Some (([], None), c)
        else if MessageCompressed (c_rx c) then inflate E len c
        else read_plain E len c)"

section \<open>Copying a message to a writer\<close>

text \<open>An \<open>io.Writer\<close> acts on a state of its own and returns the count and error.\<close>

type_synonym 'o writer = "bytes \<Rightarrow> 'o \<Rightarrow> (nat \<times> go_error option) \<times> 'o"

partial_function (option) copy_inflate ::
    "('w, 'r) renv \<Rightarrow> 'o writer \<Rightarrow> nat \<Rightarrow> int \<Rightarrow> ('w, 'r) conn \<Rightarrow> 'o \<Rightarrow> ((int \<times> go_error option) \<times> ('w, 'r) conn \<times> 'o) option" where
  "copy_inflate E W len tot c v =
    (case inflate E len c of
       None \<Rightarrow> None
     | Some ((n, err), c) \<Rightarrow>
        (if err = Some EOF then Some ((tot, None), c, v)
         else if err \<noteq> None then Some ((tot, err), c, v)
         else
           (case W n v of
              ((m, werr), v) \<Rightarrow>
                (if werr \<noteq> None then Some ((tot + int m, werr), c, v)
                 else if m \<noteq> length n then Some ((tot + int m, Some ErrShortWrite), c, v)
                 else copy_inflate E W len (tot + int m) c v))))"

partial_function (option) copy_plain ::
    "('w, 'r) renv \<Rightarrow> 'o writer \<Rightarrow> int \<Rightarrow> ('w, 'r) conn \<Rightarrow> 'o \<Rightarrow> ((int \<times> go_error option) \<times> ('w, 'r) conn \<times> 'o) option" where
  "copy_plain E W tot c v =
    (case receiver_Payload (c_rx c) of
       (Inl err, rx) \<Rightarrow> Some ((tot, Some err), conn_fail E err (c\<lparr>c_rx := rx\<rparr>), v)
     | (Inr (chunk, dn), rx) \<Rightarrow>
        (if length chunk = 0 \<and> \<not> dn \<and> rx_remaining rx < of_nat (c_buf c)
         then (case conn_fill (c\<lparr>c_rx := rx\<rparr>) of
                 None \<Rightarrow> None
               | Some (err, c) \<Rightarrow> (case err of Some e \<Rightarrow> Some ((tot, Some e), c, v) | None \<Rightarrow> copy_plain E W tot c v))
         else
           (case (if length chunk = 0 \<and> \<not> dn
                  then (case readInto E (msg_b0 c) (sint (min (rx_remaining rx) (of_int (w_fragmentSize (c_w c))))) (c\<lparr>c_rx := rx\<rparr>) of
                          None \<Rightarrow> None
                        | Some (res, c) \<Rightarrow> Some (map_sum id fst res, rx_remaining (c_rx c) = 0, c))
                  else Some (Inr chunk, dn, c\<lparr>c_rx := rx\<rparr>)) of
              None \<Rightarrow> None
            | Some (res, dn, c) \<Rightarrow>
               (case res of
                  Inl e \<Rightarrow> Some ((tot, Some e), c, v)
                | Inr chunk \<Rightarrow>
                   (case (if length chunk \<noteq> 0 then W chunk v else ((0, None), v)) of
                      ((n, werr), v) \<Rightarrow>
                        (if werr \<noteq> None then Some ((tot + int n, werr), c, v)
                         else if n \<noteq> length chunk then Some ((tot + int n, Some ErrShortWrite), c, v)
                         else if \<not> dn then copy_plain E W (tot + int n) c v
                         else if \<not> MessageOpen (c_rx c) then Some ((tot + int n, None), c\<lparr>c_inMessage := False\<rparr>, v)
                         else
                           (case nextFrame E c of
                              None \<Rightarrow> None
                            | Some (err, c) \<Rightarrow>
                               (case err of Some e \<Rightarrow> Some ((tot + int n, Some e), c, v) | None \<Rightarrow> copy_plain E W (tot + int n) c v)))))))) "

definition WriteTo ::
    "('w, 'r) renv \<Rightarrow> 'o writer \<Rightarrow> ('w, 'r) conn \<Rightarrow> 'o \<Rightarrow> ((int \<times> go_error option) \<times> ('w, 'r) conn \<times> 'o) option" where
  "WriteTo E W c v =
    (case c_readErr c of
       Some e \<Rightarrow> Some ((0, Some e), c, v)
     | None \<Rightarrow>
        if \<not> c_inMessage c then Some ((0, None), c, v)
        else if MessageCompressed (c_rx c) then do { (len, c) \<leftarrow> staging E c; copy_inflate E W len 0 c v }
        else copy_plain E W 0 c v)"

section \<open>Whole messages\<close>

text \<open>The frame of a message: it is the whole message, borrowed, or gathered in the message buffer.\<close>

datatype gathered = Borrowed bytes | Gathered slice

partial_function (option) assemble_frame ::
    "('w, 'r) renv \<Rightarrow> slice \<Rightarrow> ('w, 'r) conn \<Rightarrow> ((go_error + gathered) \<times> ('w, 'r) conn) option" where
  "assemble_frame E msg c =
    (case receiver_Payload (c_rx c) of
       (Inl err, rx) \<Rightarrow> Some (Inl err, conn_fail E err (c\<lparr>c_rx := rx\<rparr>))
     | (Inr (chunk, dn), rx) \<Rightarrow>
        (if dn \<and> length (fst msg) = 0 \<and> \<not> MessageOpen rx then Some (Inr (Borrowed chunk), c\<lparr>c_rx := rx, c_msgHint := 0\<rparr>)
         else if length chunk \<noteq> 0 \<or> dn then
           (case appendMsg E msg chunk (c\<lparr>c_rx := rx\<rparr>) of
              None \<Rightarrow> None
            | Some (msg, c) \<Rightarrow> if dn then Some (Inr (Gathered msg), c) else assemble_frame E msg c)
         else if rx_remaining rx \<ge> of_nat (c_buf c) then
           (case readInto E msg (Remaining_int rx) (c\<lparr>c_rx := rx\<rparr>) of
              None \<Rightarrow> None
            | Some (res, c) \<Rightarrow> (case res of Inl e \<Rightarrow> Some (Inl e, c) | Inr msg \<Rightarrow> assemble_frame E msg c))
         else
           (case conn_fill (c\<lparr>c_rx := rx\<rparr>) of
              None \<Rightarrow> None
            | Some (err, c) \<Rightarrow> (case err of Some e \<Rightarrow> Some (Inl e, c) | None \<Rightarrow> assemble_frame E msg c))))"

partial_function (option) assemble_loop ::
    "('w, 'r) renv \<Rightarrow> slice \<Rightarrow> ('w, 'r) conn \<Rightarrow> ((go_error + bytes) \<times> ('w, 'r) conn) option" where
  "assemble_loop E msg c =
    (if PayloadLen (rx_header (c_rx c)) > of_int (c_limit c - int (length (fst msg)))
     then Some (Inl (Error 1009 ErrMessageTooLarge), conn_fail E (Error 1009 ErrMessageTooLarge) c)
     else
       (case assemble_frame E msg c of
          None \<Rightarrow> None
        | Some (res, c) \<Rightarrow>
           (case res of
              Inl e \<Rightarrow> Some (Inl e, c)
            | Inr (Borrowed chunk) \<Rightarrow> Some (Inr chunk, c)
            | Inr (Gathered msg) \<Rightarrow>
                (if \<not> MessageOpen (c_rx c) then Some (Inr (fst msg), c\<lparr>c_msgHint := int (length (fst msg))\<rparr>)
                 else
                   (case nextFrame E c of
                      None \<Rightarrow> None
                    | Some (err, c) \<Rightarrow> (case err of Some e \<Rightarrow> Some (Inl e, c) | None \<Rightarrow> assemble_loop E msg c))))))"

definition assemble :: "('w, 'r) renv \<Rightarrow> ('w, 'r) conn \<Rightarrow> ((go_error + bytes) \<times> ('w, 'r) conn) option" where
  "assemble E c = assemble_loop E ([], 0) c"

definition finishMessage ::
    "('w, 'r) renv \<Rightarrow> opcode \<Rightarrow> bytes \<Rightarrow> ('w, 'r) conn \<Rightarrow> ((go_error + opcode \<times> bytes) \<times> ('w, 'r) conn) option" where
  "finishMessage E op payload c =
    (let c = c\<lparr>c_inMessage := False\<rparr>
     in do {
       (res, c) \<leftarrow> (if MessageCompressed (c_rx c) then decompress E payload c else Some (Inr payload, c));
       Some (case res of
               Inl e \<Rightarrow> (Inl e, c)
             | Inr payload \<Rightarrow>
                if op = Text \<and> c_validateUTF8 c \<and> \<not> Valid payload
                then (Inl (Error 1007 ErrInvalidUTF8), conn_fail E (Error 1007 ErrInvalidUTF8) c)
                else (Inr (op, payload), c))
     })"

definition ReadMessage :: "('w, 'r) renv \<Rightarrow> ('w, 'r) conn \<Rightarrow> ((go_error + opcode \<times> bytes) \<times> ('w, 'r) conn) option" where
  "ReadMessage E c =
    do {
      (res, c) \<leftarrow> NextMessage E c;
      (case res of
         Inl e \<Rightarrow> Some (Inl e, c)
       | Inr op \<Rightarrow> do {
           (res, c) \<leftarrow> assemble E c;
           (case res of Inl e \<Rightarrow> Some (Inl e, c) | Inr payload \<Rightarrow> finishMessage E op payload c)
         })
    }"

section \<open>conn.go: a new connection\<close>

definition DefaultReadBufferSize :: int where "DefaultReadBufferSize = 4 * 1024"
definition DefaultMaxMessageSize :: int where "DefaultMaxMessageSize = 8 * 1024 * 1024"

record 'w Config =
  cfg_Role :: nat
  ReadBufferSize :: int
  MaxMessageSize :: int
  FragmentSize :: int
  ValidateUTF8 :: bool
  cfg_Compression :: "Compression option"
  CompressionShared :: bool
  cfg_ControlHandler :: "'w ControlHandler option"

text \<open>A role is a byte of which two values are meant.\<close>

definition role_of :: "nat \<Rightarrow> Role option" where
  "role_of n = (if n = 0 then Some Server else if n = 1 then Some Client else None)"

definition bad_compression :: "Compression option \<Rightarrow> bool" where
  "bad_compression cmpr =
    (case cmpr of
       None \<Rightarrow> False
     | Some k \<Rightarrow> cp_Level k < -2 \<or> cp_Level k > 9 \<or> cp_MinSize k < 0 \<or> \<not> validBits (SendWindowBits k) \<or> \<not> validBits (ReceiveWindowBits k))"

text \<open>
  The transport is its write side, its reads to come, and whether it is a kernel socket, if there is one;
  the pools are those of the process.
\<close>

definition NewConn ::
    "nat \<Rightarrow> (net \<times> rdev list \<times> bool) option \<Rightarrow> 'w Config \<Rightarrow> 'w comp_pools \<Rightarrow> pools \<Rightarrow> msgBuf list \<Rightarrow> 'r decompressor list
       \<Rightarrow> go_error + ('w, 'r) conn" where
  "NewConn a tr cfg ps bufs mpool dpool =
    (case (tr, role_of (cfg_Role cfg)) of
       (Some (net, reads, vectored), Some role) \<Rightarrow>
         (if ReadBufferSize cfg < 0 \<or> MaxMessageSize cfg < 0 \<or> FragmentSize cfg < 0 then Inl ErrInvalidConfig
          else if bad_compression (cfg_Compression cfg) then Inl ErrInvalidConfig
          else Inr
            \<lparr>c_w = new_wconn a role vectored (FragmentSize cfg) (CompressionShared cfg) (cfg_Compression cfg) net ps,
             c_handler = cfg_ControlHandler cfg, c_limit = cmp_Or (MaxMessageSize cfg) DefaultMaxMessageSize,
             c_validateUTF8 = ValidateUTF8 cfg,
             c_rx = receiver_Init role (cfg_Compression cfg \<noteq> None) (zero_receiver Server False zero_decoder),
             c_buf = nat (cmp_Or (ReadBufferSize cfg) DefaultReadBufferSize),
             c_msg = None, c_msgHint = 0, c_inMessage = False, c_readErr = None,
             c_decomp = \<lparr>dc_dec = None,
               dc_window = (case cfg_Compression cfg of
                              None \<Rightarrow> None
                            | Some k \<Rightarrow> map_option snd (new_window a (ReceiveContextTakeover k) (ReceiveWindowBits k))),
               dc_streaming = False, dc_large = False, dc_srcErr = None\<rparr>,
             c_in = reads, c_bufs = bufs, c_msgPool = mpool, c_decPool = dpool, c_tick = 0\<rparr>)
     | _ \<Rightarrow> Inl ErrInvalidConfig)"

end
