(* ===== verification/ConnRead_Rx.thy ===== *)
theory ConnRead_Rx
  imports ConnRead
begin

text \<open>
  What the read side makes of the transport: the receiver, its buffered input and the bytes still
  to be read stand for a run of the protocol automaton, and every step of the reading code consumes a
  prefix of that run's events, however the reads cut the bytes.
\<close>

section \<open>The run ahead\<close>

definition fut :: "receiver \<Rightarrow> bytes \<Rightarrow> astate \<times> event list" where
  "fut r b = byte_run (rx_role r) (compression r) (base r) (pending (rx_dec r) @ b)"

lemma fut_meaning: "fut r b = (let (st, e) = meaning r; (st', e') = byte_run (rx_role r) (compression r) st b in (st', e @ e'))"
  by (simp add: fut_def meaning_def byte_run_append)

lemma fut_sim: "sim r r1 es \<Longrightarrow> fut r b = (fst (fut r1 b), es @ snd (fut r1 b))"
  by (auto simp: fut_meaning sim_def split_def Let_def)

lemma fut_Feed:
  assumes "stopped r"
  shows "fut (receiver_Feed d r) b = fut r (d @ b)"
proof -
  have rp: "rx_role (receiver_Feed d r) = rx_role r" "compression (receiver_Feed d r) = compression r"
    by (simp_all add: receiver_Feed_def)
  have e: "snd (meaning r) = []" using assms by (simp add: stopped_def)
  show ?thesis by (simp add: fut_meaning meaning_Feed [OF assms] rp byte_run_append e split_def Let_def)
qed

lemma fut_Preserve [simp]: "fut (receiver_Preserve r) b = fut r b"
  by (simp add: fut_meaning) (simp add: receiver_Preserve_def)

lemma stopped_empty: "pending (rx_dec r) = [] \<Longrightarrow> stopped r"
  by (simp add: stopped_def meaning_def)

lemma fut_stuck: "stopped r \<Longrightarrow> snd (fut r []) = []"
  by (simp add: fut_meaning stopped_def split_def Let_def)

text \<open>The frame's payload is as long as its header says, when the bytes to come end at a frame boundary.\<close>

definition in_data :: "astate \<Rightarrow> bool" where
  "in_data st \<longleftrightarrow> (case fst st of Data n final key p \<Rightarrow> True | _ \<Rightarrow> False)"

fun leads_byte :: "event list \<Rightarrow> bool" where
  "leads_byte (EvByte b # es) = True"
| "leads_byte _ = False"

lemma leads_byte_map [simp]: "leads_byte (map EvByte p @ es) \<longleftrightarrow> p \<noteq> [] \<or> leads_byte es"
  by (cases p) simp_all

lemma ev_prefix:
  "map EvByte q @ es = map EvByte xp @ zs \<Longrightarrow> \<not> leads_byte es \<Longrightarrow> \<not> leads_byte zs \<Longrightarrow> q = xp"
proof (induction q arbitrary: xp)
  case Nil
  then show ?case by (cases xp) simp_all
next
  case (Cons x q)
  show ?case
  proof (cases xp)
    case Nil
    with Cons.prems(1) have "zs = EvByte x # map EvByte q @ es" by simp
    with Cons.prems(3) show ?thesis by simp
  next
    case (Cons y ys)
    with Cons.prems Cons.IH [of ys] show ?thesis by simp
  qed
qed

lemma head_no_byte: "\<not> leads_byte (snd (byte_run role pmd (Head hs, msg) bs))"
proof (induction bs arbitrary: hs)
  case (Cons b bs)
  show ?case
  proof (cases "head_complete (hs @ [b])")
    case False
    with Cons show ?thesis by (simp add: split_def Let_def)
  next
    case True
    have cd: "snd (ctl_done msg op p) \<noteq> [] \<and> \<not> leads_byte (snd (ctl_done msg op p) @ es)" for op p es
      by (auto simp: ctl_done_def split: option.split)
    let ?h = "hdr (hs @ [b])"
    have ctl: "\<not> leads_byte (snd (byte_run role pmd (Ctl op n key acc, msg) bs))" for op n key acc
    proof (induction bs arbitrary: n acc)
      case (Cons c cs)
      then show ?case using cd by (auto simp: split_def Let_def)
    qed simp
    show ?thesis
      using True cd ctl by (auto simp: head_done_def Let_def split_def)
  qed
qed simp

lemma data_length:
  assumes "base r = (Data n final key p, msg)" "0 < n" "next_pos key p = p" "fut r b = (fs, map EvByte q @ es)" "\<not> leads_byte es" "es = [] \<longrightarrow> \<not> in_data fs"
  shows "length q = n"
proof -
  let ?bs = "pending (rx_dec r) @ b"
  show ?thesis
  proof (cases "length ?bs < n")
    case True
    then have f: "fut r b = ((Data (n - length ?bs) final key (next_pos key (p + length ?bs)), msg), map EvByte (xor_key key p ?bs) @ [])"
      using data_run [of ?bs n key p "rx_role r" "compression r" final msg] assms(1-3) unfolding fut_def by simp
    then have "map EvByte q @ es = map EvByte (xor_key key p ?bs) @ []" using assms(4) by simp
    from ev_prefix [OF this assms(5)] this have "es = []" by simp
    with f show ?thesis using assms(4,6) by (simp add: in_data_def)
  next
    case False
    define xs ys where "xs = take n ?bs" and "ys = drop n ?bs"
    have l: "length xs = n" using False by (simp add: xs_def)
    have "byte_run (rx_role r) (compression r) (Data n final key p, msg) xs = ((Head [], if final then 0 else msg), map EvByte (xor_key key p xs))"
      using data_run [of xs n key p] assms(2,3) l by simp
    moreover have "?bs = xs @ ys" by (simp only: xs_def ys_def append_take_drop_id)
    ultimately have f: "snd (fut r b) = map EvByte (xor_key key p xs) @ snd (byte_run (rx_role r) (compression r) (Head [], if final then 0 else msg) ys)"
      unfolding fut_def assms(1) by (simp only: byte_run_append) (simp add: split_def Let_def)
    define zs where "zs = snd (byte_run (rx_role r) (compression r) (Head [], if final then 0 else msg) ys)"
    have nz: "\<not> leads_byte zs" unfolding zs_def by (rule head_no_byte)
    have eq: "map EvByte q @ es = map EvByte (xor_key key p xs) @ zs" using f assms(4) by (simp add: zs_def)
    from ev_prefix [OF eq assms(5) nz] have "length q = length (xor_key key p xs)" by simp
    with l show ?thesis by simp
  qed
qed

lemma frame_length:
  assumes "rx_inv r" "failed r = None" "rx_remaining r \<noteq> 0" "fut r b = (fs, map EvByte q @ es)" "\<not> leads_byte es" "es = [] \<longrightarrow> \<not> in_data fs"
  shows "length q = unat (rx_remaining r)"
proof -
  have st: "\<not> controlOpen r" "\<not> closeReceived r" using assms(1,3) by (auto simp: rx_inv_def split: if_splits)
  have "next_pos k (next_pos k x) = next_pos k x" for k x by (simp add: next_pos_def split: option.split)
  moreover have "0 < unat (rx_remaining r)" using assms(3) by (simp add: unat_gt_0)
  ultimately show ?thesis
    using st assms(2,3) by (intro data_length [OF _ _ _ assms(4-6)]) (simp_all add: base_def)
qed

text \<open>Between frames no payload byte can come.\<close>

lemma no_byte_between:
  assumes "rx_inv r" "failed r = None" "rx_remaining r = 0" "fut r b = (fs, map EvByte q @ es)"
  shows "q = []"
proof -
  have "\<not> leads_byte (snd (fut r b))"
  proof (cases "controlOpen r \<and> \<not> closeReceived r")
    case False
    then show ?thesis using assms(2,3) head_no_byte by (auto simp: fut_def base_def)
  next
    case True
    have cd: "snd (ctl_done msg op p) \<noteq> [] \<and> \<not> leads_byte (snd (ctl_done msg op p) @ es)" for msg op p es
      by (auto simp: ctl_done_def split: option.split)
    have "\<not> leads_byte (snd (byte_run role pmd (Ctl op n key acc, msg) bs))" for role pmd op n key acc msg bs
    proof (induction bs arbitrary: n acc)
      case (Cons c cs)
      then show ?case using cd by (auto simp: split_def Let_def)
    qed simp
    with True assms(2) show ?thesis by (simp add: fut_def base_def)
  qed
  then show ?thesis using assms(4) by simp
qed

section \<open>Header fields\<close>

definition frame_fields :: "receiver \<Rightarrow> receiver \<Rightarrow> bool" where
  "frame_fields r r1 \<longleftrightarrow> rx_remaining r1 = PayloadLen (rx_header r1)
     \<and> rx_compressed r1 = (if Opcode (rx_header r1) = Continuation then rx_compressed r else RSV1 (rx_header r1))
     \<and> closeReceived r1 = closeReceived r \<and> controlOpen r1 = controlOpen r
     \<and> messageOpcode r1 = (if rx_remaining r1 = 0 \<and> Final (rx_header r1) then 0
          else if Opcode (rx_header r1) = Continuation then messageOpcode r else Opcode (rx_header r1))"

lemma finishControl_keeps:
  assumes "finishControl r = (Inr k, r1)"
  shows "k = ControlFrame \<and> rx_compressed r1 = rx_compressed r \<and> messageOpcode r1 = messageOpcode r \<and> rx_remaining r1 = rx_remaining r"
  using assms by (auto simp: finishControl_def rx_fail_def split: if_splits option.splits)

lemma next_control_keeps:
  assumes "next_control r = (Inr k, r1)"
  shows "k \<noteq> DataFrame \<and> rx_compressed r1 = rx_compressed r \<and> messageOpcode r1 = messageOpcode r \<and> rx_remaining r1 = rx_remaining r"
  using assms by (auto simp: next_control_def Let_def split: prod.splits if_splits dest!: finishControl_keeps)

lemma Next_data_fields:
  assumes "Next r = (Inr DataFrame, r1)"
  shows "frame_fields r r1"
proof -
  have nc: "Next r = next_control r" if "failed r = None" "rx_remaining r = 0" "\<not> closeReceived r" "controlOpen r"
    using that by (simp add: Next_def)
  have f: "failed r = None" using assms by (cases "failed r") (auto simp: Next_def)
  have z: "rx_remaining r = 0" "\<not> closeReceived r" using assms f by (auto simp: Next_def split: if_splits)
  have "\<not> controlOpen r" using nc [OF f z] assms next_control_keeps [of r DataFrame r1] by auto
  then have nh: "next_header r = (Inr DataFrame, r1)" using assms f z by (simp add: Next_def)
  obtain res h d where n: "NextHeaderInto (rx_header r) (rx_dec r) = (res, h, d)" by (cases "NextHeaderInto (rx_header r) (rx_dec r)")
  define r0 where "r0 = r\<lparr>rx_header := h, rx_dec := d\<rparr>"
  have ok: "res = Inr True" "legal (rx_role r0) (compression r0) (messageOpcode r0) h"
    using nh unfolding next_header_def n prod.case Let_def r0_def [symmetric]
    by (auto simp: rx_fail_def accept_frame_legal split: sum.splits if_splits)
  define ra where "ra = (if Opcode h = Text \<or> Opcode h = Binary then r0\<lparr>messageOpcode := Opcode h, rx_compressed := RSV1 h\<rparr> else r0)"
  have na: "next_accepted h (PayloadLen h) ra = (Inr DataFrame, r1)"
    using nh ok unfolding next_header_def n prod.case Let_def r0_def [symmetric] ra_def by (simp add: accept_frame_legal)
  have oc: "\<not> Opcode h \<ge> Close"
    using na by (auto simp: next_accepted_def Let_def split: if_splits dest: finishControl_keeps next_control_keeps)
  then have op: "Opcode h = Text \<or> Opcode h = Binary \<or> Opcode h = Continuation"
    using legal_opcode [OF ok(2)] by (auto simp: Close_def Ping_def Pong_def)
  have e: "r1 = (let r = ra\<lparr>masked := Masked h, maskOffset := 0\<rparr>;
       r = (if Masked h then r\<lparr>maskKey := put_at 0 (MaskKey h) (maskKey r)\<rparr> else r)\<lparr>rx_remaining := PayloadLen h\<rparr>
     in if PayloadLen h = 0 then finishFrame r else r)"
    using na oc by (simp add: next_accepted_def Let_def split: if_split_asm)
  have ra: "rx_header ra = h" "closeReceived ra = closeReceived r" "controlOpen ra = controlOpen r"
    "messageOpcode ra = (if Opcode h = Continuation then messageOpcode r else Opcode h)"
    "rx_compressed ra = (if Opcode h = Continuation then rx_compressed r else RSV1 h)"
    using op by (auto simp: ra_def r0_def Text_def Binary_def Continuation_def)
  have "rx_header r1 = h" "closeReceived r1 = closeReceived r" "controlOpen r1 = controlOpen r" "rx_remaining r1 = PayloadLen h"
    "rx_compressed r1 = rx_compressed ra" "messageOpcode r1 = (if PayloadLen h = 0 \<and> Final h then 0 else messageOpcode ra)"
    by (simp_all add: e Let_def finishFrame_def ra)
  then show ?thesis by (simp add: frame_fields_def ra)
qed

lemma Next_keeps:
  assumes "Next r = (Inr k, r1)" "k \<noteq> DataFrame"
  shows "rx_compressed r1 = rx_compressed r \<and> messageOpcode r1 = messageOpcode r \<and> rx_remaining r1 = rx_remaining r"
proof (cases "failed r = None \<and> controlOpen r \<and> rx_remaining r = 0 \<and> \<not> closeReceived r")
  case True
  then have "next_control r = (Inr k, r1)" using assms(1) by (auto simp: Next_def)
  from next_control_keeps [OF this] show ?thesis by simp
next
  case False
  then consider "next_header r = (Inr k, r1)" | "r1 = r"
    using assms(1) by (auto simp: Next_def split: option.splits if_splits)
  then show ?thesis
  proof cases
    case 1
    obtain res h d where n: "NextHeaderInto (rx_header r) (rx_dec r) = (res, h, d)" by (cases "NextHeaderInto (rx_header r) (rx_dec r)")
    define r0 where "r0 = r\<lparr>rx_header := h, rx_dec := d\<rparr>"
    have r0: "rx_compressed r0 = rx_compressed r" "messageOpcode r0 = messageOpcode r" "rx_remaining r0 = rx_remaining r" by (simp_all add: r0_def)
    define ra where "ra = (if Opcode h = Text \<or> Opcode h = Binary then r0\<lparr>messageOpcode := Opcode h, rx_compressed := RSV1 h\<rparr> else r0)"
    consider "r1 = r0" | "next_accepted h (PayloadLen h) ra = (Inr k, r1)"
      using 1 unfolding next_header_def n prod.case Let_def r0_def [symmetric] ra_def
      by (auto simp: rx_fail_def accept_frame_legal split: sum.splits if_splits)
    then show ?thesis
    proof cases
      case 1
      then show ?thesis by (simp add: r0)
    next
      case 2
      have oc: "Opcode h \<ge> Close" using 2 assms(2) by (auto simp: next_accepted_def Let_def split: if_splits)
      then have "Opcode h \<noteq> Text \<and> Opcode h \<noteq> Binary" by (auto simp: Text_def Binary_def Close_def word_le_nat_alt)
      then have "ra = r0" by (simp add: ra_def)
      with 2 oc show ?thesis
        by (auto simp: next_accepted_def Let_def r0 split: if_splits dest!: finishControl_keeps next_control_keeps)
    qed
  qed simp
qed

end
