(* ===== verification/ConnRead_Frame.thy ===== *)
theory ConnRead_Frame
  imports ConnRead_Rx
begin

text \<open>
  Reading the transport and fetching frames: whatever the sizes of the reads, \<open>nextFrame\<close> answers
  the control frames on the way and stops at the next data frame, close frame, protocol error or
  transport error.
\<close>

section \<open>Scripts of reads\<close>

text \<open>The reads to come deliver \<open>b\<close>, in pieces that are not empty, and then \<open>rest\<close>.\<close>

definition reads :: "bytes \<Rightarrow> rdev list \<Rightarrow> rdev list \<Rightarrow> bool" where
  "reads b rest s \<longleftrightarrow> (\<exists>ds. s = map RdData ds @ rest \<and> [] \<notin> set ds \<and> concat ds = b)"

lemma reads_Nil: "reads [] rest s \<longleftrightarrow> s = rest"
proof -
  have "ds = []" if "[] \<notin> set ds" "concat ds = []" for ds :: "bytes list"
    using that by (cases ds) auto
  then show ?thesis by (auto simp: reads_def)
qed

lemma reads_next:
  assumes "reads b rest s" "b \<noteq> []" "0 < len"
  shows "\<exists>d b' s'. transport_Read len s = Some ((d, None), s') \<and> d \<noteq> [] \<and> length d \<le> len \<and> b = d @ b' \<and> reads b' rest s'"
proof -
  from assms(1) obtain ds where ds: "s = map RdData ds @ rest" "[] \<notin> set ds" "concat ds = b" by (auto simp: reads_def)
  with assms(2) obtain d ds' where d: "ds = d # ds'" by (cases ds) auto
  show ?thesis
  proof (cases "length d \<le> len")
    case True
    with d ds show ?thesis
      by (intro exI [of _ d] exI [of _ "concat ds'"] exI [of _ "map RdData ds' @ rest"]) (auto simp: transport_Read_def reads_def)
  next
    case False
    then have "drop len d \<noteq> []" by simp
    then have "reads (drop len d @ concat ds') rest (map RdData (drop len d # ds') @ rest)" unfolding reads_def
      using d ds(2) by (intro exI [of _ "drop len d # ds'"]) auto
    moreover have "take len d \<noteq> []" using False assms(3) by auto
    ultimately show ?thesis using False d ds
      by (intro exI [of _ "take len d"] exI [of _ "drop len d @ concat ds'"] exI [of _ "map RdData (drop len d # ds') @ rest"])
         (auto simp: transport_Read_def)
  qed
qed

lemma conn_read_ok:
  assumes "reads b rest (c_in c)" "b \<noteq> []" "0 < len"
  shows "\<exists>d b' s'. conn_read len c = Some (Inr d, c\<lparr>c_in := s'\<rparr>) \<and> d \<noteq> [] \<and> length d \<le> len \<and> b = d @ b' \<and> reads b' rest s'"
proof -
  obtain d b' s' where r: "transport_Read len (c_in c) = Some ((d, None), s')" "d \<noteq> []" "length d \<le> len" "b = d @ b'" "reads b' rest s'"
    using reads_next [OF assms] by blast
  have "read_tries (Suc 99) len c = Some (Inr d, c\<lparr>c_in := s'\<rparr>)" using r(1,2) by (subst read_tries.simps) (simp add: Let_def)
  then show ?thesis using r(2-5) by (auto simp: conn_read_def)
qed

definition end_error :: "go_error \<Rightarrow> bool \<Rightarrow> go_error" where
  "end_error e quiet = (if e = EOF \<and> \<not> quiet then UnexpectedEOF else e)"

lemma conn_read_error:
  assumes "c_in c = RdErr e # rest"
  shows "conn_read len c = Some (Inl (end_error e (receiver_Idle (c_rx c))), c\<lparr>c_in := rest\<rparr>)"
proof -
  have "read_tries (Suc 99) len c = Some (Inl (end_error e (receiver_Idle (c_rx c))), c\<lparr>c_in := rest\<rparr>)"
    using assms by (subst read_tries.simps) (simp add: transport_Read_def Let_def end_error_def)
  then show ?thesis by (simp add: conn_read_def)
qed

text \<open>What reading a frame may change.\<close>

definition same_read :: "('w, 'r) conn \<Rightarrow> ('w, 'r) conn \<Rightarrow> bool" where
  "same_read c c' \<longleftrightarrow> c' = c\<lparr>c_w := c_w c', c_rx := c_rx c', c_in := c_in c'\<rparr>"

lemma same_read_refl [simp]: "same_read c c"
  by (simp add: same_read_def)

lemma same_read_trans: "same_read c c1 \<Longrightarrow> same_read c1 c2 \<Longrightarrow> same_read c c2"
  unfolding same_read_def by (cases c, cases c1, cases c2) simp

lemma same_readI [intro]: "same_read c (c\<lparr>c_w := w, c_rx := rx, c_in := s\<rparr>)" "same_read c (c\<lparr>c_rx := rx\<rparr>)" "same_read c (c\<lparr>c_w := w\<rparr>)"
   "same_read c (c\<lparr>c_rx := rx, c_in := s\<rparr>)" "same_read c (c\<lparr>c_in := s\<rparr>)" "same_read c (c\<lparr>c_rx := rx, c_w := w\<rparr>)"
  by (simp_all add: same_read_def)

lemma same_readD:
  assumes "same_read c c'"
  shows "c_handler c' = c_handler c" "c_limit c' = c_limit c" "c_validateUTF8 c' = c_validateUTF8 c" "c_buf c' = c_buf c" "c_msg c' = c_msg c"
    "c_msgHint c' = c_msgHint c" "c_inMessage c' = c_inMessage c" "c_readErr c' = c_readErr c" "c_decomp c' = c_decomp c" "c_bufs c' = c_bufs c"
    "c_msgPool c' = c_msgPool c" "c_decPool c' = c_decPool c" "c_tick c' = c_tick c"
  by (subst assms [unfolded same_read_def], simp)+

section \<open>Filling the read buffer\<close>

definition rx_live :: "receiver \<Rightarrow> bool" where
  "rx_live r \<longleftrightarrow> rx_inv r \<and> failed r = None \<and> \<not> closeReceived r"

definition rx_same :: "receiver \<Rightarrow> receiver \<Rightarrow> bool" where
  "rx_same r r' \<longleftrightarrow> rx_remaining r' = rx_remaining r \<and> rx_header r' = rx_header r \<and> rx_compressed r' = rx_compressed r
     \<and> messageOpcode r' = messageOpcode r \<and> controlOpen r' = controlOpen r \<and> rx_role r' = rx_role r \<and> compression r' = compression r"

lemma rx_fed:
  assumes "rx_live r"
  shows "rx_live (receiver_Feed d r)" "rx_same r (receiver_Feed d r)" "Buffered (rx_dec (receiver_Feed d r)) = Buffered (rx_dec r) + length d"
  using assms rx_inv_Feed [of r d]
  by (auto simp: rx_live_def rx_same_def receiver_Feed_def Feed_def Buffered_def Let_def)

lemma rx_preserved:
  assumes "rx_live r"
  shows "rx_live (receiver_Preserve r)" "rx_same r (receiver_Preserve r)" "Buffered (rx_dec (receiver_Preserve r)) = Buffered (rx_dec r)"
    "stopped (receiver_Preserve r) = stopped r"
  using assms rx_inv_Preserve [of r]
  by (auto simp: rx_live_def rx_same_def receiver_Preserve_def Preserve_def Buffered_def stopped_def meaning_def base_def ControlPayload_def rkey_def)

lemma conn_fill_ok:
  assumes rx: "rx_live (c_rx c)" "stopped (c_rx c)" and b: "reads b rest (c_in c)" "b \<noteq> []" "0 < c_buf c"
  shows "\<exists>c' b'. conn_fill c = Some (None, c') \<and> same_read c c' \<and> c_w c' = c_w c \<and> rx_live (c_rx c') \<and> rx_same (c_rx c) (c_rx c')
     \<and> reads b' rest (c_in c') \<and> fut (c_rx c') b' = fut (c_rx c) b
     \<and> 2 * length b' + Buffered (rx_dec (c_rx c')) < 2 * length b + Buffered (rx_dec (c_rx c))"
proof -
  let ?c = "c\<lparr>c_rx := receiver_Preserve (c_rx c)\<rparr>"
  obtain d b' s' where r: "conn_read (c_buf c) ?c = Some (Inr d, ?c\<lparr>c_in := s'\<rparr>)" "d \<noteq> []" "b = d @ b'" "reads b' rest s'"
    using conn_read_ok [of b rest ?c "c_buf c"] b by auto
  let ?rx = "receiver_Feed d (receiver_Preserve (c_rx c))"
  let ?c' = "c\<lparr>c_rx := ?rx, c_in := s'\<rparr>"
  note p = rx_preserved [OF rx(1)]
  note f = rx_fed [OF p(1)]
  have "conn_fill c = Some (None, ?c')" using r(1) by (simp add: conn_fill_def)
  moreover have "fut ?rx b' = fut (c_rx c) b" using fut_Feed [of "receiver_Preserve (c_rx c)" d b'] p(4) rx(2) r(3) by simp
  moreover have "rx_same (c_rx c) ?rx" using p(2) f(2) [of d] by (simp add: rx_same_def)
  moreover have "2 * length b' + Buffered (rx_dec ?rx) < 2 * length b + Buffered (rx_dec (c_rx c))"
    using f(3) [of d] p(3) r(2,3) by simp
  ultimately show ?thesis using f(1) [of d] r(4) by (intro exI [of _ ?c'] exI [of _ b']) auto
qed

lemma conn_fill_error:
  assumes "c_in c = RdErr e # rest"
  shows "conn_fill c = Some (Some (end_error e (receiver_Idle (c_rx c))), c\<lparr>c_rx := receiver_Preserve (c_rx c), c_in := rest\<rparr>)"
proof -
  have "receiver_Idle (receiver_Preserve r) = receiver_Idle r" for r
    by (simp add: receiver_Idle_def receiver_Preserve_def Preserve_def Buffered_def)
  then show ?thesis using conn_read_error [of "c\<lparr>c_rx := receiver_Preserve (c_rx c)\<rparr>" e rest] assms by (simp add: conn_fill_def)
qed

text \<open>A receiver that waits between messages is one whose run ahead is at the start.\<close>

lemma ctl_done_event: "snd (ctl_done msg op p) \<noteq> []"
  by (simp add: ctl_done_def split: option.split)

lemma ctl_stays:
  "snd (byte_run role pmd (Ctl op n key acc, msg) bs) = [] \<Longrightarrow> fst (fst (byte_run role pmd (Ctl op n key acc, msg) bs)) \<noteq> Head []"
proof (induction bs arbitrary: n acc)
  case (Cons c cs)
  then show ?case using ctl_done_event by (auto simp: split_def Let_def split: if_splits)
qed simp

lemma head_moves:
  assumes "bs \<noteq> []" "byte_run role pmd (Head hs, msg) bs = (st, [])"
  shows "fst st \<noteq> Head []"
  using assms
proof (induction bs arbitrary: hs)
  case (Cons b bs)
  show ?case
  proof (cases "head_complete (hs @ [b])")
    case False
    with Cons show ?thesis by (cases "bs = []") (auto simp: split_def Let_def)
  next
    case True
    with Cons.prems(2) ctl_stays ctl_done_event show ?thesis
      by (auto simp: head_done_def split_def Let_def split: if_splits)
  qed
qed simp

lemma data_stays:
  assumes "byte_run role pmd (Data n final key p, msg) bs = (st, [])" "0 < n"
  shows "bs = []"
  using assms by (cases bs) (auto simp: split_def Let_def split: if_splits)

lemma idle_state:
  assumes "rx_live r" "fut r [] = (fs, [])"
  shows "receiver_Idle r \<longleftrightarrow> fs = (Head [], 0)"
proof -
  have run: "byte_run (rx_role r) (compression r) (base r) (pending (rx_dec r)) = (fs, [])" using assms(2) by (simp add: fut_def)
  have live: "failed r = None" "\<not> closeReceived r" using assms(1) by (simp_all add: rx_live_def)
  show ?thesis
  proof (cases "controlOpen r")
    case True
    then have "fst fs \<noteq> Head []" using run live True ctl_stays [of "rx_role r" "compression r" "controlOpcode r" "unat (remaining (rx_dec r))" "rkey r" "ControlPayload r"
        "messageOpcode r" "pending (rx_dec r)"] by (simp add: base_def)
    with True show ?thesis by (auto simp: receiver_Idle_def)
  next
    case nc: False
    show ?thesis
    proof (cases "rx_remaining r = 0")
      case False
      then have "0 < unat (rx_remaining r)" by (simp add: unat_gt_0)
      with run False nc live have "pending (rx_dec r) = []"
        using data_stays [of "rx_role r" "compression r" "unat (rx_remaining r)" _ _ _ "messageOpcode r" "pending (rx_dec r)" fs]
        by (simp add: base_def)
      with run False nc live show ?thesis by (auto simp: base_def receiver_Idle_def)
    next
      case z: True
      then have run': "byte_run (rx_role r) (compression r) (Head [], messageOpcode r) (pending (rx_dec r)) = (fs, [])"
        using run nc live by (simp add: base_def)
      show ?thesis
      proof (cases "pending (rx_dec r) = []")
        case True
        with run' z nc show ?thesis by (auto simp: receiver_Idle_def Buffered_def)
      next
        case False
        with head_moves [OF False run'] show ?thesis by (auto simp: receiver_Idle_def Buffered_def)
      qed
    qed
  qed
qed

section \<open>Control frames\<close>

definition handler_of :: "('w, 'r) renv \<Rightarrow> ('w, 'r) conn \<Rightarrow> 'w ControlHandler" where
  "handler_of E c = (case c_handler c of Some h \<Rightarrow> h | None \<Rightarrow> DefaultControlHandler (re_w E))"

text \<open>A handler that answers pings and pongs without error, and what it keeps of the write side.\<close>

definition answers :: "'w ControlHandler \<Rightarrow> ('w wconn \<Rightarrow> bool) \<Rightarrow> bool" where
  "answers h Q \<longleftrightarrow> (\<forall>w p. Q w \<and> length p \<le> 125 \<longrightarrow>
     (\<exists>w'. OnPing h p w = Some (None, w') \<and> Q w') \<and> (\<exists>w'. OnPong h p w = Some (None, w') \<and> Q w'))"

fun ctl_ev :: "opcode \<times> bytes \<Rightarrow> event" where
  "ctl_ev (op, p) = EvControl op p"

definition pingpong :: "opcode \<times> bytes \<Rightarrow> bool" where
  "pingpong x \<longleftrightarrow> fst x \<in> {Ping, Pong}"

lemma ControlPayload_length: "rx_inv r \<Longrightarrow> length (ControlPayload r) \<le> 125"
  by (simp add: rx_inv_def ControlPayload_def)

lemma handleControl_answered:
  assumes "answers (handler_of E c) Q" "Q (c_w c)" "rx_inv (c_rx c)" "ControlOpcode (c_rx c) \<in> {Ping, Pong}"
  shows "\<exists>w. handleControl E c = Some (None, c\<lparr>c_w := w\<rparr>) \<and> Q w"
proof -
  let ?p = "ControlPayload (c_rx c)"
  obtain w1 w2 where w: "OnPing (handler_of E c) ?p (c_w c) = Some (None, w1)" "Q w1" "OnPong (handler_of E c) ?p (c_w c) = Some (None, w2)" "Q w2"
    using assms(1,2) ControlPayload_length [OF assms(3)] unfolding answers_def by blast
  have "Ping \<noteq> Pong" by (simp add: Ping_def Pong_def)
  then show ?thesis using assms(4) w by (auto simp: handleControl_def Let_def handler_of_def)
qed

definition close_outcome :: "('w, 'r) renv \<Rightarrow> bytes \<Rightarrow> ('w, 'r) conn \<Rightarrow> (go_error option \<times> ('w, 'r) conn) option" where
  "close_outcome E p c =
    (let (code, reason) = parseClose p
     in case OnClose (handler_of E c) code reason (c_w c) of
          None \<Rightarrow> None
        | Some (err, w) \<Rightarrow>
           (let e = (case err of None \<Rightarrow> CloseError code reason | Some e \<Rightarrow> e) in Some (Some e, set_terminal e (c\<lparr>c_w := w\<rparr>))))"

lemma handleControl_close:
  assumes "ControlOpcode (c_rx c) = Close"
  shows "handleControl E c = close_outcome E (ControlPayload (c_rx c)) c"
proof -
  have "Close \<noteq> Ping" "Close \<noteq> Pong" by (simp_all add: Close_def Ping_def Pong_def)
  with assms show ?thesis
    by (auto simp: handleControl_def close_outcome_def handler_of_def Let_def split: option.split prod.split)
qed

section \<open>The next frame\<close>

definition frame_at :: "receiver \<Rightarrow> opcode \<Rightarrow> bool \<Rightarrow> bool \<Rightarrow> receiver \<Rightarrow> bool" where
  "frame_at r op fin rsv1 r1 \<longleftrightarrow> Opcode (rx_header r1) = op \<and> Final (rx_header r1) = fin \<and> RSV1 (rx_header r1) = rsv1
     \<and> rx_remaining r1 = PayloadLen (rx_header r1)
     \<and> rx_compressed r1 = (if op = Continuation then rx_compressed r else rsv1)
     \<and> messageOpcode r1 = (if rx_remaining r1 = 0 \<and> fin then 0 else if op = Continuation then messageOpcode r else op)"

text \<open>What fetching a frame does when the run ahead, past the answered control frames, is \<open>evs\<close>.\<close>

definition frame_outcome ::
    "('w, 'r) renv \<Rightarrow> ('w wconn \<Rightarrow> bool) \<Rightarrow> ('w, 'r) conn \<Rightarrow> astate \<Rightarrow> rdev list \<Rightarrow> event list \<Rightarrow> (go_error option \<times> ('w, 'r) conn) option \<Rightarrow> bool" where
  "frame_outcome E Q c fs rest evs res \<longleftrightarrow> (\<exists>c1 b1. same_read c c1 \<and> Q (c_w c1) \<and> rx_inv (c_rx c1) \<and>
     (case evs of
        [] \<Rightarrow> (\<forall>e rest'. rest = RdErr e # rest' \<longrightarrow>
                 res = Some (Some (end_error e (fs = (Head [], 0))), c1) \<and> rx_live (c_rx c1) \<and> c_in c1 = rest' \<and> fut (c_rx c1) [] = (fs, [])
                 \<and> rx_remaining (c_rx c1) = 0 \<and> messageOpcode (c_rx c1) = messageOpcode (c_rx c))
      | ev # es \<Rightarrow>
        (case ev of
           EvFrame op fin rsv1 \<Rightarrow> res = Some (None, c1) \<and> rx_live (c_rx c1) \<and> reads b1 rest (c_in c1) \<and> fut (c_rx c1) b1 = (fs, es)
             \<and> frame_at (c_rx c) op fin rsv1 (c_rx c1)
         | EvFail code e \<Rightarrow> res = Some (Some (Error code e), conn_fail E (Error code e) c1)
         | EvControl op p \<Rightarrow> op = Close \<longrightarrow> res = close_outcome E p c1
         | EvByte x \<Rightarrow> True)))"

lemma frame_outcome_step:
  assumes "frame_outcome E Q c1 fs rest evs res" "same_read c c1"
    "messageOpcode (c_rx c1) = messageOpcode (c_rx c)" "rx_compressed (c_rx c1) = rx_compressed (c_rx c)"
  shows "frame_outcome E Q c fs rest evs res"
proof -
  have f: "frame_at (c_rx c1) op fin rsv1 r \<longleftrightarrow> frame_at (c_rx c) op fin rsv1 r" for op fin rsv1 r
    by (simp add: frame_at_def assms(3,4))
  from assms(1) show ?thesis unfolding frame_outcome_def f assms(3) using same_read_trans [OF assms(2)] by blast
qed

text \<open>Further facts of a step: its error is the recorded one, and only a close frame closes.\<close>

definition next_more :: "receiver \<Rightarrow> go_error + frameKind \<Rightarrow> receiver \<Rightarrow> bool" where
  "next_more r res r1 \<longleftrightarrow>
    (case res of
       Inl err \<Rightarrow> (\<exists>code e. failed r1 = Some (code, e) \<and> err = Error code e)
     | Inr NeedInput \<Rightarrow> closeReceived r1 = closeReceived r \<and> Buffered (rx_dec r1) \<le> Buffered (rx_dec r)
     | Inr ControlFrame \<Rightarrow> closeReceived r1 = (closeReceived r \<or> ControlOpcode r1 = Close)
     | Inr DataFrame \<Rightarrow> True)"

lemma finishControl_more: "finishControl r = (res, r1) \<Longrightarrow> next_more r res r1 \<and> res \<noteq> Inr NeedInput"
  by (auto simp: finishControl_def next_more_def rx_fail_def ControlOpcode_def split: if_splits option.splits)

lemma next_control_more:
  assumes "next_control r = (res, r1)"
  shows "next_more r res r1"
proof -
  obtain chunk dn d where P: "Payload (rx_dec r) = ((chunk, dn), d)" by (metis prod.collapse)
  have b: "Buffered d \<le> Buffered (rx_dec r)"
    using PayloadN_split(1) [OF P [unfolded Payload_def]] by (simp add: Buffered_def)
  show ?thesis
  proof (cases dn)
    case False
    then show ?thesis using assms P b by (auto simp: next_control_def next_more_def Let_def split_def)
  next
    case True
    then obtain r' where r': "finishControl r' = (res, r1)" "closeReceived r' = closeReceived r"
      using assms P by (auto simp: next_control_def Let_def split_def intro: that)
    then show ?thesis using finishControl_more [OF r'(1)] by (auto simp: next_more_def split: sum.splits frameKind.splits)
  qed
qed

lemma next_accepted_more:
  assumes "next_accepted h len ra = (res, r1)"
  shows "next_more ra res r1 \<or> (res = Inr NeedInput \<and> closeReceived r1 = closeReceived ra \<and> Buffered (rx_dec r1) \<le> Buffered (rx_dec ra))"
proof -
  define rb where "rb = (let r = ra\<lparr>masked := Masked h, maskOffset := 0\<rparr> in if masked r then r\<lparr>maskKey := put_at 0 (MaskKey h) (maskKey r)\<rparr> else r)"
  have rb: "closeReceived rb = closeReceived ra" "rx_dec rb = rx_dec ra" by (simp_all add: rb_def Let_def)
  show ?thesis
  proof (cases "Opcode h \<ge> Close")
    case False
    then show ?thesis using assms by (auto simp: next_accepted_def next_more_def Let_def)
  next
    case True
    define rc where "rc = rb\<lparr>controlOpcode := Opcode h, controlLen := 0\<rparr>"
    have e: "(if len = 0 then finishControl rc else next_control (rc\<lparr>controlOpen := True\<rparr>)) = (res, r1)"
      using assms True unfolding next_accepted_def Let_def rc_def rb_def by (simp only: if_True)
    have "next_more rc res r1 \<or> next_more (rc\<lparr>controlOpen := True\<rparr>) res r1"
      using e finishControl_more next_control_more by (cases "len = 0") auto
    then show ?thesis using rb by (auto simp: next_more_def rc_def split: sum.splits frameKind.splits)
  qed
qed

lemma Next_more:
  assumes "Next r = (res, r1)" "failed r = None" "rx_remaining r = 0"
    and inv: "rx_inv r"
  shows "next_more r res r1"
proof -
  have cs: "(if closeReceived r then (Inr NeedInput, r) else if controlOpen r then next_control r else next_header r) = (res, r1)"
    using assms(1-3) by (simp add: Next_def)
  show ?thesis
  proof (cases "closeReceived r \<or> controlOpen r")
    case True
    then show ?thesis using cs next_control_more by (auto simp: next_more_def split: if_splits)
  next
    case False
    then have nh: "next_header r = (res, r1)" using cs by simp
    obtain hr h d where n: "NextHeaderInto (rx_header r) (rx_dec r) = (hr, h, d)" by (cases "NextHeaderInto (rx_header r) (rx_dec r)")
    have rem: "remaining (rx_dec r) = 0" "length (raw (rx_header r)) = MaxHeaderSize" using inv False assms(3) by (auto simp: rx_inv_def)
    have bd: "Buffered d \<le> Buffered (rx_dec r)"
      using n NextHeaderInto_eq [OF rem refl] by (auto simp: Buffered_def Let_def split: if_splits)
    define r0 where "r0 = r\<lparr>rx_header := h, rx_dec := d\<rparr>"
    define ra where "ra = (if Opcode h = Text \<or> Opcode h = Binary then r0\<lparr>messageOpcode := Opcode h, rx_compressed := RSV1 h\<rparr> else r0)"
    have f: "closeReceived ra = closeReceived r" "rx_dec ra = d" "closeReceived r0 = closeReceived r" "rx_dec r0 = d"
      by (simp_all add: ra_def r0_def)
    note nh' = nh [unfolded next_header_def n prod.case Let_def, folded r0_def]
    have lg: "accept_frame h (PayloadLen h) r0 = (if legal (rx_role r0) (compression r0) (messageOpcode r0) h then (None, ra) else (Some ErrProtocol, r0))"
      unfolding accept_frame_legal ra_def by (rule refl)
    consider "res = Inr NeedInput" "r1 = r0" | code e where "res = Inl (Error code e)" "failed r1 = Some (code, e)" | "next_accepted h (PayloadLen h) ra = (res, r1)"
    proof (cases hr)
      case (Inl err)
      then show ?thesis using nh' by (intro that(2)) (auto simp: rx_fail_def)
    next
      case ok: (Inr ok)
      show ?thesis
      proof (cases "ok \<and> legal (rx_role r0) (compression r0) (messageOpcode r0) h")
        case True
        then show ?thesis using nh' ok lg that(3) by simp
      next
        case False
        then show ?thesis using nh' ok lg that(1,2) by (auto simp: rx_fail_def split: if_splits)
      qed
    qed
    then show ?thesis
    proof cases
      case 3
      from next_accepted_more [OF this] show ?thesis using f bd by (auto simp: next_more_def split: sum.splits frameKind.splits)
    qed (use f bd in \<open>auto simp: next_more_def\<close>)
  qed
qed

lemma nextFrame_ok:
  assumes "answers (handler_of E c) Q" "rx_live (c_rx c)" "rx_remaining (c_rx c) = 0" "reads b rest (c_in c)" "0 < c_buf c" "Q (c_w c)"
    "fut (c_rx c) b = (fs, map ctl_ev cs @ evs)" "list_all pingpong cs" "\<forall>op p es. evs = EvControl op p # es \<longrightarrow> op = Close"
    "evs = [] \<longrightarrow> (\<exists>e rest'. rest = RdErr e # rest')"
  shows "frame_outcome E Q c fs rest evs (nextFrame E c)"
  using assms
proof (induction "2 * length b + Buffered (rx_dec (c_rx c))" arbitrary: c b cs rule: less_induct)
  case less
  note ans = less.prems(1) and live = less.prems(2) and rem = less.prems(3) and rd = less.prems(4) and buf = less.prems(5) and Q = less.prems(6)
    and ev = less.prems(7) and pp = less.prems(8) and cl = less.prems(9) and ends = less.prems(10)
  obtain res r1 where N: "Next (c_rx c) = (res, r1)" by (cases "Next (c_rx c)")
  have lv: "rx_inv (c_rx c)" "failed (c_rx c) = None" "\<not> closeReceived (c_rx c)" using live by (simp_all add: rx_live_def)
  note nk = Next_ok [OF lv(1,2) rem N]
  note more = Next_more [OF N lv(2) rem lv(1)]
  let ?c = "c\<lparr>c_rx := r1\<rparr>"
  have same: "same_read c ?c" by auto
  have inv: "rx_inv r1" using nk by (simp add: next_ok_def)
  show ?case
  proof (cases res)
    case (Inl err)
    then obtain code e where f: "failed r1 = Some (code, e)" "sim (c_rx c) r1 [EvFail code e]" using nk by (auto simp: next_ok_def)
    have "fut (c_rx c) b = (fst (fut r1 b), [EvFail code e] @ snd (fut r1 b))" by (rule fut_sim [OF f(2)])
    then have hd: "map ctl_ev cs @ evs = EvFail code e # snd (fut r1 b)" using ev by simp
    then have "cs = []" by (cases cs) auto
    have "err = Error code e" using more Inl f(1) by (simp add: next_more_def)
    then have "nextFrame E c = Some (Some (Error code e), conn_fail E (Error code e) ?c)"
      using N Inl by (subst nextFrame.simps) simp
    then show ?thesis unfolding frame_outcome_def using hd \<open>cs = []\<close> same Q inv by (intro exI [of _ ?c] exI [of _ b]) auto
  next
    case (Inr k)
    have keep: "k \<noteq> DataFrame \<Longrightarrow> rx_compressed r1 = rx_compressed (c_rx c) \<and> messageOpcode r1 = messageOpcode (c_rx c) \<and> rx_remaining r1 = rx_remaining (c_rx c)"
      using Next_keeps [OF N [unfolded Inr]] by simp
    show ?thesis
    proof (cases k)
      case NeedInput
      have n: "sim (c_rx c) r1 []" "stopped r1" "failed r1 = None" using nk Inr NeedInput by (simp_all add: next_ok_def)
      have ncl: "\<not> closeReceived r1" using more Inr NeedInput lv(3) by (simp add: next_more_def)
      have l1: "rx_live r1" using n(3) inv ncl by (simp add: rx_live_def)
      have f1: "fut r1 b = fut (c_rx c) b" using fut_sim [OF n(1), of b] by (cases "fut r1 b") simp
      have bf: "Buffered (rx_dec r1) \<le> Buffered (rx_dec (c_rx c))" using more Inr NeedInput by (simp add: next_more_def)
      show ?thesis
      proof (cases "b = []")
        case True
        have e0: "snd (fut r1 []) = []" using fut_stuck [OF n(2)] .
        then have z: "cs = []" "evs = []" "fut r1 [] = (fs, [])" using ev f1 True by auto
        obtain e rest' where r: "rest = RdErr e # rest'" using ends z(2) by blast
        have "c_in ?c = RdErr e # rest'" using rd True r by (simp add: reads_Nil)
        from conn_fill_error [OF this] idle_state [OF l1 z(3)]
        have "conn_fill ?c = Some (Some (end_error e (fs = (Head [], 0))), c\<lparr>c_rx := receiver_Preserve r1, c_in := rest'\<rparr>)" by simp
        then have "nextFrame E c = Some (Some (end_error e (fs = (Head [], 0))), c\<lparr>c_rx := receiver_Preserve r1, c_in := rest'\<rparr>)"
          using N Inr NeedInput by (subst nextFrame.simps) simp
        moreover have "rx_live (receiver_Preserve r1)" "rx_remaining (receiver_Preserve r1) = 0" "messageOpcode (receiver_Preserve r1) = messageOpcode (c_rx c)"
          using rx_preserved(1,2) [OF l1] keep NeedInput rem by (simp_all add: rx_same_def)
        ultimately show ?thesis unfolding frame_outcome_def using z r Q
          by (intro exI [of _ "c\<lparr>c_rx := receiver_Preserve r1, c_in := rest'\<rparr>"] exI [of _ b]) (auto simp: rx_live_def)
      next
        case False
        have pr: "rx_live (c_rx ?c)" "stopped (c_rx ?c)" "reads b rest (c_in ?c)" "0 < c_buf ?c" using l1 n(2) rd buf by simp_all
        obtain c2 b2 where c2: "conn_fill ?c = Some (None, c2)" "same_read ?c c2" "c_w c2 = c_w ?c" "rx_live (c_rx c2)" "rx_same (c_rx ?c) (c_rx c2)"
          "reads b2 rest (c_in c2)" "fut (c_rx c2) b2 = fut (c_rx ?c) b"
          "2 * length b2 + Buffered (rx_dec (c_rx c2)) < 2 * length b + Buffered (rx_dec (c_rx ?c))"
          using conn_fill_ok [OF pr(1-3) False pr(4)] by (elim exE conjE) (rule that)
        have s2: "same_read c c2" using same_read_trans [OF same c2(2)] .
        note sd = same_readD [OF s2]
        have nf: "nextFrame E c = nextFrame E c2" using N Inr NeedInput c2(1) by (subst nextFrame.simps) simp
        have lt: "2 * length b2 + Buffered (rx_dec (c_rx c2)) < 2 * length b + Buffered (rx_dec (c_rx c))" using c2(8) bf by simp
        have "frame_outcome E Q c2 fs rest evs (nextFrame E c2)"
          by (rule less.hyps [OF lt _ c2(4) _ c2(6) _ _ _ pp cl ends])
             (use c2 sd f1 keep NeedInput rem Q buf ans ev in \<open>simp_all add: handler_of_def rx_same_def\<close>)
        from frame_outcome_step [OF this s2] c2(5) keep NeedInput show ?thesis unfolding nf by (simp add: rx_same_def)
      qed
    next
      case ControlFrame
      have n: "sim (c_rx c) r1 [EvControl (ControlOpcode r1) (ControlPayload r1)]" "failed r1 = None" using nk Inr ControlFrame by (simp_all add: next_ok_def)
      have hd: "map ctl_ev cs @ evs = EvControl (ControlOpcode r1) (ControlPayload r1) # snd (fut r1 b)" "fs = fst (fut r1 b)" using ev fut_sim [OF n(1), of b] by simp_all
      show ?thesis
      proof (cases cs)
        case Nil
        then have evs: "evs = EvControl (ControlOpcode r1) (ControlPayload r1) # snd (fut r1 b)" using hd by simp
        with cl have "ControlOpcode r1 = Close" by blast
        then have hc: "handleControl E ?c = close_outcome E (ControlPayload r1) ?c" using handleControl_close [of ?c E] by simp
        have st: "close_outcome E p c' = Some (err, c'') \<Longrightarrow> err \<noteq> None" for p c' err c''
          by (auto simp: close_outcome_def Let_def split: prod.splits option.splits)
        have "nextFrame E c = close_outcome E (ControlPayload r1) ?c"
          using N Inr ControlFrame hc st [of "ControlPayload r1" ?c] by (subst nextFrame.simps) (auto split: option.splits)
        then show ?thesis unfolding frame_outcome_def using evs same Q inv by (intro exI [of _ ?c] exI [of _ b]) auto
      next
        case (Cons x xs)
        then have x: "ctl_ev x = EvControl (ControlOpcode r1) (ControlPayload r1)" "map ctl_ev xs @ evs = snd (fut r1 b)" "pingpong x" "list_all pingpong xs"
          using hd pp by simp_all
        then have op: "ControlOpcode r1 \<in> {Ping, Pong}" by (cases x) (simp add: pingpong_def)
        have ncl: "\<not> closeReceived r1"
          using more Inr ControlFrame lv(3) op by (auto simp: next_more_def Close_def Ping_def Pong_def)
        obtain w where w: "handleControl E ?c = Some (None, ?c\<lparr>c_w := w\<rparr>)" "Q w"
          using handleControl_answered [of E ?c Q] ans Q inv op by (auto simp: handler_of_def)
        let ?c2 = "?c\<lparr>c_w := w\<rparr>"
        have s2: "same_read c ?c2" by auto
        have nf: "nextFrame E c = nextFrame E ?c2" using N Inr ControlFrame w(1) by (subst nextFrame.simps) simp
        have "Buffered (rx_dec r1) < Buffered (rx_dec (c_rx c))" using nk Inr ControlFrame by simp
        then have lt: "2 * length b + Buffered (rx_dec (c_rx ?c2)) < 2 * length b + Buffered (rx_dec (c_rx c))" by simp
        have f2: "fut (c_rx ?c2) b = (fs, map ctl_ev xs @ evs)" using x(2) hd(2) by simp
        have "frame_outcome E Q ?c2 fs rest evs (nextFrame E ?c2)"
          by (rule less.hyps [OF lt _ _ _ _ _ _ f2 x(4) cl ends])
             (use ans rd buf w(2) keep rem ControlFrame inv n(2) ncl in \<open>simp_all add: handler_of_def rx_live_def\<close>)
        from frame_outcome_step [OF this s2] keep ControlFrame show ?thesis unfolding nf by simp
      qed
    next
      case DataFrame
      have n: "sim (c_rx c) r1 [EvFrame (Opcode (rx_header r1)) (Final (rx_header r1)) (RSV1 (rx_header r1))]" "failed r1 = None"
        using nk Inr DataFrame by (simp_all add: next_ok_def)
      have hd: "map ctl_ev cs @ evs = EvFrame (Opcode (rx_header r1)) (Final (rx_header r1)) (RSV1 (rx_header r1)) # snd (fut r1 b)" "fs = fst (fut r1 b)"
        using ev fut_sim [OF n(1), of b] by simp_all
      then have "cs = []" by (cases cs) (auto simp: ctl_ev.simps split: prod.splits elim: ctl_ev.elims)
      have ff: "frame_fields (c_rx c) r1" using Next_data_fields N Inr DataFrame by simp
      then have "rx_live r1" using inv n(2) lv(3) by (simp add: rx_live_def frame_fields_def)
      moreover have "frame_at (c_rx c) (Opcode (rx_header r1)) (Final (rx_header r1)) (RSV1 (rx_header r1)) r1"
        using ff by (simp add: frame_at_def frame_fields_def)
      moreover have "nextFrame E c = Some (None, ?c)" using N Inr DataFrame by (subst nextFrame.simps) simp
      ultimately show ?thesis unfolding frame_outcome_def using hd \<open>cs = []\<close> same Q inv rd
        by (intro exI [of _ ?c] exI [of _ b]) auto
    qed
  qed
qed

end
