(* ===== verification/ConnRead_Msg.thy ===== *)
theory ConnRead_Msg
  imports ConnRead_Frame
begin

text \<open>
  Gathering a message: the message buffer always has the storage the code slices, and the frames of
  a message are gathered into its payload, or refused when it is longer than the limit.
\<close>

section \<open>The message buffer\<close>

definition same_conn :: "('w, 'r) conn \<Rightarrow> ('w, 'r) conn \<Rightarrow> bool" where
  "same_conn c c' \<longleftrightarrow> c_handler c' = c_handler c \<and> c_limit c' = c_limit c \<and> c_validateUTF8 c' = c_validateUTF8 c \<and> c_buf c' = c_buf c
     \<and> c_inMessage c' = c_inMessage c \<and> c_readErr c' = c_readErr c \<and> c_decomp c' = c_decomp c \<and> c_decPool c' = c_decPool c"

lemma same_conn_refl [simp]: "same_conn c c"
  by (simp add: same_conn_def)

lemma same_conn_trans: "same_conn c c1 \<Longrightarrow> same_conn c1 c2 \<Longrightarrow> same_conn c c2"
  by (simp add: same_conn_def)

lemma same_read_conn: "same_read c c' \<Longrightarrow> same_conn c c'"
  by (simp add: same_conn_def same_readD)

text \<open>What the message buffer's operations leave alone.\<close>

definition same_io :: "('w, 'r) conn \<Rightarrow> ('w, 'r) conn \<Rightarrow> bool" where
  "same_io c c' \<longleftrightarrow> same_conn c c' \<and> c_w c' = c_w c \<and> c_rx c' = c_rx c \<and> c_in c' = c_in c"

lemma growMsg_ok:
  assumes "pools_ok (c_bufs c)" "0 \<le> n" "c_msg c = None \<longrightarrow> fst msg = []"
  shows "\<exists>cap c'. growMsg E msg n c = Some ((fst msg, cap), c') \<and> int (length (fst msg)) + n \<le> int cap \<and> pools_ok (c_bufs c')
     \<and> same_io c c' \<and> c_msg c' \<noteq> None"
proof -
  obtain k m c1 where a: "acquire_msg E msg c = ((fst msg, k), m, c1)" and c1: "c_bufs c1 = c_bufs c" "same_io c c1" "c_msg c1 \<noteq> None"
  proof (cases "c_msg c")
    case (Some m)
    then show ?thesis using that [of "snd msg" m c] by (simp add: acquire_msg_def same_io_def)
  next
    case None
    obtain v pool where "take_pick (re_pick E (c_tick c)) (c_msgPool c) = (v, pool)" by (cases "take_pick (re_pick E (c_tick c)) (c_msgPool c)")
    moreover define m where "m = (case v of Some m \<Rightarrow> m | None \<Rightarrow> \<lparr>mb_b = ([], 0), mb_large = None, mb_home = 0\<rparr>)"
    ultimately have "acquire_msg E msg c = ((fst msg, snd (mb_b m)), m, c\<lparr>c_msgPool := pool, c_tick := Suc (c_tick c), c_msg := Some m\<rparr>)"
      using None assms(3) by (simp add: acquire_msg_def Let_def)
    then show ?thesis by (rule that) (simp_all add: same_io_def same_conn_def)
  qed
  let ?need = "int (length (fst msg)) + n"
  show ?thesis
  proof (cases "?need \<le> int k")
    case True
    then have "growMsg E msg n c = Some ((fst msg, k), c1)" using a by (simp add: growMsg_def)
    with True c1 assms(1) show ?thesis by auto
  next
    case False
    show ?thesis
    proof (cases "?need \<le> poolKeep")
      case True
      let ?cap = "nat (min (max ?need (2 * int k)) poolKeep)"
      have "growMsg E msg n c = Some ((fst msg, ?cap), c1\<lparr>c_msg := Some (m\<lparr>mb_b := (fst msg, ?cap)\<rparr>)\<rparr>)"
        using a False True by (simp add: growMsg_def Let_def)
      moreover have "?need \<le> int ?cap" using True assms(2) by linarith
      ultimately show ?thesis using c1 assms(1) by (auto simp: same_io_def same_conn_def)
    next
      case nk: False
      let ?n = "max ?need (c_msgHint c1)"
      have need: "1 \<le> ?n" using nk by (simp add: poolKeep_def)
      have pk: "pools_ok (c_bufs c1)" using assms(1) c1(1) by simp
      obtain g ps where g: "pool_Get (dv_pick (re_d E) (c_tick c1)) ?n (c_bufs c1) = Some (g, ps)" "?n \<le> int g"
        using pool_Get_enough [OF pk need, of "dv_pick (re_d E) (c_tick c1)"] by blast
      have ps: "pools_ok ps" using pools_ok_Get [OF pk g(1)] .
      have new: "app_slice E ([], g) (fst msg) = (fst msg, g)" using g(2) assms(2) by (simp add: app_slice_def)
      obtain m' ps' where m': "(case mb_large m of Some l \<Rightarrow> do { ps \<leftarrow> pool_Put (Some l) ps; Some (m, ps) } | None \<Rightarrow> Some (m\<lparr>mb_home := snd (fst msg, k)\<rparr>, ps)) = Some (m', ps')" "pools_ok ps'"
      proof (cases "mb_large m")
        case None
        then show ?thesis using that ps by simp
      next
        case (Some l)
        then show ?thesis using that pools_ok_Put [OF ps, of "Some l"] by auto
      qed
      have "growMsg E msg n c = Some ((fst msg, g), c1\<lparr>c_bufs := ps', c_tick := Suc (c_tick c1), c_msg := Some (m'\<lparr>mb_large := Some g, mb_b := (fst msg, g)\<rparr>)\<rparr>)"
        using a False nk g(1) new m'(1) by (simp add: growMsg_def Let_def)
      with g(2) c1 m'(2) show ?thesis by (auto simp: same_io_def same_conn_def)
    qed
  qed
qed

lemma appendMsg_ok:
  assumes "pools_ok (c_bufs c)" "0 \<le> Remaining_int (c_rx c)" "c_msg c = None \<longrightarrow> fst msg = []"
  shows "\<exists>cap c'. appendMsg E msg chunk c = Some ((fst msg @ chunk, cap), c') \<and> pools_ok (c_bufs c') \<and> same_io c c' \<and> c_msg c' \<noteq> None"
proof -
  have n: "0 \<le> int (length chunk) + Remaining_int (c_rx c)" using assms(2) by simp
  obtain cap c1 where g: "growMsg E msg (int (length chunk) + Remaining_int (c_rx c)) c = Some ((fst msg, cap), c1)" "pools_ok (c_bufs c1)" "same_io c c1" "c_msg c1 \<noteq> None"
    using growMsg_ok [OF assms(1) n assms(3), of E] by (elim exE conjE) (rule that; assumption)
  define m where "m = app_slice E (fst msg, cap) chunk"
  have "m = (fst msg @ chunk, snd m)" by (simp add: m_def app_slice_def)
  moreover have "appendMsg E msg chunk c = Some (m, set_msg_b m c1)" using g(1) by (simp add: appendMsg_def m_def Let_def)
  moreover have "pools_ok (c_bufs (set_msg_b m c1))" "same_io c (set_msg_b m c1)" "c_msg (set_msg_b m c1) \<noteq> None"
    using g(2-4) by (simp_all add: set_msg_b_def same_io_def same_conn_def)
  ultimately show ?thesis by metis
qed

lemma releaseMsg_ok:
  assumes "pools_ok (c_bufs c)"
  shows "\<exists>c'. releaseMsg c = Some c' \<and> pools_ok (c_bufs c') \<and> same_io c c' \<and> c_msg c' = None"
proof (cases "c_msg c")
  case None
  then show ?thesis using assms by (auto simp: releaseMsg_def same_io_def)
next
  case (Some m)
  show ?thesis
  proof (cases "mb_large m")
    case None
    then show ?thesis using Some assms by (auto simp: releaseMsg_def same_io_def same_conn_def)
  next
    case l: (Some l)
    from pools_ok_Put [OF assms, of "Some l"] obtain ps where "pool_Put (Some l) (c_bufs c) = Some ps" "pools_ok ps" by auto
    then show ?thesis using Some l by (auto simp: releaseMsg_def same_io_def same_conn_def)
  qed
qed

section \<open>Payload of the open frame\<close>

text \<open>The run ahead gives the open frame's payload \<open>p\<close> and then \<open>es\<close>.\<close>

definition payload_at :: "receiver \<Rightarrow> bytes \<Rightarrow> astate \<Rightarrow> bytes \<Rightarrow> event list \<Rightarrow> bool" where
  "payload_at r b fs p es \<longleftrightarrow> rx_live r \<and> fut r b = (fs, map EvByte p @ es) \<and> \<not> leads_byte es \<and> (es = [] \<longrightarrow> \<not> in_data fs)"

lemma payload_at_length:
  assumes "payload_at r b fs p es"
  shows "length p = unat (rx_remaining r)"
proof (cases "rx_remaining r = 0")
  case True
  then show ?thesis using assms no_byte_between [of r b fs p es] by (simp add: payload_at_def rx_live_def)
next
  case False
  then show ?thesis using assms frame_length [of r b fs p es] by (simp add: payload_at_def rx_live_def)
qed

definition drawn_from :: "receiver \<Rightarrow> receiver \<Rightarrow> bool" where
  "drawn_from r r1 \<longleftrightarrow> rx_header r1 = rx_header r \<and> rx_compressed r1 = rx_compressed r
     \<and> messageOpcode r1 = (if rx_remaining r \<noteq> 0 \<and> rx_remaining r1 = 0 \<and> Final (rx_header r) then 0 else messageOpcode r)"

lemma drawn_from_trans:
  "drawn_from r r1 \<Longrightarrow> drawn_from r1 r2 \<Longrightarrow> rx_remaining r1 = 0 \<longrightarrow> rx_remaining r2 = 0 \<Longrightarrow> rx_remaining r = 0 \<longrightarrow> rx_remaining r1 = 0 \<Longrightarrow> drawn_from r r2"
  by (auto simp: drawn_from_def)

lemma Payload_open:
  assumes p: "payload_at r b fs p es" and rem: "rx_remaining r \<noteq> 0"
  obtains chunk r1 p1 where "receiver_PayloadN n r = (Inr (chunk, p1 = []), r1)" "p = chunk @ p1" "payload_at r1 b fs p1 es"
     "Buffered (rx_dec r) = length chunk + Buffered (rx_dec r1)" "p1 = [] \<or> nat n \<le> length chunk \<or> pending (rx_dec r1) = []" "drawn_from r r1"
     "rx_remaining r1 = 0 \<longleftrightarrow> p1 = []" "length chunk \<le> nat n"
proof -
  have live: "rx_inv r" "failed r = None" "\<not> closeReceived r" using p by (simp_all add: payload_at_def rx_live_def)
  obtain chunk dn r1 where r: "receiver_PayloadN n r = (Inr (chunk, dn), r1)" "rx_inv r1" "sim r r1 (map EvByte chunk)" "failed r1 = None"
    "dn \<longleftrightarrow> rx_remaining r1 = 0" "unat (rx_remaining r) = length chunk + unat (rx_remaining r1)"
    "Buffered (rx_dec r) = length chunk + Buffered (rx_dec r1)" "length chunk \<le> nat n" "dn \<or> nat n \<le> length chunk \<or> pending (rx_dec r1) = []"
    "rx_header r1 = rx_header r" "rx_compressed r1 = rx_compressed r" "closeReceived r1 = closeReceived r"
    "messageOpcode r1 = (if dn \<and> Final (rx_header r) then 0 else messageOpcode r)"
    using receiver_PayloadN_sim [OF live(1,2) rem, of n] by (elim exE conjE) (rule that)
  have l: "length p = length chunk + unat (rx_remaining r1)" using payload_at_length [OF p] r(6) by simp
  define p1 where "p1 = drop (length chunk) p"
  have f: "fut r b = (fst (fut r1 b), map EvByte chunk @ snd (fut r1 b))" by (rule fut_sim [OF r(3)])
  have ev: "map EvByte p @ es = map EvByte chunk @ snd (fut r1 b)" "fs = fst (fut r1 b)" using f p by (simp_all add: payload_at_def)
  have "take (length chunk) (map EvByte p @ es) = map EvByte chunk" unfolding ev(1) by simp
  then have "map EvByte (take (length chunk) p) = map EvByte chunk" using l by (simp add: take_map)
  then have "take (length chunk) p = chunk" using map_injective [of EvByte] by (simp add: inj_def)
  then have pc: "p = chunk @ p1" by (metis append_take_drop_id p1_def)
  then have "snd (fut r1 b) = map EvByte p1 @ es" using ev(1) by simp
  then have pa: "payload_at r1 b fs p1 es" using p r(2,4,12) ev(2) live(3) by (cases "fut r1 b") (auto simp: payload_at_def rx_live_def)
  have d: "dn = (p1 = [])" using payload_at_length [OF pa] r(5) by (auto simp: unat_eq_zero)
  have rz: "rx_remaining r1 = 0 \<longleftrightarrow> p1 = []" using r(5) d by simp
  have df: "drawn_from r r1" using r(10,11,13) rem by (simp add: drawn_from_def d rz)
  show ?thesis
    by (rule that [OF r(1) [unfolded d] pc pa r(7) r(9) [unfolded d] df rz r(8)])
qed

lemma Payload_between:
  assumes "payload_at r b fs p es" "rx_remaining r = 0"
  shows "receiver_PayloadN n r = (Inr ([], True), r)" "p = []" "drawn_from r r"
  using assms payload_at_length [OF assms(1)] by (auto simp: receiver_PayloadN_def payload_at_def rx_live_def drawn_from_def)

lemma payload_waits:
  assumes "payload_at r b fs p es" "rx_remaining r \<noteq> 0" "pending (rx_dec r) = []"
  shows "b \<noteq> []"
proof
  assume "b = []"
  then have "p = []" using assms(1) fut_stuck [OF stopped_empty [OF assms(3)]] by (simp add: payload_at_def)
  then show False using payload_at_length [OF assms(1)] assms(2) by (simp add: unat_eq_zero)
qed

lemma payload_fill:
  assumes p: "payload_at (c_rx c) b fs p es" "rx_remaining (c_rx c) \<noteq> 0" "pending (rx_dec (c_rx c)) = []" and b: "reads b rest (c_in c)" "0 < c_buf c"
  obtains c' b' where "conn_fill c = Some (None, c')" "same_read c c'" "c_w c' = c_w c" "rx_same (c_rx c) (c_rx c')" "reads b' rest (c_in c')"
    "payload_at (c_rx c') b' fs p es" "2 * length b' + Buffered (rx_dec (c_rx c')) < 2 * length b + Buffered (rx_dec (c_rx c))"
proof -
  have l: "rx_live (c_rx c)" using p(1) by (simp add: payload_at_def)
  obtain c' b' where "conn_fill c = Some (None, c')" "same_read c c'" "c_w c' = c_w c" "rx_live (c_rx c')" "rx_same (c_rx c) (c_rx c')"
     "reads b' rest (c_in c')" "fut (c_rx c') b' = fut (c_rx c) b" "2 * length b' + Buffered (rx_dec (c_rx c')) < 2 * length b + Buffered (rx_dec (c_rx c))"
    using conn_fill_ok [OF l stopped_empty [OF p(3)] b(1) payload_waits [OF p] b(2)] by (elim exE conjE) (rule that)
  then show ?thesis using p(1) by (intro that) (auto simp: payload_at_def)
qed

text \<open>Payload read from the transport past the read buffer.\<close>

lemma take_read_ok:
  assumes p: "payload_at (c_rx c) (d @ b) fs p es" "rx_remaining (c_rx c) \<noteq> 0" "pending (rx_dec (c_rx c)) = []" "d \<noteq> []"
  obtains chunk r1 p1 where "take_read E d c = (Inr chunk, c\<lparr>c_rx := r1\<rparr>)" "p = chunk @ p1" "chunk \<noteq> []" "payload_at r1 b fs p1 es"
    "Buffered (rx_dec r1) \<le> length d" "drawn_from (c_rx c) r1" "length chunk \<le> length d"
proof -
  let ?r = "receiver_Feed d (c_rx c)"
  have l: "rx_live (c_rx c)" using p(1) by (simp add: payload_at_def)
  note fd = rx_fed [OF l, of d]
  have pa: "payload_at ?r b fs p es" using p(1) fut_Feed [OF stopped_empty [OF p(3)], of d b] fd(1) by (simp add: payload_at_def)
  have rem: "rx_remaining ?r \<noteq> 0" using fd(2) p(2) by (simp add: rx_same_def)
  obtain chunk r1 p1 where r: "receiver_PayloadN (int (length d)) ?r = (Inr (chunk, p1 = []), r1)" "p = chunk @ p1" "payload_at r1 b fs p1 es"
     "Buffered (rx_dec ?r) = length chunk + Buffered (rx_dec r1)" "p1 = [] \<or> nat (int (length d)) \<le> length chunk \<or> pending (rx_dec r1) = []" "drawn_from ?r r1"
     "length chunk \<le> nat (int (length d))"
    by (rule Payload_open [OF pa rem, of "int (length d)"]) (rule that; assumption)
  have "Buffered (rx_dec ?r) = length d" using fd(3) p(3) by (simp add: Buffered_def)
  moreover have "chunk \<noteq> []"
  proof
    assume c: "chunk = []"
    then have "p1 \<noteq> []" using r(2) payload_at_length [OF pa] rem by (auto simp: unat_eq_zero)
    with r(4,5) c p(4) calculation show False by (simp add: Buffered_def)
  qed
  moreover have "drawn_from (c_rx c) r1" using r(6) fd(2) by (simp add: drawn_from_def rx_same_def)
  ultimately show ?thesis using r by (intro that [of chunk r1 p1]) (auto simp: take_read_def)
qed

lemma readInto_ok:
  assumes p: "payload_at (c_rx c) b fs p es" "rx_remaining (c_rx c) \<noteq> 0" "pending (rx_dec (c_rx c)) = []" and b: "reads b rest (c_in c)"
    and m: "pools_ok (c_bufs c)" "c_msg c = None \<longrightarrow> fst msg = []" "0 < n"
  obtains chunk cap c' b' p1 where "readInto E msg n c = Some (Inr (fst msg @ chunk, cap), c')" "p = chunk @ p1" "payload_at (c_rx c') b' fs p1 es"
    "chunk \<noteq> []" "same_conn c c'" "c_w c' = c_w c" "pools_ok (c_bufs c')" "c_msg c' \<noteq> None" "reads b' rest (c_in c')" "drawn_from (c_rx c) (c_rx c')"
    "2 * length b' + Buffered (rx_dec (c_rx c')) < 2 * length b + Buffered (rx_dec (c_rx c))"
proof -
  have n: "0 \<le> n" using m(3) by simp
  obtain cap c1 where g: "growMsg E msg n c = Some ((fst msg, cap), c1)" "int (length (fst msg)) + n \<le> int cap" "pools_ok (c_bufs c1)" "same_io c c1" "c_msg c1 \<noteq> None"
    using growMsg_ok [OF m(1) n m(2), of E] by (elim exE conjE) (rule that)
  have s: "c_rx c1 = c_rx c" "c_in c1 = c_in c" "c_w c1 = c_w c" "same_conn c c1" using g(4) by (simp_all add: same_io_def)
  have b1: "reads b rest (c_in c1)" "0 < nat n" using b s(2) m(3) by simp_all
  obtain d b' s' where r: "conn_read (nat n) c1 = Some (Inr d, c1\<lparr>c_in := s'\<rparr>)" "d \<noteq> []" "length d \<le> nat n" "b = d @ b'" "reads b' rest s'"
    using conn_read_ok [OF b1(1) payload_waits [OF p] b1(2)] by (elim exE conjE) (rule that)
  have q: "payload_at (c_rx (c1\<lparr>c_in := s'\<rparr>)) (d @ b') fs p es" "rx_remaining (c_rx (c1\<lparr>c_in := s'\<rparr>)) \<noteq> 0" "pending (rx_dec (c_rx (c1\<lparr>c_in := s'\<rparr>))) = []"
    using p r(4) s(1) by simp_all
  obtain chunk r1 p1 where t: "take_read E d (c1\<lparr>c_in := s'\<rparr>) = (Inr chunk, c1\<lparr>c_in := s', c_rx := r1\<rparr>)" "p = chunk @ p1" "chunk \<noteq> []"
    "payload_at r1 b' fs p1 es" "Buffered (rx_dec r1) \<le> length d" "drawn_from (c_rx (c1\<lparr>c_in := s'\<rparr>)) r1"
    by (rule take_read_ok [OF q r(2), of E]) (rule that; simp)
  have "\<not> (n < 0 \<or> int (length (fst msg)) + n > int cap)" using g(2) n by linarith
  then have "readInto E msg n c = Some (Inr (fst msg @ chunk, cap), c1\<lparr>c_in := s', c_rx := r1\<rparr>)"
    using g(1) r(1) t(1) by (simp add: readInto_def)
  moreover have "2 * length b' + Buffered (rx_dec r1) < 2 * length b + Buffered (rx_dec (c_rx c))" using t(5) r(2,4) by (cases d) auto
  ultimately show ?thesis using t(2-4,6) g(3,5) s r(5)
    by (intro that [of chunk cap "c1\<lparr>c_in := s', c_rx := r1\<rparr>" p1 b']) (auto simp: same_conn_def)
qed

section \<open>Gathering a frame\<close>

lemma Remaining_int_small: "unat (rx_remaining r) < 2 ^ 63 \<Longrightarrow> Remaining_int r = int (unat (rx_remaining r))"
proof -
  assume "unat (rx_remaining r) < 2 ^ 63"
  then have "int (unat (rx_remaining r)) < int (2 ^ 63)" by (simp only: of_nat_less_iff)
  then have b: "uint (rx_remaining r) < 2 ^ 63" by (simp only: uint_nat of_nat_power of_nat_numeral)
  have a: "- (2 ^ 63) \<le> uint (rx_remaining r)" by (rule order_trans [OF _ uint_ge_0]) simp
  have "signed_take_bit 63 (uint (rx_remaining r)) = uint (rx_remaining r)" by (rule signed_take_bit_int_eq_self [OF a b])
  then show ?thesis by (simp add: Remaining_int_def sint_uint)
qed

definition gathered_is :: "slice \<Rightarrow> bytes \<Rightarrow> gathered \<Rightarrow> ('w, 'r) conn \<Rightarrow> bool" where
  "gathered_is msg p g c \<longleftrightarrow>
     (case g of Borrowed ch \<Rightarrow> fst msg = [] \<and> ch = p \<and> \<not> MessageOpen (c_rx c) | Gathered m \<Rightarrow> fst m = fst msg @ p \<and> c_msg c \<noteq> None)"

text \<open>What gathering the rest \<open>p\<close> of a frame leaves.\<close>

definition frame_done :: "('w, 'r) conn \<Rightarrow> ('w, 'r) conn \<Rightarrow> astate \<Rightarrow> event list \<Rightarrow> rdev list \<Rightarrow> bool" where
  "frame_done c c' fs es rest \<longleftrightarrow> (\<exists>b'. payload_at (c_rx c') b' fs [] es \<and> reads b' rest (c_in c')) \<and> same_conn c c' \<and> c_w c' = c_w c
     \<and> pools_ok (c_bufs c') \<and> drawn_from (c_rx c) (c_rx c') \<and> rx_remaining (c_rx c') = 0"

lemma frame_done_step:
  assumes "frame_done c1 c' fs es rest" "same_conn c c1" "c_w c1 = c_w c" "drawn_from (c_rx c) (c_rx c1)" "rx_remaining (c_rx c) \<noteq> 0"
  shows "frame_done c c' fs es rest"
  using assms drawn_from_trans [of "c_rx c" "c_rx c1" "c_rx c'"] same_conn_trans [of c c1 c'] by (auto simp: frame_done_def)

lemma finish_frame:
  assumes P: "receiver_Payload (c_rx c) = (Inr (chunk, True), rx)" and c: "payload_at rx b fs [] es" "reads b rest (c_in c)" "pools_ok (c_bufs c)"
      "c_msg c = None \<longrightarrow> fst msg = []" "drawn_from (c_rx c) rx" "rx_remaining rx = 0"
  shows "\<exists>g c'. assemble_frame E msg c = Some (Inr g, c') \<and> gathered_is msg chunk g c' \<and> frame_done c c' fs es rest"
proof (cases "length (fst msg) = 0 \<and> \<not> MessageOpen rx")
  case True
  then have "assemble_frame E msg c = Some (Inr (Borrowed chunk), c\<lparr>c_rx := rx, c_msgHint := 0\<rparr>)" using P by (subst assemble_frame.simps) simp
  with True c show ?thesis by (auto simp: gathered_is_def frame_done_def same_conn_def)
next
  case False
  have "0 \<le> Remaining_int rx" by (simp add: Remaining_int_def c(6))
  then obtain cap c' where a: "appendMsg E msg chunk (c\<lparr>c_rx := rx\<rparr>) = Some ((fst msg @ chunk, cap), c')" "pools_ok (c_bufs c')" "same_io (c\<lparr>c_rx := rx\<rparr>) c'" "c_msg c' \<noteq> None"
    using appendMsg_ok [of "c\<lparr>c_rx := rx\<rparr>" msg E chunk] c by auto
  have "assemble_frame E msg c = Some (Inr (Gathered (fst msg @ chunk, cap)), c')" using P False a(1) by (subst assemble_frame.simps) simp
  with a c show ?thesis by (auto simp: gathered_is_def frame_done_def same_io_def same_conn_def)
qed

lemma gathered_more: "gathered_is (fst msg @ x, cap) y g c \<Longrightarrow> x \<noteq> [] \<Longrightarrow> gathered_is msg (x @ y) g c"
  by (auto simp: gathered_is_def split: gathered.splits)

lemma assemble_frame_ok:
  assumes "payload_at (c_rx c) b fs p es" "reads b rest (c_in c)" "0 < c_buf c" "pools_ok (c_bufs c)" "c_msg c = None \<longrightarrow> fst msg = []" "length p < 2 ^ 63"
  shows "\<exists>g c'. assemble_frame E msg c = Some (Inr g, c') \<and> gathered_is msg p g c' \<and> frame_done c c' fs es rest"
  using assms
proof (induction "2 * length b + Buffered (rx_dec (c_rx c))" arbitrary: c b p msg rule: less_induct)
  case less
  note pa = less.prems(1) and rd = less.prems(2) and buf = less.prems(3) and pk = less.prems(4) and cm = less.prems(5) and big = less.prems(6)
  show ?case
  proof (cases "rx_remaining (c_rx c) = 0")
    case True
    note z = Payload_between [OF pa True]
    have P: "receiver_Payload (c_rx c) = (Inr ([], True), c_rx c)" using z(1) by (simp add: receiver_Payload_def)
    show ?thesis using finish_frame [OF P pa [unfolded z(2)] rd pk cm z(3) True] z(2) by simp
  next
    case rem: False
    let ?n = "int (Buffered (rx_dec (c_rx c)))"
    obtain chunk r1 p1 where r: "receiver_PayloadN ?n (c_rx c) = (Inr (chunk, p1 = []), r1)" "p = chunk @ p1" "payload_at r1 b fs p1 es"
       "Buffered (rx_dec (c_rx c)) = length chunk + Buffered (rx_dec r1)" "p1 = [] \<or> nat ?n \<le> length chunk \<or> pending (rx_dec r1) = []" "drawn_from (c_rx c) r1"
       "rx_remaining r1 = 0 \<longleftrightarrow> p1 = []" "length chunk \<le> nat ?n"
      by (rule Payload_open [OF pa rem, of ?n])
    have P: "receiver_Payload (c_rx c) = (Inr (chunk, p1 = []), r1)" using r(1) by (simp add: receiver_Payload_def)
    show ?thesis
    proof (cases "p1 = []")
      case True
      with finish_frame [of c chunk r1 b fs es rest msg E] P r rd pk cm show ?thesis by simp
    next
      case more: False
      have pend: "pending (rx_dec r1) = []" using r(4) r(5) [unfolded nat_int] more by (auto simp: Buffered_def)
      have rem1: "rx_remaining r1 \<noteq> 0" using r(7) more by simp
      let ?c = "c\<lparr>c_rx := r1\<rparr>"
      have l1: "length p1 < 2 ^ 63" using big r(2) by simp
      then have "Remaining_int r1 = int (length p1)" unfolding payload_at_length [OF r(3)] by (rule Remaining_int_small)
      then have ri: "0 < Remaining_int r1" using more by simp
      show ?thesis
      proof (cases "chunk = []")
        case False
        obtain cap c1 where a: "appendMsg E msg chunk ?c = Some ((fst msg @ chunk, cap), c1)" "pools_ok (c_bufs c1)" "same_io ?c c1" "c_msg c1 \<noteq> None"
          using appendMsg_ok [of ?c msg E chunk] pk cm ri by auto
        have s: "same_conn c c1" "c_w c1 = c_w c" "c_rx c1 = r1" "c_in c1 = c_in c" using a(3) by (simp_all add: same_io_def same_conn_def)
        have e: "assemble_frame E msg c = assemble_frame E (fst msg @ chunk, cap) c1"
          using P a(1) more False by (subst assemble_frame.simps) simp
        have lt: "2 * length b + Buffered (rx_dec (c_rx c1)) < 2 * length b + Buffered (rx_dec (c_rx c))" using r(4) s(3) False by (cases chunk) auto
        have q: "payload_at (c_rx c1) b fs p1 es" "reads b rest (c_in c1)" "0 < c_buf c1" using r(3) s rd buf by (simp_all add: same_conn_def)
        have nm: "c_msg c1 = None \<longrightarrow> fst (fst msg @ chunk, cap) = []" using a(4) by auto
        obtain g c' where g: "assemble_frame E (fst msg @ chunk, cap) c1 = Some (Inr g, c')" "gathered_is (fst msg @ chunk, cap) p1 g c'" "frame_done c1 c' fs es rest"
          using less.hyps [OF lt q a(2) nm l1] by (elim exE conjE) (rule that)
        show ?thesis unfolding e r(2)
          using g(1) gathered_more [OF g(2) False] frame_done_step [OF g(3) s(1,2) r(6) [folded s(3)] rem] by blast
      next
        case True
        show ?thesis
        proof (cases "rx_remaining r1 \<ge> of_nat (c_buf c)")
          case big: True
          have q: "payload_at (c_rx ?c) b fs p1 es" "rx_remaining (c_rx ?c) \<noteq> 0" "pending (rx_dec (c_rx ?c)) = []" "reads b rest (c_in ?c)"
             "pools_ok (c_bufs ?c)" "c_msg ?c = None \<longrightarrow> fst msg = []" using r(3) rem1 pend rd pk cm by simp_all
          obtain ch cap c1 b1 p2 where a: "readInto E msg (Remaining_int r1) ?c = Some (Inr (fst msg @ ch, cap), c1)" "p1 = ch @ p2" "payload_at (c_rx c1) b1 fs p2 es"
             "ch \<noteq> []" "same_conn ?c c1" "c_w c1 = c_w ?c" "pools_ok (c_bufs c1)" "c_msg c1 \<noteq> None" "reads b1 rest (c_in c1)" "drawn_from (c_rx ?c) (c_rx c1)"
             "2 * length b1 + Buffered (rx_dec (c_rx c1)) < 2 * length b + Buffered (rx_dec (c_rx ?c))"
            by (rule readInto_ok [OF q ri, of E])
          have e: "assemble_frame E msg c = assemble_frame E (fst msg @ ch, cap) c1"
            using P a(1) more True big by (subst assemble_frame.simps) simp
          have s: "same_conn c c1" "c_w c1 = c_w c" "0 < c_buf c1" using a(5,6) buf by (simp_all add: same_conn_def)
          have lt: "2 * length b1 + Buffered (rx_dec (c_rx c1)) < 2 * length b + Buffered (rx_dec (c_rx c))" using a(11) r(4) by simp
          have l2: "length p2 < 2 ^ 63" using l1 a(2) by simp
          have nm: "c_msg c1 = None \<longrightarrow> fst (fst msg @ ch, cap) = []" using a(8) by auto
          obtain g c' where g: "assemble_frame E (fst msg @ ch, cap) c1 = Some (Inr g, c')" "gathered_is (fst msg @ ch, cap) p2 g c'" "frame_done c1 c' fs es rest"
            using less.hyps [OF lt a(3,9) s(3) a(7) nm l2] by (elim exE conjE) (rule that)
          have df: "drawn_from (c_rx c) (c_rx c1)" using r(6) a(10) drawn_from_trans [of "c_rx c" r1 "c_rx c1"] rem rem1 by simp
          have p: "p = ch @ p2" using r(2) True a(2) by simp
          show ?thesis unfolding e p using g(1) gathered_more [OF g(2) a(4)] frame_done_step [OF g(3) s(1,2) df rem] by blast
        next
          case small: False
          have q: "payload_at (c_rx ?c) b fs p1 es" "rx_remaining (c_rx ?c) \<noteq> 0" "pending (rx_dec (c_rx ?c)) = []" "reads b rest (c_in ?c)" "0 < c_buf ?c"
            using r(3) rem1 pend rd buf by simp_all
          obtain c1 b1 where a: "conn_fill ?c = Some (None, c1)" "same_read ?c c1" "c_w c1 = c_w ?c" "rx_same (c_rx ?c) (c_rx c1)" "reads b1 rest (c_in c1)"
            "payload_at (c_rx c1) b1 fs p1 es" "2 * length b1 + Buffered (rx_dec (c_rx c1)) < 2 * length b + Buffered (rx_dec (c_rx ?c))"
            by (rule payload_fill [OF q])
          have e: "assemble_frame E msg c = assemble_frame E msg c1"
            using P a(1) more True small by (subst assemble_frame.simps) simp
          note sd = same_readD [OF a(2)]
          have s: "same_conn c c1" "c_w c1 = c_w c" "0 < c_buf c1" "pools_ok (c_bufs c1)" "c_msg c1 = None \<longrightarrow> fst msg = []"
            using a(3) sd buf pk cm by (simp_all add: same_conn_def)
          have lt: "2 * length b1 + Buffered (rx_dec (c_rx c1)) < 2 * length b + Buffered (rx_dec (c_rx c))" using a(7) r(4) by simp
          obtain g c' where g: "assemble_frame E msg c1 = Some (Inr g, c')" "gathered_is msg p1 g c'" "frame_done c1 c' fs es rest"
            using less.hyps [OF lt a(6,5) s(3-5) l1] by blast
          have "drawn_from (c_rx c) (c_rx c1)" using r(6) a(4) by (simp add: drawn_from_def rx_same_def)
          with g frame_done_step [OF g(3) s(1,2) _ rem] show ?thesis unfolding e using r(2) True by simp
        qed
      qed
    qed
  qed
qed

section \<open>Gathering a message\<close>

text \<open>The continuation frames of a message, each after some control frames.\<close>

fun tail_evs :: "((opcode \<times> bytes) list \<times> bytes) list \<Rightarrow> event list" where
  "tail_evs [] = []"
| "tail_evs ((cs, p) # ms) = map ctl_ev cs @ EvFrame Continuation (ms = []) False # map EvByte p @ tail_evs ms"

definition quiet :: "((opcode \<times> bytes) list \<times> bytes) list \<Rightarrow> bool" where
  "quiet ms \<longleftrightarrow> list_all (\<lambda>(cs, p). list_all pingpong cs) ms"

lemma tail_no_byte: "\<not> leads_byte es \<Longrightarrow> \<not> leads_byte (tail_evs ms @ es)"
proof (cases ms)
  case (Cons x xs)
  then show ?thesis by (cases x; cases "fst x") (auto elim: ctl_ev.elims)
qed simp

definition at_frame :: "receiver \<Rightarrow> bool \<Rightarrow> bool" where
  "at_frame r fin \<longleftrightarrow> Final (rx_header r) = fin \<and> rx_remaining r = PayloadLen (rx_header r) \<and> (messageOpcode r = 0 \<longleftrightarrow> rx_remaining r = 0 \<and> fin)"

definition msg_done :: "('w wconn \<Rightarrow> bool) \<Rightarrow> ('w, 'r) conn \<Rightarrow> ('w, 'r) conn \<Rightarrow> astate \<Rightarrow> event list \<Rightarrow> rdev list \<Rightarrow> bool" where
  "msg_done Q c c' fs es rest \<longleftrightarrow> (\<exists>b. reads b rest (c_in c') \<and> fut (c_rx c') b = (fs, es)) \<and> rx_live (c_rx c') \<and> rx_remaining (c_rx c') = 0
     \<and> messageOpcode (c_rx c') = 0 \<and> rx_compressed (c_rx c') = rx_compressed (c_rx c) \<and> same_conn c c' \<and> pools_ok (c_bufs c') \<and> Q (c_w c')"

lemma too_long_word:
  assumes "0 \<le> k" "k < 2 ^ 63"
  shows "(w :: u64) > of_int k \<longleftrightarrow> int (unat w) > k"
proof -
  have "unat (of_int k :: u64) = nat k" using assms by (simp add: unat_eq_nat_uint uint_word_of_int)
  then show ?thesis using assms(1) by (auto simp: word_less_nat_alt nat_less_iff)
qed

lemma handler_same: "same_conn c c' \<Longrightarrow> handler_of E c' = handler_of E c"
  by (simp add: same_conn_def handler_of_def)

definition too_large :: "('w, 'r) renv \<Rightarrow> ('w wconn \<Rightarrow> bool) \<Rightarrow> ('w, 'r) conn \<Rightarrow> ((go_error + bytes) \<times> ('w, 'r) conn) option \<Rightarrow> bool" where
  "too_large E Q c res \<longleftrightarrow> (\<exists>c1. res = Some (Inl (Error 1009 ErrMessageTooLarge), conn_fail E (Error 1009 ErrMessageTooLarge) c1) \<and> Q (c_w c1) \<and> same_conn c c1)"

definition assembled ::
    "('w, 'r) renv \<Rightarrow> ('w wconn \<Rightarrow> bool) \<Rightarrow> ('w, 'r) conn \<Rightarrow> astate \<Rightarrow> event list \<Rightarrow> rdev list \<Rightarrow> bytes \<Rightarrow> ((go_error + bytes) \<times> ('w, 'r) conn) option \<Rightarrow> bool" where
  "assembled E Q c fs es rest payload res \<longleftrightarrow>
     (if int (length payload) \<le> c_limit c then \<exists>c'. res = Some (Inr payload, c') \<and> msg_done Q c c' fs es rest else too_large E Q c res)"

lemma assemble_step:
  assumes pa: "payload_at (c_rx c) b fs p evs" and at: "at_frame (c_rx c) fin" and rd: "reads b rest (c_in c)" "0 < c_buf c" "pools_ok (c_bufs c)"
      "c_msg c = None \<longrightarrow> fst msg = []" and lim: "int (length (fst msg)) \<le> c_limit c" "c_limit c < 2 ^ 63"
  shows "int (length (fst msg @ p)) > c_limit c \<Longrightarrow> assemble_loop E msg c = Some (Inl (Error 1009 ErrMessageTooLarge), conn_fail E (Error 1009 ErrMessageTooLarge) c)"
    and "int (length (fst msg @ p)) \<le> c_limit c \<Longrightarrow> \<exists>g c'. assemble_frame E msg c = Some (Inr g, c') \<and> gathered_is msg p g c' \<and> frame_done c c' fs evs rest
      \<and> (messageOpcode (c_rx c') = 0 \<longleftrightarrow> fin)
      \<and> assemble_loop E msg c =
         (case g of
            Borrowed chunk \<Rightarrow> Some (Inr chunk, c')
          | Gathered msg \<Rightarrow>
             (if \<not> MessageOpen (c_rx c') then Some (Inr (fst msg), c'\<lparr>c_msgHint := int (length (fst msg))\<rparr>)
              else case nextFrame E c' of
                     None \<Rightarrow> None
                   | Some (err, c) \<Rightarrow> (case err of Some e \<Rightarrow> Some (Inl e, c) | None \<Rightarrow> assemble_loop E msg c)))"
proof -
  let ?k = "c_limit c - int (length (fst msg))"
  have l: "unat (PayloadLen (rx_header (c_rx c))) = length p" using payload_at_length [OF pa] at by (simp add: at_frame_def)
  have w: "PayloadLen (rx_header (c_rx c)) > of_int ?k \<longleftrightarrow> int (length p) > ?k"
    unfolding l [symmetric] by (rule too_long_word) (use lim in simp_all)
  show "int (length (fst msg @ p)) > c_limit c \<Longrightarrow> assemble_loop E msg c = Some (Inl (Error 1009 ErrMessageTooLarge), conn_fail E (Error 1009 ErrMessageTooLarge) c)"
    using w by (subst assemble_loop.simps) simp
  assume fits: "int (length (fst msg @ p)) \<le> c_limit c"
  then have pl: "length p < 2 ^ 63" using lim(2) by simp
  obtain g c' where g: "assemble_frame E msg c = Some (Inr g, c')" "gathered_is msg p g c'" "frame_done c c' fs evs rest"
    using assemble_frame_ok [OF pa rd pl, of E] by (elim exE conjE) (rule that)
  have "\<not> PayloadLen (rx_header (c_rx c)) > of_int ?k" using w fits by simp
  moreover have "messageOpcode (c_rx c') = 0 \<longleftrightarrow> fin" using g(3) at by (auto simp: frame_done_def drawn_from_def at_frame_def)
  ultimately show "\<exists>g c'. assemble_frame E msg c = Some (Inr g, c') \<and> gathered_is msg p g c' \<and> frame_done c c' fs evs rest
      \<and> (messageOpcode (c_rx c') = 0 \<longleftrightarrow> fin)
      \<and> assemble_loop E msg c =
         (case g of
            Borrowed chunk \<Rightarrow> Some (Inr chunk, c')
          | Gathered msg \<Rightarrow>
             (if \<not> MessageOpen (c_rx c') then Some (Inr (fst msg), c'\<lparr>c_msgHint := int (length (fst msg))\<rparr>)
              else case nextFrame E c' of
                     None \<Rightarrow> None
                   | Some (err, c) \<Rightarrow> (case err of Some e \<Rightarrow> Some (Inl e, c) | None \<Rightarrow> assemble_loop E msg c)))"
    using g by (intro exI [of _ g] exI [of _ c']) (subst assemble_loop.simps, simp)
qed

lemma frame_is_message:
  assumes "frame_done c c' fs es rest" "messageOpcode (c_rx c') = 0" "Q (c_w c)"
  shows "msg_done Q c c' fs es rest" "msg_done Q c (c'\<lparr>c_msgHint := n\<rparr>) fs es rest"
  using assms by (auto simp: frame_done_def msg_done_def payload_at_def drawn_from_def same_conn_def)

text \<open>The next frame of a message.\<close>

lemma next_fragment:
  assumes fd: "frame_done c c' fs (tail_evs ((cs, q) # ms) @ es) rest" and Q: "answers (handler_of E c) Q" "Q (c_w c)" "0 < c_buf c"
    and op: "messageOpcode (c_rx c') \<noteq> 0" and pp: "list_all pingpong cs" and es: "\<not> leads_byte es" "es = [] \<longrightarrow> \<not> in_data fs"
  obtains c2 b2 where "nextFrame E c' = Some (None, c2)" "Q (c_w c2)" "payload_at (c_rx c2) b2 fs q (tail_evs ms @ es)" "at_frame (c_rx c2) (ms = [])"
    "reads b2 rest (c_in c2)" "same_read c' c2" "same_conn c c2" "pools_ok (c_bufs c2)" "rx_compressed (c_rx c2) = rx_compressed (c_rx c)"
proof -
  obtain b' where f: "payload_at (c_rx c') b' fs [] (tail_evs ((cs, q) # ms) @ es)" "reads b' rest (c_in c')" "same_conn c c'" "c_w c' = c_w c" "pools_ok (c_bufs c')"
    "drawn_from (c_rx c) (c_rx c')" "rx_remaining (c_rx c') = 0"
    using fd unfolding frame_done_def by blast
  let ?evs = "EvFrame Continuation (ms = []) False # map EvByte q @ tail_evs ms @ es"
  have fu: "fut (c_rx c') b' = (fs, map ctl_ev cs @ ?evs)" using f(1) by (simp add: payload_at_def)
  have pr: "answers (handler_of E c') Q" "rx_live (c_rx c')" "0 < c_buf c'" "Q (c_w c')"
    using f Q handler_same [OF f(3), of E] by (simp_all add: payload_at_def same_conn_def)
  have "frame_outcome E Q c' fs rest ?evs (nextFrame E c')"
    by (rule nextFrame_ok [OF pr(1,2) f(7,2) pr(3,4) fu pp]) simp_all
  then obtain c2 b2 where n: "same_read c' c2" "Q (c_w c2)" "nextFrame E c' = Some (None, c2)" "rx_live (c_rx c2)" "reads b2 rest (c_in c2)"
    "fut (c_rx c2) b2 = (fs, map EvByte q @ tail_evs ms @ es)" "frame_at (c_rx c') Continuation (ms = []) False (c_rx c2)"
    unfolding frame_outcome_def by auto
  show ?thesis
  proof (rule that [OF n(3,2) _ _ n(5,1)])
    show "payload_at (c_rx c2) b2 fs q (tail_evs ms @ es)" using n(4,6) tail_no_byte [OF es(1)] es(2) by (auto simp: payload_at_def)
    show "at_frame (c_rx c2) (ms = [])" using n(7) op by (auto simp: at_frame_def frame_at_def)
    show "same_conn c c2" using same_conn_trans [OF f(3) same_read_conn [OF n(1)]] .
    show "pools_ok (c_bufs c2)" using f(5) same_readD [OF n(1)] by simp
    show "rx_compressed (c_rx c2) = rx_compressed (c_rx c)" using n(7) f(6) by (simp add: frame_at_def drawn_from_def)
  qed
qed

lemma assembled_step:
  assumes "assembled E Q c2 fs es rest payload res" "same_conn c c2" "rx_compressed (c_rx c2) = rx_compressed (c_rx c)"
  shows "assembled E Q c fs es rest payload res"
proof -
  have l: "c_limit c2 = c_limit c" using assms(2) by (simp add: same_conn_def)
  show ?thesis
    using assms(1,3) same_conn_trans [OF assms(2)] unfolding assembled_def l too_large_def msg_done_def by (auto split: if_splits)
qed

lemma assemble_loop_ok:
  assumes "answers (handler_of E c) Q" "Q (c_w c)" "payload_at (c_rx c) b fs p (tail_evs ms @ es)" "at_frame (c_rx c) (ms = [])" "reads b rest (c_in c)"
    "0 < c_buf c" "pools_ok (c_bufs c)" "c_msg c = None \<longrightarrow> fst msg = []" "int (length (fst msg)) \<le> c_limit c" "c_limit c < 2 ^ 63" "quiet ms"
    "\<not> leads_byte es" "es = [] \<longrightarrow> \<not> in_data fs"
  shows "assembled E Q c fs es rest (fst msg @ p @ concat (map snd ms)) (assemble_loop E msg c)"
  using assms
proof (induction ms arbitrary: c b p msg)
  case Nil
  note st = assemble_step [OF Nil.prems(3-10), of E]
  show ?case
  proof (cases "int (length (fst msg @ p)) \<le> c_limit c")
    case False
    then show ?thesis using st(1) Nil.prems(2) by (auto simp: assembled_def too_large_def)
  next
    case True
    then obtain g c' where g: "gathered_is msg p g c'" "frame_done c c' fs es rest" "messageOpcode (c_rx c') = 0"
      "assemble_loop E msg c = (case g of Borrowed chunk \<Rightarrow> Some (Inr chunk, c') | Gathered msg \<Rightarrow> Some (Inr (fst msg), c'\<lparr>c_msgHint := int (length (fst msg))\<rparr>))"
      using st(2) by (auto simp: MessageOpen_def split: gathered.split)
    show ?thesis
      using True g(1,4) frame_is_message [where Q = Q, OF g(2,3) Nil.prems(2)] by (cases g) (auto simp: assembled_def gathered_is_def)
  qed
next
  case (Cons m ms)
  obtain cs q where m: "m = (cs, q)" by (cases m)
  have pp: "list_all pingpong cs" "quiet ms" using Cons.prems(11) m by (simp_all add: quiet_def)
  note st = assemble_step [OF Cons.prems(3-10), of E]
  show ?case
  proof (cases "int (length (fst msg @ p)) \<le> c_limit c")
    case False
    then show ?thesis using st(1) Cons.prems(2) by (auto simp: assembled_def too_large_def)
  next
    case True
    then obtain g c' where g: "gathered_is msg p g c'" "frame_done c c' fs (tail_evs ((cs, q) # ms) @ es) rest" "messageOpcode (c_rx c') \<noteq> 0"
      "assemble_loop E msg c = (case g of Borrowed chunk \<Rightarrow> Some (Inr chunk, c')
          | Gathered msg \<Rightarrow> (case nextFrame E c' of None \<Rightarrow> None | Some (err, c) \<Rightarrow> (case err of Some e \<Rightarrow> Some (Inl e, c) | None \<Rightarrow> assemble_loop E msg c)))"
      using st(2) m by (auto simp: MessageOpen_def split: gathered.split)
    obtain c2 b2 where n: "nextFrame E c' = Some (None, c2)" "Q (c_w c2)" "payload_at (c_rx c2) b2 fs q (tail_evs ms @ es)" "at_frame (c_rx c2) (ms = [])"
      "reads b2 rest (c_in c2)" "same_read c' c2" "same_conn c c2" "pools_ok (c_bufs c2)" "rx_compressed (c_rx c2) = rx_compressed (c_rx c)"
      by (rule next_fragment [OF g(2) Cons.prems(1,2,6) g(3) pp(1) Cons.prems(12,13)])
    obtain m1 where m1: "g = Gathered m1" "fst m1 = fst msg @ p" "c_msg c' \<noteq> None" using g(1,3) by (cases g) (auto simp: gathered_is_def MessageOpen_def)
    have e: "assemble_loop E msg c = assemble_loop E m1 c2" using g(4) m1(1) n(1) by simp
    have pr: "answers (handler_of E c2) Q" "0 < c_buf c2" "c_msg c2 = None \<longrightarrow> fst m1 = []" "int (length (fst m1)) \<le> c_limit c2" "c_limit c2 < 2 ^ 63"
      using Cons.prems(1,6,10) handler_same [OF n(7), of E] n(7) m1(2,3) same_readD [OF n(6)] True by (auto simp: same_conn_def)
    have "assembled E Q c2 fs es rest (fst m1 @ q @ concat (map snd ms)) (assemble_loop E m1 c2)"
      by (rule Cons.IH [OF pr(1) n(2-5) pr(2) n(8) pr(3-5) pp(2) Cons.prems(12,13)])
    from assembled_step [OF this n(7,9)] show ?thesis unfolding e using m m1(2) by simp
  qed
qed

end
