(* ===== verification/ConnRead_Thm.thy ===== *)
theory ConnRead_Thm
  imports ConnRead_Msg
begin

text \<open>
  Reading messages: what \<open>ReadMessage\<close> returns for every stream of frames, in terms of the
  receiver's automaton, the history window and the inflater.
\<close>

section \<open>Between messages\<close>

definition dec_ready :: "'r decompressor \<Rightarrow> bool" where
  "dec_ready d \<longleftrightarrow> dec_ok d \<and> idle d"

definition ready :: "('w, 'r) renv \<Rightarrow> ('w wconn \<Rightarrow> bool) \<Rightarrow> ('w, 'r) conn \<Rightarrow> bool" where
  "ready E Q c \<longleftrightarrow> rx_live (c_rx c) \<and> rx_remaining (c_rx c) = 0 \<and> messageOpcode (c_rx c) = 0 \<and> c_readErr c = None \<and> \<not> c_inMessage c
     \<and> 0 < c_buf c \<and> 0 \<le> c_limit c \<and> (c_limit c + 1) * (c_limit c + 9) < 2 ^ 58 \<and> pools_ok (c_bufs c)
     \<and> (\<forall>d. dc_dec (c_decomp c) = Some d \<longrightarrow> dec_ready d) \<and> list_all dec_ready (c_decPool c)
     \<and> Q (c_w c) \<and> answers (handler_of E c) Q"

text \<open>The receive history: the window's size and what it holds.\<close>

definition rx_size :: "('w, 'r) conn \<Rightarrow> nat" where
  "rx_size c = (case dc_window (c_decomp c) of Some w \<Rightarrow> Size w | None \<Rightarrow> windowSize)"

definition rx_dict :: "('w, 'r) conn \<Rightarrow> bytes" where
  "rx_dict c = dict (dc_window (c_decomp c))"

definition rx_takeover :: "('w, 'r) conn \<Rightarrow> bool" where
  "rx_takeover c \<longleftrightarrow> dc_window (c_decomp c) \<noteq> None"

definition same_setup :: "('w, 'r) conn \<Rightarrow> ('w, 'r) conn \<Rightarrow> bool" where
  "same_setup c c' \<longleftrightarrow> c_handler c' = c_handler c \<and> c_limit c' = c_limit c \<and> c_validateUTF8 c' = c_validateUTF8 c \<and> c_buf c' = c_buf c
     \<and> rx_size c' = rx_size c \<and> rx_takeover c' = rx_takeover c"

lemma dec_ready_zero [simp]: "dec_ready zero_decompressor"
  by (simp add: dec_ready_def dec_ok_def idle_def zero_decompressor_def zero_window_def Size_def windowSize_def)

lemma take_pick_ok: "take_pick pick xs = (v, ys) \<Longrightarrow> list_all P xs \<Longrightarrow> list_all P ys \<and> (\<forall>x. v = Some x \<longrightarrow> P x)"
  unfolding take_pick_def list_all_iff
  by (auto split: option.splits if_splits) (blast dest: in_set_takeD in_set_dropD)+

text \<open>Putting the decompressor back.\<close>

definition released :: "('w, 'r) conn \<Rightarrow> ('w, 'r) conn \<Rightarrow> bool" where
  "released c c' \<longleftrightarrow> c_rx c' = c_rx c \<and> c_in c' = c_in c \<and> c_w c' = c_w c \<and> c_readErr c' = c_readErr c \<and> c_inMessage c' = c_inMessage c
     \<and> dc_window (c_decomp c') = dc_window (c_decomp c) \<and> c_handler c' = c_handler c \<and> c_limit c' = c_limit c \<and> c_validateUTF8 c' = c_validateUTF8 c
     \<and> c_buf c' = c_buf c"

lemma Reset_idle:
  assumes "dec_ready (y_d y)"
  shows "\<exists>d. d_Reset E y = Some (y\<lparr>y_d := d\<rparr>) \<and> dec_ready d"
proof -
  have "idle (y_d y)" "Size (d_scratch (y_d y)) = windowSize" using assms by (simp_all add: dec_ready_def dec_ok_def)
  then show ?thesis by (auto simp: d_Reset_def finish_again dec_ready_def dec_ok_def idle_def)
qed

lemma ReleaseOutput_idle:
  assumes "dec_ready (y_d y)" "pools_ok (y_pools y)"
  shows "\<exists>d ps. ReleaseOutput E y = Some (y\<lparr>y_d := d, y_pools := ps\<rparr>) \<and> dec_ready d \<and> pools_ok ps"
proof -
  obtain d where d: "d_Reset E y = Some (y\<lparr>y_d := d\<rparr>)" "dec_ready d" using Reset_idle [OF assms(1)] by blast
  obtain p1 where p1: "buf_Put (d_outBuf d) (y\<lparr>y_d := d\<rparr>) = Some (y\<lparr>y_d := d, y_pools := p1\<rparr>)" "pools_ok p1"
    using buf_Put_ok [of "y\<lparr>y_d := d\<rparr>" "d_outBuf d"] assms(2) by auto
  obtain p2 where p2: "buf_Put (d_inBuf d) (y\<lparr>y_d := d, y_pools := p1\<rparr>) = Some (y\<lparr>y_d := d, y_pools := p2\<rparr>)" "pools_ok p2"
    using buf_Put_ok [of "y\<lparr>y_d := d, y_pools := p1\<rparr>" "d_inBuf d"] p1(2) by auto
  show ?thesis using d p1 p2
    by (intro exI [of _ "d\<lparr>d_output := [], d_outcap := 0, d_outBuf := None, d_in := [], d_incap := 0, d_inBuf := None\<rparr>"] exI [of _ p2])
       (simp add: ReleaseOutput_def dec_ready_def dec_ok_def idle_def)
qed

lemma releaseDecompressor_ok:
  assumes "\<forall>d. dc_dec (c_decomp c) = Some d \<longrightarrow> dec_ready d" "list_all dec_ready (c_decPool c)" "pools_ok (c_bufs c)"
  shows "\<exists>c'. releaseDecompressor E c = Some c' \<and> released c c' \<and> dc_dec (c_decomp c') = None \<and> list_all dec_ready (c_decPool c') \<and> pools_ok (c_bufs c')"
proof (cases "dc_dec (c_decomp c)")
  case None
  then show ?thesis using assms by (auto simp: releaseDecompressor_def released_def)
next
  case (Some d)
  let ?y = "enter_dec d c"
  have y: "dec_ready (y_d ?y)" "pools_ok (y_pools ?y)" using assms Some by (simp_all add: enter_dec_def)
  obtain d' ps where r: "(if dc_large (c_decomp c) then ReleaseOutput (re_d E) ?y else d_Reset (re_d E) ?y) = Some (?y\<lparr>y_d := d', y_pools := ps\<rparr>)" "dec_ready d'" "pools_ok ps"
  proof (cases "dc_large (c_decomp c)")
    case True
    then show ?thesis using ReleaseOutput_idle [OF y, of "re_d E"] that by auto
  next
    case False
    then show ?thesis using Reset_idle [OF y(1), of "re_d E"] y(2) that [where ps = "y_pools ?y"] by auto
  qed
  have "map_option (\<lambda>w. case dc_window (c_decomp c) of Some w \<Rightarrow> w | None \<Rightarrow> zero_window) (dc_window (c_decomp c)) = dc_window (c_decomp c)"
    by (cases "dc_window (c_decomp c)") simp_all
  then show ?thesis using Some r assms(2) by (auto simp: releaseDecompressor_def with_dec_def released_def leave_dec_def enter_dec_def)
qed

lemma NextMessage_ready:
  assumes "ready E Q c"
  obtains c0 where "ready E Q c0" "released c c0" "c_msg c0 = None"
    "NextMessage E c = (case nextFrame E c0 of None \<Rightarrow> None
       | Some (err, c) \<Rightarrow> Some (case err of Some e \<Rightarrow> (Inl e, c) | None \<Rightarrow> (Inr (Opcode (rx_header (c_rx c))), c\<lparr>c_inMessage := True\<rparr>)))"
proof -
  let ?c = "c\<lparr>c_decomp := (c_decomp c)\<lparr>dc_streaming := False\<rparr>\<rparr>"
  have r: "c_readErr c = None" "\<not> c_inMessage c" using assms by (simp_all add: ready_def)
  have d: "discard E c = Some (None, ?c)" using r(2) by (simp add: discard_def discard_plain.simps)
  obtain c1 where c1: "releaseDecompressor E ?c = Some c1" "released ?c c1" "dc_dec (c_decomp c1) = None" "list_all dec_ready (c_decPool c1)" "pools_ok (c_bufs c1)"
    using releaseDecompressor_ok [of ?c E] assms by (auto simp: ready_def)
  obtain c0 where c0: "releaseMsg c1 = Some c0" "pools_ok (c_bufs c0)" "same_io c1 c0" "c_msg c0 = None"
    using releaseMsg_ok [OF c1(5)] by blast
  have rel: "released c c0" using c1(2) c0(3) by (simp add: released_def same_io_def same_conn_def)
  have "ready E Q c0" using assms rel c1(3,4) c0(2,3) by (auto simp: ready_def released_def same_io_def same_conn_def handler_of_def)
  moreover have "NextMessage E c = (case nextFrame E c0 of None \<Rightarrow> None
       | Some (err, c) \<Rightarrow> Some (case err of Some e \<Rightarrow> (Inl e, c) | None \<Rightarrow> (Inr (Opcode (rx_header (c_rx c))), c\<lparr>c_inMessage := True\<rparr>)))"
    using r d c1(1) c0(1) by (simp add: NextMessage_def split: option.split)
  ultimately show ?thesis using that rel c0(4) by blast
qed

section \<open>Inflating\<close>

lemma conn_fail_readErr [simp]: "c_readErr (conn_fail E e c) = Some e"
  by (simp add: conn_fail_def set_terminal_def)

text \<open>What inflating a whole message leaves of the connection.\<close>

definition took_in :: "('w, 'r) conn \<Rightarrow> ('w, 'r) conn \<Rightarrow> bytes \<Rightarrow> bool" where
  "took_in c c' p \<longleftrightarrow> c_rx c' = c_rx c \<and> c_in c' = c_in c \<and> c_w c' = c_w c \<and> c_readErr c' = c_readErr c \<and> c_inMessage c' = c_inMessage c
     \<and> same_setup c c' \<and> rx_dict c' = (if rx_takeover c then lastn (rx_size c) (rx_dict c @ p) else [])
     \<and> (\<forall>d. dc_dec (c_decomp c') = Some d \<longrightarrow> dec_ready d) \<and> list_all dec_ready (c_decPool c') \<and> pools_ok (c_bufs c')"

definition inflated_to :: "stream \<Rightarrow> ('w, 'r) conn \<Rightarrow> bytes \<Rightarrow> go_error + bytes \<Rightarrow> ('w, 'r) conn \<Rightarrow> bool" where
  "inflated_to st c payload res c' \<longleftrightarrow>
    (case whole st (rx_size c) (rx_dict c) (payload @ inflateTail) of
       None \<Rightarrow> (\<exists>e\<in>{Error 1007 ErrInvalidData, Error 1009 ErrMessageTooLarge}. res = Inl e \<and> c_readErr c' = Some e)
     | Some p \<Rightarrow>
        if int (length p) \<le> c_limit c then res = Inr p \<and> took_in c c' p
        else res = Inl (Error 1009 ErrMessageTooLarge) \<and> c_readErr c' = Some (Error 1009 ErrMessageTooLarge))"

lemma acquireDecompressor_ok:
  assumes "\<forall>d. dc_dec (c_decomp c) = Some d \<longrightarrow> dec_ready d" "list_all dec_ready (c_decPool c)"
  obtains d c1 where "acquireDecompressor E c = c1" "dc_dec (c_decomp c1) = Some d" "dec_ready d" "list_all dec_ready (c_decPool c1)" "released c c1" "c_bufs c1 = c_bufs c"
proof (cases "dc_dec (c_decomp c)")
  case (Some d)
  then show ?thesis using assms that [of c d] by (simp add: acquireDecompressor_def released_def)
next
  case None
  obtain v pool where t: "take_pick (re_pick E (c_tick c)) (c_decPool c) = (v, pool)" by (cases "take_pick (re_pick E (c_tick c)) (c_decPool c)")
  define d where "d = (case v of Some d \<Rightarrow> d | None \<Rightarrow> zero_decompressor)"
  have dr: "dec_ready d" "list_all dec_ready pool" using take_pick_ok [OF t assms(2)] by (auto simp: d_def split: option.split)
  have "acquireDecompressor E c = c\<lparr>c_decPool := pool, c_tick := Suc (c_tick c), c_decomp := (c_decomp c)\<lparr>dc_dec := Some d\<rparr>\<rparr>"
    using None t by (simp add: acquireDecompressor_def d_def)
  from that [OF this _ dr(1)] dr(2) show ?thesis by (simp add: released_def)
qed

lemma decompress_ok:
  assumes fl: "inflater (dv_flate (re_d E)) I gone st" and c: "\<forall>d. dc_dec (c_decomp c) = Some d \<longrightarrow> dec_ready d" "list_all dec_ready (c_decPool c)" "pools_ok (c_bufs c)"
    and lim: "0 \<le> c_limit c" "(c_limit c + 1) * (int (length payload) + 9) < 2 ^ 58"
  shows "\<exists>res c'. decompress E payload c = Some (res, c') \<and> inflated_to st c payload res c'"
proof -
  obtain d c1 where c1: "acquireDecompressor E c = c1" "dc_dec (c_decomp c1) = Some d" "dec_ready d" "list_all dec_ready (c_decPool c1)" "released c c1" "c_bufs c1 = c_bufs c"
    by (rule acquireDecompressor_ok [OF c(1,2), of E])
  let ?y = "enter_dec d c1" and ?w = "rx_window c1"
  have wn: "dc_window (c_decomp c1) = dc_window (c_decomp c)" "c_limit c1 = c_limit c" using c1(5) by (simp_all add: released_def)
  have h: "hsize ?w ?y = rx_size c" "hdict ?w ?y = rx_dict c"
    unfolding hsize_def hdict_def rx_size_def rx_dict_def rx_window_def enter_dec_def wn by (auto split: option.split)
  have y: "\<not> d_active (y_d ?y)" "dec_ok (y_d ?y)" "pools_ok (y_pools ?y)" using c1(3,6) c(3) by (simp_all add: enter_dec_def dec_ready_def idle_def)
  obtain res y' where D: "Decompress (re_d E) (chunkSource E) payload (c_limit c) ?w ?y = Some (res, y')"
     "dec_result ?w (rx_dict c) (c_limit c) (whole st (rx_size c) (rx_dict c) (payload @ inflateTail)) res y'" "dec_frame ?w ?y y'" "dec_ok (y_d y')"
     "\<forall>p. res = Inr p \<longrightarrow> y_src y' = y_src ?y \<and> d_output (y_d y') = p"
    using Decompress_ok [OF fl y lim, of "chunkSource E" ?w, unfolded message_def h] by (elim exE conjE) (rule that)
  show ?thesis
  proof (cases res)
    case (Inl e)
    let ?err = "if e = Deflate ErrDecompressedTooLarge then Error 1009 ErrMessageTooLarge else Error 1007 ErrInvalidData"
    have "decompress E payload c = Some (Inl ?err, conn_fail E ?err (leave_dec y'))"
      using D(1) c1(1,2) wn(2) Inl by (simp add: decompress_def with_dec_def Let_def)
    then show ?thesis using D(2) Inl by (auto simp: inflated_to_def dec_result_def split: option.splits if_splits)
  next
    case (Inr p)
    let ?c = "leave_dec y'"
    let ?c' = "?c\<lparr>c_decomp := (c_decomp ?c)\<lparr>dc_large := int (length p) > poolKeep\<rparr>\<rparr>"
    have e: "decompress E payload c = Some (Inr p, ?c')" using D(1) c1(1,2) wn(2) Inr by (simp add: decompress_def with_dec_def Let_def)
    have s: "y_src y' = c1" using D(5) Inr by (simp add: enter_dec_def)
    have t: "whole st (rx_size c) (rx_dict c) (payload @ inflateTail) = Some p" "int (length p) \<le> c_limit c" "window_holds ?w (rx_dict c @ p) y'"
      using D(2) Inr by (auto simp: dec_result_def split: option.splits if_splits)
    have wd: "dict (dc_window (c_decomp ?c)) = (if rx_takeover c then lastn (rx_size c) (rx_dict c @ p) else [])"
        "(case dc_window (c_decomp ?c) of Some w \<Rightarrow> Size w | None \<Rightarrow> windowSize) = rx_size c"
        "(dc_window (c_decomp ?c) \<noteq> None) = rx_takeover c"
      using t(3) D(3) wn(1) s unfolding leave_dec_def rx_takeover_def rx_size_def window_holds_def rx_window_def dec_frame_def
      by (cases "dc_window (c_decomp c)"; simp add: enter_dec_def)+
    have "took_in c ?c' p"
      using s c1(4,5) D(3,4) wd
      by (auto simp: took_in_def same_setup_def released_def leave_dec_def dec_frame_def dec_ready_def rx_dict_def rx_size_def rx_takeover_def)
    with e t(1,2) show ?thesis by (auto simp: inflated_to_def)
  qed
qed

section \<open>Whole messages\<close>

text \<open>What \<open>ReadMessage\<close> must return for a message of \<open>payload\<close> bytes.\<close>

definition message_answer :: "stream \<Rightarrow> ('w, 'r) conn \<Rightarrow> opcode \<Rightarrow> bool \<Rightarrow> bytes \<Rightarrow> go_error + opcode \<times> bytes \<Rightarrow> bool" where
  "message_answer st c op cmpd payload res \<longleftrightarrow>
    (if int (length payload) > c_limit c then res = Inl (Error 1009 ErrMessageTooLarge)
     else
       (case (if cmpd then whole st (rx_size c) (rx_dict c) (payload @ inflateTail) else Some payload) of
          None \<Rightarrow> res \<in> {Inl (Error 1007 ErrInvalidData), Inl (Error 1009 ErrMessageTooLarge)}
        | Some p \<Rightarrow>
           if int (length p) > c_limit c then res = Inl (Error 1009 ErrMessageTooLarge)
           else if op = Text \<and> c_validateUTF8 c \<and> \<not> Valid p then res = Inl (Error 1007 ErrInvalidUTF8)
           else res = Inr (op, p)))"

definition after_message :: "('w, 'r) renv \<Rightarrow> ('w wconn \<Rightarrow> bool) \<Rightarrow> ('w, 'r) conn \<Rightarrow> bool \<Rightarrow> astate \<Rightarrow> event list \<Rightarrow> rdev list \<Rightarrow> go_error + opcode \<times> bytes \<Rightarrow> ('w, 'r) conn \<Rightarrow> bool" where
  "after_message E Q c cmpd fs es rest res c' \<longleftrightarrow>
    (case res of
       Inl e \<Rightarrow> c_readErr c' = Some e
     | Inr (op, p) \<Rightarrow> ready E Q c' \<and> same_setup c c' \<and> (\<exists>b. reads b rest (c_in c') \<and> fut (c_rx c') b = (fs, es))
         \<and> rx_dict c' = (if cmpd then if rx_takeover c then lastn (rx_size c) (rx_dict c @ p) else [] else rx_dict c))"

lemma finishMessage_ok:
  assumes fl: "inflater (dv_flate (re_d E)) I gone st" and md: "msg_done Q c c1 fs es rest" and c: "c_readErr c = None" "0 < c_buf c" "0 \<le> c_limit c"
      "(c_limit c + 1) * (c_limit c + 9) < 2 ^ 58" "\<forall>d. dc_dec (c_decomp c) = Some d \<longrightarrow> dec_ready d" "list_all dec_ready (c_decPool c)" "answers (handler_of E c) Q"
    and fits: "int (length payload) \<le> c_limit c"
  shows "\<exists>res c'. finishMessage E op payload c1 = Some (res, c') \<and> message_answer st c op (rx_compressed (c_rx c)) payload res
     \<and> after_message E Q c (rx_compressed (c_rx c)) fs es rest res c'"
proof -
  let ?c = "c1\<lparr>c_inMessage := False\<rparr>"
  have s: "same_conn c c1" "rx_compressed (c_rx c1) = rx_compressed (c_rx c)" "pools_ok (c_bufs c1)" "rx_live (c_rx c1)" "rx_remaining (c_rx c1) = 0"
    "messageOpcode (c_rx c1) = 0" "Q (c_w c1)" "\<exists>b. reads b rest (c_in c1) \<and> fut (c_rx c1) b = (fs, es)" using md by (simp_all add: msg_done_def)
  have sc: "c_decomp c1 = c_decomp c" "c_limit c1 = c_limit c" "c_validateUTF8 c1 = c_validateUTF8 c" "c_handler c1 = c_handler c" "c_buf c1 = c_buf c"
    "c_decPool c1 = c_decPool c" "c_readErr c1 = c_readErr c" using s(1) by (simp_all add: same_conn_def)
  have sz: "rx_size ?c = rx_size c" "rx_dict ?c = rx_dict c" "rx_takeover ?c = rx_takeover c" "rx_takeover c1 = rx_takeover c" by (simp_all add: rx_size_def rx_dict_def rx_takeover_def sc)
  have utf: "(if op = Text \<and> c_validateUTF8 c2 \<and> \<not> Valid p then (Inl (Error 1007 ErrInvalidUTF8), conn_fail E (Error 1007 ErrInvalidUTF8) c2) else (Inr (op, p), c2))
     = (res, c') \<Longrightarrow> ready E Q c2 \<and> same_setup c c2 \<and> (\<exists>b. reads b rest (c_in c2) \<and> fut (c_rx c2) b = (fs, es))
         \<and> rx_dict c2 = (if rx_compressed (c_rx c) then if rx_takeover c then lastn (rx_size c) (rx_dict c @ p) else [] else rx_dict c)
     \<Longrightarrow> after_message E Q c (rx_compressed (c_rx c)) fs es rest res c'" for c2 p res c'
    by (auto simp: after_message_def split: if_splits)
  show ?thesis
  proof (cases "rx_compressed (c_rx c)")
    case False
    obtain res c' where e: "(if op = Text \<and> c_validateUTF8 ?c \<and> \<not> Valid payload then (Inl (Error 1007 ErrInvalidUTF8), conn_fail E (Error 1007 ErrInvalidUTF8) ?c)
       else (Inr (op, payload), ?c)) = (res, c')" by (metis prod.collapse)
    have "finishMessage E op payload c1 = Some (res, c')" using e False s(2) by (simp add: finishMessage_def MessageCompressed_def Let_def)
    moreover have "message_answer st c op (rx_compressed (c_rx c)) payload res" using e False fits by (auto simp: message_answer_def sc split: if_splits)
    moreover have "ready E Q ?c" using s(3-7) c sc by (auto simp: ready_def handler_of_def)
    then have "after_message E Q c (rx_compressed (c_rx c)) fs es rest res c'"
      using utf [OF e] s(8) False sz by (simp add: same_setup_def sc)
    ultimately show ?thesis by blast
  next
    case True
    have "(c_limit c + 1) * (int (length payload) + 9) \<le> (c_limit c + 1) * (c_limit c + 9)" using fits c(3) by (intro mult_left_mono) auto
    then have lim: "(c_limit ?c + 1) * (int (length payload) + 9) < 2 ^ 58" using c(4) sc(2) by simp
    obtain r c2 where d: "decompress E payload ?c = Some (r, c2)" "inflated_to st ?c payload r c2"
      using decompress_ok [OF fl _ _ _ _ lim] c sc s(3) by auto
    show ?thesis
    proof (cases r)
      case (Inl e)
      have "finishMessage E op payload c1 = Some (Inl e, c2)" using d(1) True s(2) Inl by (simp add: finishMessage_def MessageCompressed_def)
      moreover have "message_answer st c op (rx_compressed (c_rx c)) payload (Inl e)" "c_readErr c2 = Some e"
        using d(2) Inl True fits sz sc(2) by (auto simp: inflated_to_def message_answer_def split: option.splits if_splits)
      ultimately show ?thesis by (auto simp: after_message_def)
    next
      case (Inr p)
      have t: "whole st (rx_size c) (rx_dict c) (payload @ inflateTail) = Some p" "int (length p) \<le> c_limit c" "took_in ?c c2 p"
        using d(2) Inr sz sc(2) by (auto simp: inflated_to_def split: option.splits if_splits)
      have ss: "same_setup c c2" "c_validateUTF8 c2 = c_validateUTF8 c" using t(3) sz sc by (auto simp: took_in_def same_setup_def)
      obtain res c' where e: "(if op = Text \<and> c_validateUTF8 c2 \<and> \<not> Valid p then (Inl (Error 1007 ErrInvalidUTF8), conn_fail E (Error 1007 ErrInvalidUTF8) c2)
         else (Inr (op, p), c2)) = (res, c')" by (metis prod.collapse)
      have "finishMessage E op payload c1 = Some (res, c')" using d(1) e True s(2) Inr by (simp add: finishMessage_def MessageCompressed_def)
      moreover have "message_answer st c op (rx_compressed (c_rx c)) payload res" using e True fits t(1,2) ss(2) by (auto simp: message_answer_def split: if_splits)
      moreover have "ready E Q c2" using t(3) s(4-7) c sc ss(1) by (auto simp: ready_def took_in_def same_setup_def handler_of_def)
      then have "after_message E Q c (rx_compressed (c_rx c)) fs es rest res c'"
        using utf [OF e] ss(1) s(8) t(3) True sz by (simp add: took_in_def)
      ultimately show ?thesis by blast
    qed
  qed
qed

text \<open>A message on the stream: its first frame and its continuation frames, each after control frames.\<close>

type_synonym wire_msg = "(opcode \<times> bytes) list \<times> opcode \<times> bool \<times> bytes \<times> ((opcode \<times> bytes) list \<times> bytes) list"

fun msg_evs :: "wire_msg \<Rightarrow> event list" where
  "msg_evs (cs, op, cmpd, p, ms) = map ctl_ev cs @ EvFrame op (ms = []) cmpd # map EvByte p @ tail_evs ms"

fun msg_bytes :: "wire_msg \<Rightarrow> bytes" where
  "msg_bytes (cs, op, cmpd, p, ms) = p @ concat (map snd ms)"

fun msg_ok :: "wire_msg \<Rightarrow> bool" where
  "msg_ok (cs, op, cmpd, p, ms) \<longleftrightarrow> list_all pingpong cs \<and> op \<in> {Text, Binary} \<and> quiet ms"

lemma limit_small: "0 \<le> n \<Longrightarrow> (n + 1) * (n + 9) < 2 ^ 58 \<Longrightarrow> n < 2 ^ 63" for n :: int
proof -
  assume n: "0 \<le> n" "(n + 1) * (n + 9) < 2 ^ 58"
  have "(n + 1) * 1 \<le> (n + 1) * (n + 9)" using n(1) by (intro mult_left_mono) auto
  with n(2) show ?thesis by simp
qed

lemma ReadMessage_ok:
  assumes fl: "inflater (dv_flate (re_d E)) I gone st" and rdy: "ready E Q c" and rd: "reads b rest (c_in c)"
    and ev: "fut (c_rx c) b = (fs, msg_evs (cs, op, cmpd, p, ms) @ es)" and ok: "msg_ok (cs, op, cmpd, p, ms)" and es: "\<not> leads_byte es" "es = [] \<longrightarrow> \<not> in_data fs"
  shows "\<exists>res c'. ReadMessage E c = Some (res, c') \<and> message_answer st c op cmpd (msg_bytes (cs, op, cmpd, p, ms)) res \<and> after_message E Q c cmpd fs es rest res c'"
proof -
  obtain c0 where c0: "ready E Q c0" "released c c0" "c_msg c0 = None"
    "NextMessage E c = (case nextFrame E c0 of None \<Rightarrow> None
       | Some (err, c) \<Rightarrow> Some (case err of Some e \<Rightarrow> (Inl e, c) | None \<Rightarrow> (Inr (Opcode (rx_header (c_rx c))), c\<lparr>c_inMessage := True\<rparr>)))"
    by (rule NextMessage_ready [OF rdy])
  have r0: "c_rx c0 = c_rx c" "c_in c0 = c_in c" "c_limit c0 = c_limit c" "c_validateUTF8 c0 = c_validateUTF8 c" "rx_size c0 = rx_size c" "rx_dict c0 = rx_dict c"
     "rx_takeover c0 = rx_takeover c" "c_handler c0 = c_handler c" "c_buf c0 = c_buf c"
    using c0(2) by (simp_all add: released_def rx_size_def rx_dict_def rx_takeover_def)
  let ?evs = "EvFrame op (ms = []) cmpd # map EvByte p @ tail_evs ms @ es"
  have f0: "fut (c_rx c0) b = (fs, map ctl_ev cs @ ?evs)" "reads b rest (c_in c0)" using ev rd r0 by simp_all
  have okd: "list_all pingpong cs" "op \<in> {Text, Binary}" "quiet ms" using ok by simp_all
  have n0: "answers (handler_of E c0) Q" "rx_live (c_rx c0)" "rx_remaining (c_rx c0) = 0" "0 < c_buf c0" "Q (c_w c0)" using c0(1) by (simp_all add: ready_def)
  have "frame_outcome E Q c0 fs rest ?evs (nextFrame E c0)"
    by (rule nextFrame_ok [OF n0(1-3) f0(2) n0(4,5) f0(1) okd(1)]) simp_all
  then obtain c1 b1 where n: "same_read c0 c1" "Q (c_w c1)" "nextFrame E c0 = Some (None, c1)" "rx_live (c_rx c1)" "reads b1 rest (c_in c1)"
    "fut (c_rx c1) b1 = (fs, map EvByte p @ tail_evs ms @ es)" "frame_at (c_rx c0) op (ms = []) cmpd (c_rx c1)"
    unfolding frame_outcome_def by auto
  let ?c = "c1\<lparr>c_inMessage := True\<rparr>"
  note sd = same_readD [OF n(1)]
  have nm: "NextMessage E c = Some (Inr op, ?c)" using c0(4) n(3,7) by (simp add: frame_at_def)
  have op0: "op \<noteq> 0" "op \<noteq> Continuation" using okd(2) by (auto simp: Text_def Binary_def Continuation_def)
  have rc: "rx_compressed (c_rx ?c) = cmpd" using n(7) op0 by (simp add: frame_at_def)
  have cfg: "c_limit ?c = c_limit c" "c_validateUTF8 ?c = c_validateUTF8 c" "c_buf ?c = c_buf c" "handler_of E ?c = handler_of E c"
     "rx_size ?c = rx_size c" "rx_dict ?c = rx_dict c" "rx_takeover ?c = rx_takeover c" "c_handler ?c = c_handler c"
    using sd r0 by (simp_all add: handler_of_def rx_size_def rx_dict_def rx_takeover_def)
  have ma: "message_answer st ?c op cmpd pl res = message_answer st c op cmpd pl res" for pl res
    unfolding message_answer_def cfg by (rule refl)
  have af: "after_message E Q ?c cmpd fs es rest res c' = after_message E Q c cmpd fs es rest res c'" for res c'
    unfolding after_message_def same_setup_def cfg by (rule refl)
  have pr: "c_readErr ?c = None" "0 < c_buf ?c" "0 \<le> c_limit ?c" "(c_limit ?c + 1) * (c_limit ?c + 9) < 2 ^ 58" "\<forall>d. dc_dec (c_decomp ?c) = Some d \<longrightarrow> dec_ready d"
      "list_all dec_ready (c_decPool ?c)" "answers (handler_of E ?c) Q" "pools_ok (c_bufs ?c)" "c_msg ?c = None"
    using c0(1,3) sd r0 cfg rdy by (simp_all add: ready_def)
  have as: "assembled E Q ?c fs es rest (fst (([], 0) :: slice) @ p @ concat (map snd ms)) (assemble_loop E ([], 0) ?c)"
  proof (rule assemble_loop_ok [OF pr(7)])
    show "payload_at (c_rx ?c) b1 fs p (tail_evs ms @ es)" using n(4,6) tail_no_byte [OF es(1)] es(2) by (auto simp: payload_at_def)
    show "at_frame (c_rx ?c) (ms = [])" using n(7) op0 by (auto simp: at_frame_def frame_at_def)
  qed (use n pr okd es limit_small [OF pr(3,4)] in simp_all)
  let ?z = "p @ concat (map snd ms)"
  show ?thesis
  proof (cases "int (length ?z) \<le> c_limit c")
    case False
    then obtain c2 where "assemble E ?c = Some (Inl (Error 1009 ErrMessageTooLarge), conn_fail E (Error 1009 ErrMessageTooLarge) c2)"
      using as [unfolded assembled_def cfg(1)] by (auto simp: too_large_def assemble_def)
    then show ?thesis using nm False by (auto simp: ReadMessage_def message_answer_def after_message_def)
  next
    case True
    then obtain c2 where a: "assemble E ?c = Some (Inr ?z, c2)" "msg_done Q ?c c2 fs es rest"
      using as [unfolded assembled_def cfg(1)] by (auto simp: assemble_def)
    have "int (length ?z) \<le> c_limit ?c" using True cfg(1) by simp
    from finishMessage_ok [OF fl a(2) pr(1-7) this, of op, unfolded rc ma af] a(1) nm show ?thesis
      by (auto simp: ReadMessage_def)
  qed
qed

text \<open>Where the stream of messages stops: a close frame, a protocol error, or an error of the transport.\<close>

definition stop_answer ::
    "('w, 'r) renv \<Rightarrow> ('w wconn \<Rightarrow> bool) \<Rightarrow> ('w, 'r) conn \<Rightarrow> astate \<Rightarrow> rdev list \<Rightarrow> event list \<Rightarrow> ((go_error + opcode \<times> bytes) \<times> ('w, 'r) conn) option \<Rightarrow> bool" where
  "stop_answer E Q c fs rest evs res \<longleftrightarrow>
    (case evs of
       [] \<Rightarrow> (\<forall>e rest'. rest = RdErr e # rest' \<longrightarrow>
          (\<exists>c'. res = Some (Inl (end_error e (fs = (Head [], 0))), c') \<and> same_setup c c' \<and> rx_dict c' = rx_dict c \<and> c_in c' = rest'
             \<and> fut (c_rx c') [] = (fs, []) \<and> ready E Q c'))
     | EvFail code e # es \<Rightarrow> (\<exists>c1. Q (c_w c1) \<and> same_setup c c1 \<and> res = Some (Inl (Error code e), conn_fail E (Error code e) c1))
     | EvControl op p # es \<Rightarrow> op = Close \<longrightarrow>
          (\<exists>c1. Q (c_w c1) \<and> same_setup c c1 \<and> res = (case close_outcome E p c1 of None \<Rightarrow> None | Some (err, c') \<Rightarrow> Some (Inl (the err), c')))
     | _ \<Rightarrow> True)"

lemma close_outcome_err: "close_outcome E p c = Some (err, c') \<Longrightarrow> \<exists>e. err = Some e"
  by (auto simp: close_outcome_def Let_def split: prod.splits option.splits)

lemma ReadMessage_stop:
  assumes rdy: "ready E Q c" and rd: "reads b rest (c_in c)" and ev: "fut (c_rx c) b = (fs, map ctl_ev cs @ evs)" and pp: "list_all pingpong cs"
    and cl: "\<forall>op p es. evs = EvControl op p # es \<longrightarrow> op = Close" and ends: "evs = [] \<longrightarrow> (\<exists>e rest'. rest = RdErr e # rest')"
  shows "stop_answer E Q c fs rest evs (ReadMessage E c)"
proof -
  obtain c0 where c0: "ready E Q c0" "released c c0" "c_msg c0 = None"
    "NextMessage E c = (case nextFrame E c0 of None \<Rightarrow> None
       | Some (err, c) \<Rightarrow> Some (case err of Some e \<Rightarrow> (Inl e, c) | None \<Rightarrow> (Inr (Opcode (rx_header (c_rx c))), c\<lparr>c_inMessage := True\<rparr>)))"
    by (rule NextMessage_ready [OF rdy])
  have f0: "fut (c_rx c0) b = (fs, map ctl_ev cs @ evs)" "reads b rest (c_in c0)" using ev rd c0(2) by (simp_all add: released_def)
  have n0: "answers (handler_of E c0) Q" "rx_live (c_rx c0)" "rx_remaining (c_rx c0) = 0" "0 < c_buf c0" "Q (c_w c0)" using c0(1) by (simp_all add: ready_def)
  have "frame_outcome E Q c0 fs rest evs (nextFrame E c0)"
    by (rule nextFrame_ok [OF n0(1-3) f0(2) n0(4,5) f0(1) pp cl ends])
  then obtain c1 b1 where n: "same_read c0 c1" "Q (c_w c1)" "rx_inv (c_rx c1)" and out: "case evs of
        [] \<Rightarrow> (\<forall>e rest'. rest = RdErr e # rest' \<longrightarrow>
                 nextFrame E c0 = Some (Some (end_error e (fs = (Head [], 0))), c1) \<and> rx_live (c_rx c1) \<and> c_in c1 = rest' \<and> fut (c_rx c1) [] = (fs, [])
                 \<and> rx_remaining (c_rx c1) = 0 \<and> messageOpcode (c_rx c1) = messageOpcode (c_rx c0))
      | ev # es \<Rightarrow>
        (case ev of
           EvFrame op fin rsv1 \<Rightarrow> nextFrame E c0 = Some (None, c1) \<and> rx_live (c_rx c1) \<and> reads b1 rest (c_in c1) \<and> fut (c_rx c1) b1 = (fs, es)
             \<and> frame_at (c_rx c0) op fin rsv1 (c_rx c1)
         | EvFail code e \<Rightarrow> nextFrame E c0 = Some (Some (Error code e), conn_fail E (Error code e) c1)
         | EvControl op p \<Rightarrow> op = Close \<longrightarrow> nextFrame E c0 = close_outcome E p c1
         | EvByte x \<Rightarrow> True)"
    unfolding frame_outcome_def by (elim exE conjE) (rule that)
  note sd = same_readD [OF n(1)]
  have ss: "same_setup c c1" "rx_dict c1 = rx_dict c" using sd c0(2) by (simp_all add: same_setup_def rx_size_def rx_takeover_def rx_dict_def released_def)
  show ?thesis
  proof (cases evs)
    case Nil
    then obtain e rest' where r: "rest = RdErr e # rest'" using ends by blast
    then have o: "nextFrame E c0 = Some (Some (end_error e (fs = (Head [], 0))), c1)" "rx_live (c_rx c1)" "c_in c1 = rest'" "fut (c_rx c1) [] = (fs, [])"
        "rx_remaining (c_rx c1) = 0" "messageOpcode (c_rx c1) = messageOpcode (c_rx c0)"
      using out Nil by simp_all
    have "ready E Q c1" using c0(1) o(2,5,6) sd n(2) by (simp add: ready_def handler_of_def)
    then show ?thesis using o ss r Nil c0(4) by (auto simp: stop_answer_def ReadMessage_def)
  next
    case (Cons ev es)
    then show ?thesis
      using out ss(1) n(2) c0(4)
      by (auto simp: stop_answer_def ReadMessage_def split: event.splits option.splits dest: close_outcome_err intro!: exI [of _ c1])
  qed
qed

end
