(* ===== verification/ConnServe.thy ===== *)
theory ConnServe
  imports ConnRead_Thm
begin

text \<open>
  The read loop of \<^verbatim>\<open>src/ws/serve.go\<close>, and two endpoints of the library talking to each other: what one
  connection sends is what the handler of the other is called with.
\<close>

section \<open>serve.go\<close>

text \<open>A message handler works on a state of its own and on the connection; \<open>None\<close> is a handler that panics or never returns.\<close>

type_synonym ('h, 'w, 'r) MessageHandler =
  "opcode \<Rightarrow> bytes \<Rightarrow> 'h \<Rightarrow> ('w, 'r) conn \<Rightarrow> (go_error option \<times> 'h \<times> ('w, 'r) conn) option"

partial_function (option) Serve ::
    "('w, 'r) renv \<Rightarrow> ('h, 'w, 'r) MessageHandler \<Rightarrow> 'h \<Rightarrow> ('w, 'r) conn \<Rightarrow> (go_error \<times> 'h \<times> ('w, 'r) conn) option" where
  "Serve E OnMessage h c =
    (case ReadMessage E c of
       None \<Rightarrow> None
     | Some (res, c) \<Rightarrow>
        (case res of
           Inl err \<Rightarrow> Some (err, h, c)
         | Inr (op, payload) \<Rightarrow>
            (case OnMessage op payload h c of
               None \<Rightarrow> None
             | Some (err, h, c) \<Rightarrow> (case err of Some e \<Rightarrow> Some (e, h, c) | None \<Rightarrow> Serve E OnMessage h c))))"

section \<open>A run of messages\<close>

text \<open>A handler that accepts every message, noting it with \<open>noted\<close>, and only writes to the connection.\<close>

definition serves :: "('h, 'w, 'r) MessageHandler \<Rightarrow> (opcode \<times> bytes \<Rightarrow> 'h \<Rightarrow> 'h) \<Rightarrow> ('w wconn \<Rightarrow> bool) \<Rightarrow> bool" where
  "serves H nt Q \<longleftrightarrow> (\<forall>op p h c. Q (c_w c) \<longrightarrow> (\<exists>w. H op p h c = Some (None, nt (op, p) h, c\<lparr>c_w := w\<rparr>) \<and> Q w))"

abbreviation decoded :: "stream \<Rightarrow> nat \<Rightarrow> bytes \<Rightarrow> bytes \<Rightarrow> bytes option" where
  "decoded st R D z \<equiv> whole st R D (z @ [1, 0, 0, 0xff, 0xff])"

fun plain_msg :: "wire_msg \<Rightarrow> opcode \<times> bool \<times> bytes list" where
  "plain_msg (cs, op, cmpd, p, ms) = (op, cmpd, p # map snd ms)"

definition readable :: "('w, 'r) conn \<Rightarrow> opcode \<times> bytes \<Rightarrow> bool" where
  "readable c m \<longleftrightarrow> int (length (snd m)) \<le> c_limit c \<and> (fst m = Text \<and> c_validateUTF8 c \<longrightarrow> Valid (snd m))"

lemma msg_evs_no_byte: "\<not> leads_byte (msg_evs w @ es)"
proof (cases w)
  case (fields cs op cmpd p ms)
  then show ?thesis by (cases cs) (auto elim: ctl_ev.elims)
qed

lemma msgs_no_byte: "\<not> leads_byte es \<Longrightarrow> \<not> leads_byte (concat (map msg_evs ws) @ es)"
  using msg_evs_no_byte by (cases ws) (simp_all del: msg_evs.simps)

lemma Serve_step:
  assumes H: "serves H nt Q" and R: "ReadMessage E c = Some (Inr (op, p), c1)" and rdy: "ready E Q c1"
  obtains c2 where "Serve E H h c = Serve E H (nt (op, p) h) c2" "ready E Q c2" "c_rx c2 = c_rx c1" "c_in c2 = c_in c1" "same_setup c1 c2" "rx_dict c2 = rx_dict c1"
proof -
  have "Q (c_w c1)" using rdy by (simp add: ready_def)
  then obtain w where w: "H op p h c1 = Some (None, nt (op, p) h, c1\<lparr>c_w := w\<rparr>)" "Q w" using H unfolding serves_def by blast
  show ?thesis
  proof (rule that [of "c1\<lparr>c_w := w\<rparr>"])
    show "Serve E H h c = Serve E H (nt (op, p) h) (c1\<lparr>c_w := w\<rparr>)" using R w(1) by (subst Serve.simps) simp
    show "ready E Q (c1\<lparr>c_w := w\<rparr>)" using rdy w(2) by (simp add: ready_def handler_of_def)
  qed (simp_all add: same_setup_def rx_size_def rx_takeover_def rx_dict_def)
qed

lemma Serve_messages:
  assumes fl: "inflater (dv_flate (re_d E)) I gone st" and H: "serves H nt Q"
  shows "ready E Q c \<Longrightarrow> reads b rest (c_in c) \<Longrightarrow> fut (c_rx c) b = (fs, concat (map msg_evs ws) @ es) \<Longrightarrow> list_all msg_ok ws
     \<Longrightarrow> \<not> leads_byte es \<Longrightarrow> (es = [] \<longrightarrow> \<not> in_data fs)
     \<Longrightarrow> rx_decode (decoded st (rx_size c)) (rx_takeover c) (rx_size c) (rx_dict c) (map plain_msg ws) = Some out
     \<Longrightarrow> list_all (\<lambda>w. int (length (msg_bytes w)) \<le> c_limit c) ws \<Longrightarrow> list_all (readable c) out
     \<Longrightarrow> \<exists>c' b'. Serve E H h c = Serve E H (fold nt out h) c' \<and> ready E Q c' \<and> same_setup c c' \<and> reads b' rest (c_in c') \<and> fut (c_rx c') b' = (fs, es)"
proof (induction ws arbitrary: c b h out)
  case Nil
  then show ?case by (auto simp: same_setup_def intro!: exI [of _ c] exI [of _ b])
next
  case (Cons w ws)
  obtain cs op cmpd p ms where w: "w = (cs, op, cmpd, p, ms)" by (cases w)
  let ?z = "p @ concat (map snd ms)"
  let ?es = "concat (map msg_evs ws) @ es"
  have ev: "fut (c_rx c) b = (fs, msg_evs (cs, op, cmpd, p, ms) @ ?es)" using Cons.prems(3) w by (simp del: msg_evs.simps)
  have ok: "msg_ok (cs, op, cmpd, p, ms)" using Cons.prems(4) w by (simp del: msg_ok.simps)
  have es: "\<not> leads_byte ?es" "?es = [] \<longrightarrow> \<not> in_data fs" using msgs_no_byte [OF Cons.prems(5)] Cons.prems(6) by auto
  obtain res c1 where R: "ReadMessage E c = Some (res, c1)" "message_answer st c op cmpd (msg_bytes (cs, op, cmpd, p, ms)) res"
    "after_message E Q c cmpd fs ?es rest res c1"
    using ReadMessage_ok [OF fl Cons.prems(1,2) ev ok es] by (elim exE conjE) (rule that)
  define D' where "D' = (\<lambda>q. if cmpd then if rx_takeover c then lastn (rx_size c) (rx_dict c @ q) else [] else rx_dict c)"
  obtain q out' where q: "out = (op, q) # out'" "(if cmpd then whole st (rx_size c) (rx_dict c) (?z @ inflateTail) else Some ?z) = Some q"
    "rx_decode (decoded st (rx_size c)) (rx_takeover c) (rx_size c) (D' q) (map plain_msg ws) = Some out'"
    using Cons.prems(7) w by (auto simp: D'_def inflateTail_def split: if_splits option.splits)
  have fit: "int (length ?z) \<le> c_limit c" "readable c (op, q)" using Cons.prems(8,9) w q(1) by simp_all
  have res: "res = Inr (op, q)" using R(2) q(2) fit by (auto simp: message_answer_def readable_def)
  have c1: "ready E Q c1" "same_setup c c1" "rx_dict c1 = D' q" "\<exists>b. reads b rest (c_in c1) \<and> fut (c_rx c1) b = (fs, ?es)"
    using R(3) res by (simp_all add: after_message_def D'_def)
  obtain b1 where b1: "reads b1 rest (c_in c1)" "fut (c_rx c1) b1 = (fs, ?es)" using c1(4) by blast
  obtain c2 where c2: "Serve E H h c = Serve E H (nt (op, q) h) c2" "ready E Q c2" "c_rx c2 = c_rx c1" "c_in c2 = c_in c1" "same_setup c1 c2" "rx_dict c2 = rx_dict c1"
    by (rule Serve_step [OF H R(1) [unfolded res] c1(1)])
  have ss: "same_setup c c2" using c1(2) c2(5) by (simp add: same_setup_def)
  then have cfg: "rx_size c2 = rx_size c" "rx_takeover c2 = rx_takeover c" "c_limit c2 = c_limit c" "c_validateUTF8 c2 = c_validateUTF8 c" by (simp_all add: same_setup_def)
  have rdl: "readable c2 = readable c" by (simp add: readable_def fun_eq_iff cfg)
  have "\<exists>c' b'. Serve E H (nt (op, q) h) c2 = Serve E H (fold nt out' (nt (op, q) h)) c' \<and> ready E Q c' \<and> same_setup c2 c' \<and> reads b' rest (c_in c') \<and> fut (c_rx c') b' = (fs, es)"
    by (rule Cons.IH [OF c2(2) _ _ _ Cons.prems(5,6)])
       (use b1 c2(3,4,6) c1(3) q Cons.prems(4,8,9) in \<open>simp_all add: cfg rdl del: msg_ok.simps msg_bytes.simps\<close>)
  then obtain c' b' where "Serve E H (nt (op, q) h) c2 = Serve E H (fold nt out' (nt (op, q) h)) c'" "ready E Q c'" "same_setup c2 c'" "reads b' rest (c_in c')" "fut (c_rx c') b' = (fs, es)"
    by (elim exE conjE) (rule that)
  then show ?case using c2(1) q(1) ss by (intro exI [of _ c'] exI [of _ b']) (simp add: same_setup_def)
qed

section \<open>A new connection\<close>

lemma cmp_Or_pos: "0 \<le> a \<Longrightarrow> 0 < b \<Longrightarrow> 0 < cmp_Or a b"
  by (simp add: cmp_Or_def)

definition conn_limit :: "'w Config \<Rightarrow> int" where
  "conn_limit cfg = cmp_Or (MaxMessageSize cfg) DefaultMaxMessageSize"

lemma NewConn_ready:
  assumes N: "NewConn a (Some (net, rs, v)) cfg ps bufs mpool dpool = Inr c" and pl: "pools_ok bufs" "list_all dec_ready dpool"
    and lim: "(conn_limit cfg + 1) * (conn_limit cfg + 9) < 2 ^ 58"
    and Q: "Q (c_w c)" "answers (handler_of E c) Q"
  shows "ready E Q c" "c_in c = rs" "c_limit c = conn_limit cfg" "c_validateUTF8 c = ValidateUTF8 cfg" "rx_dict c = []"
    "fut (c_rx c) b = byte_run (rx_role (c_rx c)) (cfg_Compression cfg \<noteq> None) (Head [], 0) b" "role_of (cfg_Role cfg) = Some (rx_role (c_rx c))"
    "rx_takeover c \<longleftrightarrow> (\<exists>k. cfg_Compression cfg = Some k \<and> ReceiveContextTakeover k)"
    "rx_size c = (case cfg_Compression cfg of Some k \<Rightarrow> if ReceiveContextTakeover k then Size \<lparr>Bits = ReceiveWindowBits k, wbuf = [], wcap = 0, gen = 0\<rparr> else windowSize | None \<Rightarrow> windowSize)"
proof -
  obtain role where r: "role_of (cfg_Role cfg) = Some role" using N by (auto simp: NewConn_def split: option.splits)
  have ok: "ReadBufferSize cfg \<ge> 0" "MaxMessageSize cfg \<ge> 0" using N r by (auto simp: NewConn_def split: if_splits)
  have c: "c_rx c = receiver_Init role (cfg_Compression cfg \<noteq> None) (zero_receiver Server False zero_decoder)" "c_in c = rs" "c_limit c = conn_limit cfg"
    "c_validateUTF8 c = ValidateUTF8 cfg" "c_buf c = nat (cmp_Or (ReadBufferSize cfg) DefaultReadBufferSize)" "c_readErr c = None" "\<not> c_inMessage c"
    "dc_dec (c_decomp c) = None" "c_bufs c = bufs" "c_decPool c = dpool"
    "dc_window (c_decomp c) = (case cfg_Compression cfg of None \<Rightarrow> None | Some k \<Rightarrow> map_option snd (new_window a (ReceiveContextTakeover k) (ReceiveWindowBits k)))"
    using N r by (auto simp: NewConn_def conn_limit_def split: if_splits)
  have bl: "0 < c_buf c" "0 \<le> c_limit c"
    using c(3,5) cmp_Or_pos [OF ok(1), of DefaultReadBufferSize] cmp_Or_pos [OF ok(2), of DefaultMaxMessageSize]
    by (simp_all add: conn_limit_def DefaultReadBufferSize_def DefaultMaxMessageSize_def)
  have live: "rx_live (c_rx c)" unfolding rx_live_def c(1) by (intro conjI rx_inv_Init) (simp_all add: receiver_Init_def zero_receiver_def)
  have "rx_remaining (c_rx c) = 0" "messageOpcode (c_rx c) = 0" by (simp_all add: c(1) receiver_Init_def zero_receiver_def)
  with live bl c pl lim Q show "ready E Q c" by (simp add: ready_def)
  show "c_in c = rs" "c_limit c = conn_limit cfg" "c_validateUTF8 c = ValidateUTF8 cfg" by (fact c)+
  show "role_of (cfg_Role cfg) = Some (rx_role (c_rx c))" using r by (simp add: c(1) receiver_Init_def zero_receiver_def)
  have "base (c_rx c) = (Head [], 0)" "pending (rx_dec (c_rx c)) = []" "compression (c_rx c) = (cfg_Compression cfg \<noteq> None)"
    by (simp_all add: c(1) receiver_Init_def zero_receiver_def base_def dec_Reset_def)
  then show "fut (c_rx c) b = byte_run (rx_role (c_rx c)) (cfg_Compression cfg \<noteq> None) (Head [], 0) b" by (simp add: fut_def)
  show "rx_dict c = []" "rx_takeover c \<longleftrightarrow> (\<exists>k. cfg_Compression cfg = Some k \<and> ReceiveContextTakeover k)"
    "rx_size c = (case cfg_Compression cfg of Some k \<Rightarrow> if ReceiveContextTakeover k then Size \<lparr>Bits = ReceiveWindowBits k, wbuf = [], wcap = 0, gen = 0\<rparr> else windowSize | None \<Rightarrow> windowSize)"
    by (auto simp: rx_dict_def rx_takeover_def rx_size_def c(11) new_window_def dict_lastn split: option.splits)
qed

section \<open>Frames on the wire as events\<close>

lemma wired_split:
  assumes "wired role b (fs1 @ fs2)"
  shows "\<exists>b1 b2. b = b1 @ b2 \<and> wired role b1 fs1 \<and> wired role b2 fs2"
  using assms
proof (induction fs1 arbitrary: b)
  case Nil
  then show ?case by (auto intro: wired_Nil)
next
  case (Cons f fs1)
  from Cons.prems show ?case
  proof (cases rule: wired.cases)
    case (wired_Cons key b' frs op final rsv1 p)
    then have "wired role b' (fs1 @ fs2)" by simp
    from Cons.IH [OF this] obtain b1 b2 where "b' = b1 @ b2" "wired role b1 fs1" "wired role b2 fs2" by blast
    with wired_Cons wired.wired_Cons [of role key b1 fs1 op final rsv1 p] show ?thesis
      by (intro exI [of _ "wire_frame op final rsv1 key p @ b1"] exI [of _ b2]) simp
  qed simp
qed

lemma wired_cons_split: "wired role b (f # fs) \<Longrightarrow> \<exists>b1 b2. b = b1 @ b2 \<and> wired role b1 [f] \<and> wired role b2 fs"
  using wired_split [of role b "[f]" fs] by simp

lemma wired_empty: "wired role b [] \<Longrightarrow> b = []"
  by (auto elim: wired.cases)

lemma wired_frame_run:
  assumes "wired role b [(op, final, rsv1, p)]" "sendable op final rsv1 p" "allowed pmd msg op rsv1" "length p < 2 ^ 63" "op \<noteq> Close"
  shows "byte_run (peer role) pmd (Head [], msg) b = ((Head [], msg_after msg (op, final, p, rsv1)), frame_events (op, final, p, rsv1))"
proof -
  from assms(1) obtain key where k: "key_for role key" "b = wire_frame op final rsv1 key p"
    by (auto elim: wired.cases)
  have "key_ok key" "(key \<noteq> None) = (peer role = Server)" using k(1) by (cases key; cases role; simp add: key_for_def peer_def)+
  from wire_frame_run [OF assms(2,3) this assms(4)] k(2) assms(5) show ?thesis by simp
qed

lemma continuation_run:
  assumes "wired role b (msg_frames Continuation False zs)" "zs \<noteq> []" "msg \<noteq> 0" "\<forall>z\<in>set zs. length z < 2 ^ 63"
  shows "byte_run (peer role) pmd (Head [], msg) b = ((Head [], 0), tail_evs (map (Pair []) zs))"
  using assms
proof (induction zs arbitrary: b)
  case (Cons z zs)
  let ?fin = "zs = []"
  have mf: "msg_frames Continuation False (z # zs) = (Continuation, ?fin, False, z) # (if ?fin then [] else msg_frames Continuation False zs)" by (cases zs) simp_all
  from wired_cons_split [OF Cons.prems(1) [unfolded mf]]
  obtain b1 b2 where b: "b = b1 @ b2" "wired role b1 [(Continuation, ?fin, False, z)]" "wired role b2 (if ?fin then [] else msg_frames Continuation False zs)" by blast
  have cn: "Continuation \<notin> {Close, Ping, Pong}" "Continuation \<noteq> Close" by (simp_all add: Continuation_def Close_def Ping_def Pong_def)
  have "sendable Continuation ?fin False z" "allowed pmd msg Continuation False" using Cons.prems(3) cn by (auto simp: sendable_def allowed_def)
  from wired_frame_run [OF b(2) this] Cons.prems(4) cn
  have r1: "byte_run (peer role) pmd (Head [], msg) b1 = ((Head [], if ?fin then 0 else msg), EvFrame Continuation ?fin False # map EvByte z)"
    by (auto simp: msg_after_def frame_events_def)
  have r2: "byte_run (peer role) pmd (Head [], if ?fin then 0 else msg) b2 = ((Head [], 0), if ?fin then [] else tail_evs (map (Pair []) zs))"
    using b(3) Cons.IH [of b2] Cons.prems(3,4) by (cases zs) (auto dest: wired_empty)
  show ?case using r1 r2 b(1) by (simp add: byte_run_append split_def Let_def)
qed simp

definition data_op :: "opcode \<times> 'a \<Rightarrow> bool" where
  "data_op m \<longleftrightarrow> fst m \<in> {Text, Binary}"

definition msg_sized :: "opcode \<times> bool \<times> bytes list \<Rightarrow> bool" where
  "msg_sized = (\<lambda>(op, cmpd, zs). length (concat zs) < 2 ^ 63 \<and> (op \<in> {Text, Binary} \<or> op \<in> {Ping, Pong} \<and> length (concat zs) \<le> 125))"

lemma piece_small: "z \<in> set zs \<Longrightarrow> length z \<le> length (concat zs)"
  by (induction zs) auto

lemma data_message_run:
  assumes w: "wired role b (msg_frames op cmpd zs)" and f: "framed pmd (op, cmpd, zs)" and op: "op \<in> {Text, Binary}" and sz: "length (concat zs) < 2 ^ 63"
  shows "byte_run (peer role) pmd (Head [], 0) b = ((Head [], 0), msg_evs ([], op, cmpd, hd zs, map (Pair []) (tl zs)))"
proof -
  obtain z zs' where zs: "zs = z # zs'" using f by (cases zs) (simp_all add: framed_def)
  let ?fin = "zs' = []"
  have mf: "msg_frames op cmpd zs = (op, ?fin, cmpd, z) # (if ?fin then [] else msg_frames Continuation False zs')" using zs by (cases zs') simp_all
  from wired_cons_split [OF w [unfolded mf]]
  obtain b1 b2 where b: "b = b1 @ b2" "wired role b1 [(op, ?fin, cmpd, z)]" "wired role b2 (if ?fin then [] else msg_frames Continuation False zs')" by blast
  have cn: "op \<notin> {Close, Ping, Pong}" "op \<noteq> Close" "op \<noteq> 0" "op \<noteq> Continuation" using op by (auto simp: Text_def Binary_def Continuation_def Close_def Ping_def Pong_def)
  have pc: "length x < 2 ^ 63" if "x \<in> set zs" for x using piece_small [OF that] sz by simp
  have "sendable op ?fin cmpd z" "allowed pmd 0 op cmpd" using op cn f by (auto simp: sendable_def allowed_def framed_def)
  from wired_frame_run [OF b(2) this] pc zs cn
  have r1: "byte_run (peer role) pmd (Head [], 0) b1 = ((Head [], if ?fin then 0 else op), EvFrame op ?fin cmpd # map EvByte z)"
    by (auto simp: msg_after_def frame_events_def)
  have r2: "byte_run (peer role) pmd (Head [], if ?fin then 0 else op) b2 = ((Head [], 0), if ?fin then [] else tail_evs (map (Pair []) zs'))"
    using b(3) continuation_run [of role b2 zs' op pmd] pc zs cn(3) by (cases zs') (auto dest: wired_empty)
  show ?thesis using r1 r2 b(1) zs by (cases zs') (simp_all add: byte_run_append split_def Let_def)
qed

lemma control_message_run:
  assumes w: "wired role b (msg_frames op cmpd zs)" and f: "framed pmd (op, cmpd, zs)" and op: "op \<in> {Ping, Pong}" and sz: "length (concat zs) \<le> 125"
  shows "byte_run (peer role) pmd (Head [], 0) b = ((Head [], 0), [ctl_ev (op, concat zs)])"
proof -
  obtain z where zs: "zs = [z]" "\<not> cmpd" using f op by (cases zs; cases "tl zs") (auto simp: framed_def)
  have "op \<noteq> Close" using op by (auto simp: Close_def Ping_def Pong_def)
  moreover have "sendable op True False z" "allowed pmd 0 op False" using op zs sz \<open>op \<noteq> Close\<close> by (auto simp: sendable_def allowed_def)
  moreover have "length z < 2 ^ 63" using sz zs by simp
  ultimately show ?thesis using wired_frame_run [of role b op True False z pmd 0] w zs op by (auto simp: frame_events_def msg_after_def)
qed

text \<open>The stream's control frames go with the message they come before.\<close>

fun grouped :: "(opcode \<times> bytes) list \<Rightarrow> (opcode \<times> bool \<times> bytes list) list \<Rightarrow> wire_msg list \<times> (opcode \<times> bytes) list" where
  "grouped cs [] = ([], cs)"
| "grouped cs ((op, cmpd, zs) # msgs) =
    (if op \<in> {Ping, Pong} then grouped (cs @ [(op, concat zs)]) msgs
     else (let (ws, t) = grouped [] msgs in ((cs, op, cmpd, hd zs, map (Pair []) (tl zs)) # ws, t)))"

lemma grouped_ok:
  assumes "list_all (framed pmd) msgs" "list_all msg_sized msgs" "wired role b (frames_of msgs)" "grouped cs msgs = (ws, t)" "list_all pingpong cs"
  shows "\<exists>evs. byte_run (peer role) pmd (Head [], 0) b = ((Head [], 0), evs) \<and> map ctl_ev cs @ evs = concat (map msg_evs ws) @ map ctl_ev t
     \<and> list_all msg_ok ws \<and> list_all pingpong t \<and> map plain_msg ws = filter data_op msgs"
  using assms
proof (induction msgs arbitrary: b cs ws t)
  case Nil
  have "b = []" using Nil.prems(3) by (intro wired_empty) (simp add: frames_of_def)
  with Nil.prems(4,5) show ?case by auto
next
  case (Cons m msgs)
  obtain op cmpd zs where m: "m = (op, cmpd, zs)" by (cases m)
  obtain b1 b2 where b: "b = b1 @ b2" "wired role b1 (msg_frames op cmpd zs)" "wired role b2 (frames_of msgs)"
    using wired_split [of role b "msg_frames op cmpd zs" "frames_of msgs"] Cons.prems(3) m by (auto simp: frames_of_def)
  have f: "framed pmd (op, cmpd, zs)" and sz: "length (concat zs) < 2 ^ 63" "op \<in> {Text, Binary} \<or> op \<in> {Ping, Pong} \<and> length (concat zs) \<le> 125"
    and rest: "list_all (framed pmd) msgs" "list_all msg_sized msgs"
    using Cons.prems(1,2) m by (simp_all add: msg_sized_def)
  have dj: "op \<in> {Text, Binary} \<Longrightarrow> op \<notin> {Ping, Pong}" by (auto simp: Text_def Binary_def Ping_def Pong_def)
  show ?case
  proof (cases "op \<in> {Ping, Pong}")
    case True
    have g: "grouped (cs @ [(op, concat zs)]) msgs = (ws, t)" using Cons.prems(4) m True by simp
    have p: "list_all pingpong (cs @ [(op, concat zs)])" using Cons.prems(5) True by (simp add: pingpong_def [of "(op, concat zs)"])
    obtain evs where e: "byte_run (peer role) pmd (Head [], 0) b2 = ((Head [], 0), evs)" "map ctl_ev (cs @ [(op, concat zs)]) @ evs = concat (map msg_evs ws) @ map ctl_ev t"
      "list_all msg_ok ws" "list_all pingpong t" "map plain_msg ws = filter data_op msgs"
      using Cons.IH [OF rest b(3) g p] by (elim exE conjE) (rule that)
    have "byte_run (peer role) pmd (Head [], 0) b1 = ((Head [], 0), [ctl_ev (op, concat zs)])" using control_message_run [OF b(2) f True] sz(2) dj True by blast
    then have "byte_run (peer role) pmd (Head [], 0) b = ((Head [], 0), ctl_ev (op, concat zs) # evs)" using e(1) b(1) by (simp add: byte_run_append)
    moreover have "\<not> data_op m" using True dj m by (auto simp: data_op_def)
    ultimately show ?thesis using e(2-5) by (intro exI [of _ "ctl_ev (op, concat zs) # evs"]) simp
  next
    case False
    then have op: "op \<in> {Text, Binary}" using sz(2) by blast
    obtain ws' where g: "grouped [] msgs = (ws', t)" "ws = (cs, op, cmpd, hd zs, map (Pair []) (tl zs)) # ws'"
      using Cons.prems(4) m False by (auto simp: Let_def split: prod.splits)
    obtain evs where e: "byte_run (peer role) pmd (Head [], 0) b2 = ((Head [], 0), evs)" "evs = concat (map msg_evs ws') @ map ctl_ev t"
      "list_all msg_ok ws'" "list_all pingpong t" "map plain_msg ws' = filter data_op msgs"
      using Cons.IH [OF rest b(3) g(1)] by auto
    have r: "byte_run (peer role) pmd (Head [], 0) b = ((Head [], 0), msg_evs ([], op, cmpd, hd zs, map (Pair []) (tl zs)) @ evs)"
      using data_message_run [OF b(2) f op sz(1)] e(1) b(1) by (simp add: byte_run_append del: msg_evs.simps)
    have "quiet (map (Pair []) (tl zs))" by (induction "tl zs") (auto simp: quiet_def list_all_iff)
    moreover have "zs \<noteq> []" using f by (simp add: framed_def)
    then have "plain_msg (cs, op, cmpd, hd zs, map (Pair []) (tl zs)) = m" using m by (simp add: comp_def)
    moreover have "data_op m" using op m by (simp add: data_op_def)
    ultimately show ?thesis using r e(2-5) g(2) op Cons.prems(5)
      by (intro exI [of _ "msg_evs ([], op, cmpd, hd zs, map (Pair []) (tl zs)) @ evs"]) simp
  qed
qed

lemma rx_decode_data:
  "rx_decode infl rt R D msgs = Some out \<Longrightarrow> list_all (framed pmd) msgs \<Longrightarrow> list_all msg_sized msgs \<Longrightarrow>
     rx_decode infl rt R D (filter data_op msgs) = Some (filter data_op out)"
proof (induction msgs arbitrary: D out)
  case (Cons m msgs)
  obtain op cmpd zs where m: "m = (op, cmpd, zs)" by (cases m)
  have "op \<notin> {Text, Binary} \<longrightarrow> \<not> cmpd" using Cons.prems(2,3) m by (auto simp: framed_def msg_sized_def)
  then show ?case using Cons m by (auto simp: data_op_def split: if_splits option.splits)
qed simp

section \<open>Two endpoints\<close>

text \<open>The compression a sender uses and the one its peer reads with fit together, as the handshake arranges.\<close>

definition matched :: "Compression option \<Rightarrow> Compression option \<Rightarrow> bool" where
  "matched tx rcv \<longleftrightarrow>
    (case (tx, rcv) of
       (None, None) \<Rightarrow> True
     | (Some s, Some r) \<Rightarrow> (SendContextTakeover s \<longrightarrow> ReceiveContextTakeover r) \<and> full_bits (SendWindowBits s) \<le> full_bits (ReceiveWindowBits r)
     | _ \<Rightarrow> False)"

text \<open>The history the receiving side of a configuration keeps.\<close>

definition recv_window :: "'w Config \<Rightarrow> nat" where
  "recv_window cfg =
    (case cfg_Compression cfg of
       Some k \<Rightarrow> if ReceiveContextTakeover k then Size \<lparr>Bits = ReceiveWindowBits k, wbuf = [], wcap = 0, gen = 0\<rparr> else windowSize
     | None \<Rightarrow> windowSize)"

definition recv_takeover :: "'w Config \<Rightarrow> bool" where
  "recv_takeover cfg \<longleftrightarrow> (case cfg_Compression cfg of Some k \<Rightarrow> ReceiveContextTakeover k | None \<Rightarrow> False)"

lemma matched_window:
  assumes "matched cmpr (cfg_Compression cfg)" "config_valid cmpr" "\<not> bad_compression (cfg_Compression cfg)" "w = new_wconn a' role vectored fsz shared cmpr net' ps'"
  shows "takeover w \<longrightarrow> recv_takeover cfg" "wreach w \<le> recv_window cfg" "(cfg_Compression cfg \<noteq> None) = (cmpr \<noteq> None)"
proof -
  show "(cfg_Compression cfg \<noteq> None) = (cmpr \<noteq> None)" using assms(1) by (auto simp: matched_def split: option.splits)
  have wc: "w_comp w = new_compressorContext a' shared cmpr" by (simp add: assms(4) new_wconn_def)
  show "takeover w \<longrightarrow> recv_takeover cfg"
    using assms(1) by (auto simp: takeover_def recv_takeover_def wc new_compressorContext_def new_window_def matched_def split: option.splits if_splits)
  show "wreach w \<le> recv_window cfg"
  proof (cases cmpr)
    case None
    then show ?thesis by (simp add: wreach_def wc new_compressorContext_def)
  next
    case (Some s)
    obtain r where r: "cfg_Compression cfg = Some r" "full_bits (SendWindowBits s) \<le> full_bits (ReceiveWindowBits r)"
      using assms(1) Some by (auto simp: matched_def split: option.splits)
    have vs: "validBits (SendWindowBits s)" using assms(2) Some by (simp add: config_valid_def)
    have vr: "validBits (ReceiveWindowBits r)" using assms(3) r(1) by (simp add: bad_compression_def)
    have w: "wreach w = 2 ^ nat (full_bits (SendWindowBits s))"
      using vs Some by (auto simp: wreach_def wc new_compressorContext_def cfg_window_def full_bits_def validBits_def windowSize_def)
    have z: "Size \<lparr>Bits = ReceiveWindowBits r, wbuf = [], wcap = 0, gen = 0\<rparr> = 2 ^ nat (full_bits (ReceiveWindowBits r))"
      using vr by (auto simp: Size_def full_bits_def windowSize_def validBits_def)
    have "full_bits (SendWindowBits s) \<le> 15" using vs by (auto simp: full_bits_def validBits_def)
    then have "2 ^ nat (full_bits (SendWindowBits s)) \<le> (2 :: nat) ^ nat 15" by (intro power_increasing nat_mono) auto
    moreover have "2 ^ nat (full_bits (SendWindowBits s)) \<le> (2 :: nat) ^ nat (full_bits (ReceiveWindowBits r))" using r(2) by (intro power_increasing nat_mono) auto
    ultimately show ?thesis unfolding w recv_window_def using r(1) z by (simp add: windowSize_def)
  qed
qed

text \<open>The default handler answers on a transport that takes writes.\<close>

lemma control_send_ok:
  assumes "net_ready w" "rand_ok E" "op \<in> {Ping, Pong}" "length p \<le> 125"
  shows "\<exists>w'. conn_send E op p w = (None, w') \<and> net_ready w'"
proof -
  have "call_ok (TxEncode op p)" using assms(3,4) by (auto simp: call_ok_def)
  from with_tx_goes [OF this assms(1,2) tx_frame.simps(1)]
  obtain h b w1 where t: "with_tx E (\<lambda>gc rnd. sender_Encode gc rnd op p) w = (Inr (h, b), w1)" "net_ready w1" by auto
  have "n_script (w_net w1) = []" using t(2) by (simp add: net_ready_def)
  then show ?thesis using t assms(3) by (auto simp: conn_send_def conn_write_ok net_ready_def)
qed

lemma default_answers: "rand_ok E \<Longrightarrow> answers (DefaultControlHandler E) net_ready"
  using control_send_ok [of _ E Pong]
  by (auto simp: answers_def DefaultControlHandler_def Default_OnPing_def Default_OnPong_def conn_Pong_def)

lemma op_known: "list_all (wop_ok infl) xs \<Longrightarrow> m \<in> set (map wop_msg xs) \<Longrightarrow> fst m \<in> {Text, Binary} \<or> fst m \<in> {Ping, Pong} \<and> length (snd m) \<le> 125"
  by (induction xs) (auto simp: prep_ok_def elim!: wop_ok.elims)

lemma decoded_sized:
  assumes "rx_decode infl rt R D msgs = Some out" "list_all (framed pmd) msgs" "\<forall>m\<in>set out. fst m \<in> {Text, Binary} \<or> fst m \<in> {Ping, Pong} \<and> length (snd m) \<le> 125"
    "\<forall>m\<in>set msgs. length (concat (snd (snd m))) < 2 ^ 63"
  shows "list_all msg_sized msgs"
  using assms
proof (induction msgs arbitrary: D out)
  case (Cons m msgs)
  obtain op cmpd zs where m: "m = (op, cmpd, zs)" by (cases m)
  then obtain p D' out' where o: "out = (op, p) # out'" "rx_decode infl rt R D' msgs = Some out'" "\<not> cmpd \<longrightarrow> p = concat zs"
    using Cons.prems(1) by (auto split: if_splits option.splits)
  have "list_all msg_sized msgs" using Cons.IH [OF o(2)] Cons.prems(2-4) o(1) by simp
  moreover have "op \<in> {Ping, Pong} \<longrightarrow> \<not> cmpd" using Cons.prems(2) m by (simp add: framed_def)
  ultimately show ?case using Cons.prems(3,4) m o by (auto simp: msg_sized_def)
qed simp

text \<open>What \<open>Serve\<close> does with everything a peer has sent, before the transport ends.\<close>

lemma Serve_stream:
  assumes fl: "inflater (dv_flate (re_d E)) I gone st" and H: "serves H nt Q"
    and N: "NewConn a (Some (net, rs, v)) cfg ps bufs mpool dpool = Inr c" "pools_ok bufs" "list_all dec_ready dpool"
      "(conn_limit cfg + 1) * (conn_limit cfg + 9) < 2 ^ 58" "Q (c_w c)" "answers (handler_of E c) Q" "role_of (cfg_Role cfg) = Some (peer role)"
    and rd: "reads bs [RdErr EOF] rs" and w: "wired role bs (frames_of msgs)" "list_all (framed (cfg_Compression cfg \<noteq> None)) msgs"
    and dec: "rx_decode (decoded st (rx_size c)) (rx_takeover c) (rx_size c) [] msgs = Some out"
      "\<forall>m\<in>set out. fst m \<in> {Text, Binary} \<or> fst m \<in> {Ping, Pong} \<and> length (snd m) \<le> 125"
    and fit: "\<forall>m\<in>set msgs. int (length (concat (snd (snd m)))) \<le> conn_limit cfg"
      "\<forall>m\<in>set out. data_op m \<longrightarrow> int (length (snd m)) \<le> conn_limit cfg \<and> (fst m = Text \<and> ValidateUTF8 cfg \<longrightarrow> Valid (snd m))"
  shows "\<exists>c'. Serve E H h c = Some (EOF, fold nt (filter data_op out) h, c')"
proof -
  note nr = NewConn_ready [where Q = Q, OF N(1-6)]
  have l63: "conn_limit cfg < 2 ^ 63" using limit_small nr(1) by (simp add: ready_def nr(3))
  have "length (concat (snd (snd m))) < 2 ^ 63" if "m \<in> set msgs" for m
  proof -
    have "int (length (concat (snd (snd m)))) < int (2 ^ 63)" using fit(1) that l63 by fastforce
    then show ?thesis by (simp only: of_nat_less_iff)
  qed
  then have sized: "list_all msg_sized msgs" using decoded_sized [OF dec(1) w(2) dec(2)] by blast
  obtain ws t where g: "grouped [] msgs = (ws, t)" by (cases "grouped [] msgs")
  obtain evs where e: "byte_run (peer role) (cfg_Compression cfg \<noteq> None) (Head [], 0) bs = ((Head [], 0), evs)" "evs = concat (map msg_evs ws) @ map ctl_ev t"
    "list_all msg_ok ws" "list_all pingpong t" "map plain_msg ws = filter data_op msgs"
    using grouped_ok [OF w(2) sized w(1) g] by auto
  have role: "rx_role (c_rx c) = peer role" using N(7) nr(7) by simp
  have fu: "fut (c_rx c) bs = ((Head [], 0), concat (map msg_evs ws) @ map ctl_ev t)" using nr(6) [of bs] e(1,2) role by simp
  have nb: "\<not> leads_byte (map ctl_ev t)" "map ctl_ev t = [] \<longrightarrow> \<not> in_data (Head [], 0)" by (cases t; auto elim: ctl_ev.elims) (simp add: in_data_def)
  have dd: "rx_decode (decoded st (rx_size c)) (rx_takeover c) (rx_size c) (rx_dict c) (map plain_msg ws) = Some (filter data_op out)"
    using rx_decode_data [OF dec(1) w(2) sized] e(5) nr(5) by simp
  have mb: "msg_bytes x = concat (snd (snd (plain_msg x)))" for x by (cases x) simp
  have f1: "list_all (\<lambda>w. int (length (msg_bytes w)) \<le> c_limit c) ws"
  proof -
    have "plain_msg x \<in> set msgs" if "x \<in> set ws" for x
      using that arg_cong [OF e(5), of set] by (metis (no_types, lifting) filter_is_subset imageI list.set_map subsetD)
    then show ?thesis using fit(1) mb nr(3) by (auto simp: list_all_iff)
  qed
  have f2: "list_all (readable c) (filter data_op out)" using fit(2) nr(3,4) by (auto simp: list_all_iff readable_def)
  have rds: "reads bs [RdErr EOF] (c_in c)" using rd nr(2) by simp
  obtain c' b' where s: "Serve E H h c = Serve E H (fold nt (filter data_op out) h) c'" "ready E Q c'" "reads b' [RdErr EOF] (c_in c')"
    "fut (c_rx c') b' = ((Head [], 0), map ctl_ev t)"
    using Serve_messages [OF fl H nr(1) rds fu e(3) nb dd f1 f2, of h] by (elim exE conjE) (rule that; assumption)
  have "stop_answer E Q c' (Head [], 0) [RdErr EOF] [] (ReadMessage E c')"
    by (rule ReadMessage_stop [OF s(2,3) _ e(4)]) (simp_all add: s(4))
  then obtain c2 where "ReadMessage E c' = Some (Inl EOF, c2)" by (auto simp: stop_answer_def end_error_def)
  then have "Serve E H h' c' = Some (EOF, h', c2)" for h' by (subst Serve.simps) simp
  with s(1) show ?thesis by auto
qed

lemma new_net_ready: "n_script net = [] \<Longrightarrow> net_ready (new_wconn a role vectored fsz shared cmpr net ps)"
  by (simp add: net_ready_def new_wconn_def tx_ready_def sender_inv_def sender_Init_def zero_sender_def)


section \<open>A concrete pair of endpoints\<close>

text \<open>An encoder of literals that the format \<open>lit_stream\<close> reads.\<close>

definition mark_flate :: "bytes flate_writer" where
  "mark_flate = \<lparr>ResetDict = (\<lambda>d w. d), FWrite = (\<lambda>p w. (None, concat (map (\<lambda>b. [2, b]) p), w @ p)),
     FFlush = (\<lambda>w. (None, sync_tail, w)), NewWriter = (\<lambda>l. Inr []), NewWriterWindow = (\<lambda>n. Inr [])\<rparr>"

lemma mark_history: "flate_history mark_flate (\<lambda>w. w)"
  by (simp add: flate_history_def mark_flate_def)

lemma lit_stream_literals:
  "lit_stream (concat (map (\<lambda>b. [2, b]) p) @ s) = map_option (\<lambda>(q, r). (p @ q, r)) (lit_stream s)"
  by (induction p) (auto simp: option.map_ident split: option.splits)

lemma mark_stream: "lit_stream (emitted_all mark_flate ps w @ s) = map_option (\<lambda>(q, r). (concat ps @ q, r)) (lit_stream s)"
proof (induction ps arbitrary: w)
  case Nil
  then show ?case by (cases "lit_stream s") auto
next
  case (Cons p ps)
  have "emitted mark_flate p w = concat (map (\<lambda>b. [2, b]) p) @ sync_tail" by (simp add: emitted_def mark_flate_def)
  with Cons show ?case by (cases "lit_stream s") (auto simp: lit_stream_literals)
qed

lemma mark_decodes: "flate_decodes mark_flate (\<lambda>w. w) (decoded (\<lambda>D. lit_stream) R) m"
  by (auto simp: flate_decodes_def whole_def mark_stream)

definition mark_env :: "bytes env" where
  "mark_env = \<lparr>e_flate = mark_flate, e_gc = (\<lambda>c n. n), e_rand = (\<lambda>k. [1, 2, 3, 4]), e_pick = (\<lambda>k. Some 0), e_wait = (\<lambda>s. None)\<rparr>"

definition sys_ops :: "wop list" where
  "sys_ops = [OpWrite Text [104, 105], OpPing [6], OpFragments Binary [[3], [4, 5]], OpFrom Text [104, 105, 106]]"

definition sys_sent :: bytes where
  "sys_sent = (case do_ops mark_env sys_ops demo_conn of Some w \<Rightarrow> wout w | None \<Rightarrow> [])"

lemma sys_sent_length: "(case do_ops mark_env sys_ops demo_conn of Some w \<Rightarrow> wout w \<noteq> [] \<and> length (wout w) \<le> 100 | None \<Rightarrow> False)"
  by code_simp

lemma wired_size: "wired role b fs \<Longrightarrow> sum_list (map (\<lambda>(op, final, rsv1, p). length p) fs) \<le> length b"
proof (induction rule: wired.induct)
  case (wired_Cons key b frs op final rsv1 p)
  then show ?case by (cases key) (auto simp: wire_frame_def)
qed simp

lemma msg_frames_size: "sum_list (map (\<lambda>(op, final, rsv1, p). length p) (msg_frames op cmpd zs)) = length (concat zs)"
  by (induction op cmpd zs rule: msg_frames.induct) auto

lemma frames_of_size: "m \<in> set msgs \<Longrightarrow> length (concat (snd (snd m))) \<le> sum_list (map (\<lambda>(op, final, rsv1, p). length p) (frames_of msgs))"
  by (induction msgs) (auto simp: frames_of_def msg_frames_size)

definition sys_renv :: "(bytes, go_error toy) renv" where
  "sys_renv = \<lparr>re_w = mark_env, re_d = \<lparr>dv_flate = toy_reader (\<lambda>D. lit_stream), dv_gc = (\<lambda>c n. n), dv_pick = (\<lambda>k. None)\<rparr>, re_pick = (\<lambda>k. None)\<rparr>"


definition sys_config :: "bytes Config" where
  "sys_config = \<lparr>cfg_Role = 1, ReadBufferSize = 16, MaxMessageSize = 1000, FragmentSize = 0, ValidateUTF8 = True,
     cfg_Compression = Some demo_config, CompressionShared = False, cfg_ControlHandler = None\<rparr>"

definition sys_client :: "bytes \<Rightarrow> (bytes, go_error toy) conn" where
  "sys_client b =
    (case NewConn 9 (Some (\<lparr>n_out = [], n_script = []\<rparr>, [RdData b, RdErr EOF], True)) sys_config (\<lambda>i. []) (\<lambda>k. []) [] [] of
       Inr c \<Rightarrow> c | Inl _ \<Rightarrow> undefined)"

lemma sys_client_new:
  "NewConn 9 (Some (\<lparr>n_out = [], n_script = []\<rparr>, [RdData b, RdErr EOF], True)) sys_config (\<lambda>i. []) (\<lambda>k. []) [] [] = Inr (sys_client b)"
  by (simp add: sys_client_def NewConn_def sys_config_def role_of_def bad_compression_def demo_config_def validBits_def)

definition sys_log :: "((opcode \<times> bytes) list, bytes, go_error toy) MessageHandler" where
  "sys_log op p h c = Some (None, h @ [(op, p)], c)"

lemma sys_log_serves: "serves sys_log (\<lambda>m h. h @ [m]) net_ready"
proof -
  have "c = c\<lparr>c_w := c_w c\<rparr>" for c :: "(bytes, go_error toy) conn" by simp
  then show ?thesis unfolding serves_def sys_log_def by (metis (no_types))
qed

lemma sys_sender:
  "flate_history (e_flate mark_env) (\<lambda>w. w)" "flate_decodes (e_flate mark_env) (\<lambda>w. w) (decoded (\<lambda>D. lit_stream) (recv_window sys_config)) (wreach demo_conn)"
  "rand_ok mark_env" "config_valid (Some demo_config)" "0 \<le> (2 :: int)" "n_script \<lparr>n_out = [], n_script = []\<rparr> = []" "comp_pools_ok (\<lambda>i. [])"
  "list_all (wop_ok (decoded (\<lambda>D. lit_stream) (recv_window sys_config))) sys_ops" "sum_list (map wop_cost sys_ops) \<le> 2 ^ 64"
  by (simp_all add: mark_env_def mark_history mark_decodes rand_ok_def config_valid_def demo_config_def validBits_def comp_pools_ok_def sys_ops_def)

lemma sys_receiver:
  "inflater (dv_flate (re_d sys_renv)) (toy_at (\<lambda>D. lit_stream)) toy_gone (\<lambda>D. lit_stream)" "rand_ok (re_w sys_renv)" "serves sys_log (\<lambda>m h. h @ [m]) net_ready"
  using toy_inflater [OF lit_prefix_decided] sys_log_serves sys_sender(3) by (simp_all add: sys_renv_def)

lemma sys_config_ok:
  "matched (Some demo_config) (cfg_Compression sys_config)" "\<not> bad_compression (cfg_Compression sys_config)"
  "role_of (cfg_Role sys_config) = Some (peer Server)" "cfg_ControlHandler sys_config = None"
  "(conn_limit sys_config + 1) * (conn_limit sys_config + 9) < 2 ^ 58" "n_script \<lparr>n_out = [], n_script = []\<rparr> = []" "pools_ok (\<lambda>k. [])" "list_all dec_ready []"
  "list_all (\<lambda>(op, p). op \<in> {Text, Binary} \<longrightarrow> int (length p) \<le> conn_limit sys_config \<and> (op = Text \<and> ValidateUTF8 sys_config \<longrightarrow> Valid p)) (map wop_msg sys_ops)"
proof -
  have "Valid [104, 105]" "Valid [104, 105, 106]" by code_simp+
  then show "list_all (\<lambda>(op, p). op \<in> {Text, Binary} \<longrightarrow> int (length p) \<le> conn_limit sys_config \<and> (op = Text \<and> ValidateUTF8 sys_config \<longrightarrow> Valid p)) (map wop_msg sys_ops)"
    by (simp add: sys_ops_def sys_config_def conn_limit_def cmp_Or_def)
qed (simp_all add: matched_def sys_config_def demo_config_def full_bits_def bad_compression_def validBits_def role_of_def conn_limit_def cmp_Or_def pools_ok_def peer_def)


end
