(* ===== verification/ConnRead_Cut.thy ===== *)
theory ConnRead_Cut
  imports ConnRead_Thm
begin

text \<open>
  Streams that stop anywhere: in the middle of a frame's payload, between the frames of a message, or
  at a close frame or protocol error there. Together with \<open>ConnRead_Thm\<close> this gives what
  \<open>ReadMessage\<close> does on every stream.
\<close>

section \<open>The events of a receiver\<close>

lemma live_events:
  assumes "rx_live r" "fut r b = (fs, evs)"
  shows "events_ok (compression r) (phase_open (base r)) evs"
proof -
  have "phase_ok (base r)"
    using assms(1) by (auto simp: rx_live_def rx_inv_def phase_ok_def base_def ControlPayload_def unat_gt_0)
  then show ?thesis using byte_run_events assms(2) unfolding fut_def by blast
qed

lemma no_data_between:
  assumes "rx_live r" "rx_remaining r = 0" "fut r b = (fs, map EvByte p)"
  shows "\<not> in_data fs"
proof -
  have p: "p = []" using no_byte_between [of r b fs p "[]"] assms by (simp add: rx_live_def)
  have ctl: "snd (byte_run role pmd (Ctl op n key acc, msg) bs) = [] \<Longrightarrow> \<not> in_data (fst (byte_run role pmd (Ctl op n key acc, msg) bs))"
    for role pmd op n key acc msg bs
  proof (induction bs arbitrary: n acc)
    case (Cons c cs)
    then show ?case using ctl_done_event by (auto simp: split_def Let_def split: if_splits)
  qed (simp add: in_data_def)
  have hdr: "snd (byte_run role pmd (Head hs, msg) bs) = [] \<Longrightarrow> \<not> in_data (fst (byte_run role pmd (Head hs, msg) bs))"
    for role pmd hs msg bs
  proof (induction bs arbitrary: hs)
    case (Cons c cs)
    show ?case
    proof (cases "head_complete (hs @ [c])")
      case False
      with Cons show ?thesis by (auto simp: split_def Let_def)
    next
      case True
      with Cons.prems ctl ctl_done_event show ?thesis by (auto simp: head_done_def split_def Let_def split: if_splits)
    qed
  qed (simp add: in_data_def)
  have live: "failed r = None" "\<not> closeReceived r" using assms(1) by (simp_all add: rx_live_def)
  show ?thesis
  proof (cases "controlOpen r")
    case True
    with live assms(3) p have "byte_run (rx_role r) (compression r) (Ctl (controlOpcode r) (unat (remaining (rx_dec r))) (rkey r) (ControlPayload r), messageOpcode r)
       (pending (rx_dec r) @ b) = (fs, [])" by (simp add: fut_def base_def)
    then show ?thesis using ctl by (metis fst_conv snd_conv)
  next
    case False
    with live assms(2,3) p have "byte_run (rx_role r) (compression r) (Head [], messageOpcode r) (pending (rx_dec r) @ b) = (fs, [])"
      by (simp add: fut_def base_def)
    then show ?thesis using hdr by (metis fst_conv snd_conv)
  qed
qed

text \<open>Between frames the next event that is not an answered control frame is not a payload byte.\<close>

fun frame_first :: "event list \<Rightarrow> bool" where
  "frame_first (EvByte b # es) = False"
| "frame_first (EvControl op p # es) = frame_first es"
| "frame_first _ = True"

lemma ctl_frame_first:
  assumes "\<And>msg. frame_first (snd (byte_run role pmd (Head [], msg) bs))"
  shows "frame_first (snd (ctl_done msg op p) @ snd (byte_run role pmd (fst (ctl_done msg op p)) bs))"
  using assms [of msg] by (auto simp: ctl_done_def split: option.splits)

lemma head_frame_first:
  "frame_first (snd (byte_run role pmd (Head hs, msg) bs)) \<and> frame_first (snd (byte_run role pmd (Ctl op n key acc, msg) bs))"
proof (induction bs arbitrary: hs msg op n key acc)
  case (Cons c cs)
  note hf = conjunct1 [OF Cons.IH] and cf = conjunct2 [OF Cons.IH]
  have "frame_first (snd (byte_run role pmd (Ctl op n key acc, msg) (c # cs)))"
    using ctl_frame_first [OF hf] cf by (auto simp: split_def Let_def)
  moreover have "frame_first (snd (byte_run role pmd (Head hs, msg) (c # cs)))"
  proof (cases "head_complete (hs @ [c])")
    case False
    then show ?thesis using hf by (auto simp: split_def Let_def)
  next
    case True
    then show ?thesis using ctl_frame_first [OF hf] cf by (auto simp: head_done_def split_def Let_def)
  qed
  ultimately show ?case by blast
qed simp

lemma between_frame_first:
  assumes "rx_live r" "rx_remaining r = 0" "fut r b = (fs, map ctl_ev cs @ evs)"
  shows "\<not> leads_byte evs"
proof -
  have "frame_first (snd (fut r b))"
    using assms(1,2) head_frame_first by (auto simp: fut_def base_def rx_live_def)
  moreover have "frame_first (map ctl_ev cs @ evs) = frame_first evs"
    by (induction cs) (auto elim!: ctl_ev.elims)
  ultimately show ?thesis using assms(3) by (auto elim: leads_byte.elims)
qed

section \<open>A frame cut short\<close>

definition cut_at :: "receiver \<Rightarrow> bytes \<Rightarrow> astate \<Rightarrow> bytes \<Rightarrow> bool" where
  "cut_at r b fs p \<longleftrightarrow> rx_live r \<and> rx_remaining r \<noteq> 0 \<and> fut r b = (fs, map EvByte p) \<and> in_data fs"

lemma Payload_cut:
  assumes "cut_at r b fs p"
  obtains chunk r1 p1 where "receiver_PayloadN n r = (Inr (chunk, False), r1)" "p = chunk @ p1" "cut_at r1 b fs p1"
     "Buffered (rx_dec r) = length chunk + Buffered (rx_dec r1)" "nat n \<le> length chunk \<or> pending (rx_dec r1) = []"
     "unat (rx_remaining r) = length chunk + unat (rx_remaining r1)"
proof -
  have live: "rx_inv r" "failed r = None" "\<not> closeReceived r" "rx_remaining r \<noteq> 0" and fu: "fut r b = (fs, map EvByte p)" and dat: "in_data fs"
    using assms by (simp_all add: cut_at_def rx_live_def)
  obtain chunk dn r1 where r: "receiver_PayloadN n r = (Inr (chunk, dn), r1)" "rx_inv r1" "sim r r1 (map EvByte chunk)" "failed r1 = None"
    "dn \<longleftrightarrow> rx_remaining r1 = 0" "unat (rx_remaining r) = length chunk + unat (rx_remaining r1)"
    "Buffered (rx_dec r) = length chunk + Buffered (rx_dec r1)" "length chunk \<le> nat n" "dn \<or> nat n \<le> length chunk \<or> pending (rx_dec r1) = []"
    "rx_header r1 = rx_header r" "rx_compressed r1 = rx_compressed r" "closeReceived r1 = closeReceived r"
    "messageOpcode r1 = (if dn \<and> Final (rx_header r) then 0 else messageOpcode r)"
    using receiver_PayloadN_sim [OF live(1,2,4), of n] by (elim exE conjE) (rule that)
  have l1: "rx_live r1" using r(2,4,12) live(3) by (simp add: rx_live_def)
  have f: "fut r b = (fst (fut r1 b), map EvByte chunk @ snd (fut r1 b))" by (rule fut_sim [OF r(3)])
  then have e: "map EvByte p = map EvByte chunk @ snd (fut r1 b)" "fs = fst (fut r1 b)" using fu by simp_all
  then obtain p1 where p1: "p = chunk @ p1" "snd (fut r1 b) = map EvByte p1"
    by (auto simp: map_eq_append_conv inj_def dest!: map_injective)
  have fu1: "fut r1 b = (fs, map EvByte p1)" using e(2) p1(2) by (cases "fut r1 b") simp
  have rz: "rx_remaining r1 \<noteq> 0" using no_data_between [OF l1 _ fu1] dat by blast
  show ?thesis
    by (rule that [of chunk r1 p1]) (use r rz p1(1) fu1 l1 dat in \<open>auto simp: cut_at_def\<close>)
qed

lemma cut_read:
  assumes "cut_at (c_rx c) b fs p" "pending (rx_dec (c_rx c)) = []" "reads b (RdErr e # rest) (c_in c)" "0 < k"
  obtains "b = []" "conn_read k c = Some (Inl (end_error e False), c\<lparr>c_in := rest\<rparr>)"
  | d b' s' where "conn_read k c = Some (Inr d, c\<lparr>c_in := s'\<rparr>)" "d \<noteq> []" "b = d @ b'" "reads b' (RdErr e # rest) s'" "cut_at (receiver_Feed d (c_rx c)) b' fs p"
proof (cases "b = []")
  case True
  have "\<not> receiver_Idle (c_rx c)" using assms(1) by (simp add: cut_at_def receiver_Idle_def)
  with True assms(3) conn_read_error [of c e rest k] show ?thesis by (intro that(1)) (auto simp: reads_Nil)
next
  case False
  obtain d b' s' where r: "conn_read k c = Some (Inr d, c\<lparr>c_in := s'\<rparr>)" "d \<noteq> []" "b = d @ b'" "reads b' (RdErr e # rest) s'"
    using conn_read_ok [OF assms(3) False assms(4)] by auto
  have l: "rx_live (c_rx c)" using assms(1) by (simp add: cut_at_def)
  have "cut_at (receiver_Feed d (c_rx c)) b' fs p"
    using assms(1) r(3) rx_fed [OF l, of d] fut_Feed [OF stopped_empty [OF assms(2)], of d b'] by (simp add: cut_at_def rx_same_def)
  with r show ?thesis by (rule that(2))
qed

lemma assemble_frame_cut:
  assumes "cut_at (c_rx c) b fs p" "reads b (RdErr e # rest) (c_in c)" "0 < c_buf c" "pools_ok (c_bufs c)" "c_msg c = None \<longrightarrow> fst msg = []"
    "unat (rx_remaining (c_rx c)) < 2 ^ 63"
  shows "\<exists>c'. assemble_frame E msg c = Some (Inl (end_error e False), c')"
  using assms
proof (induction "2 * length b + Buffered (rx_dec (c_rx c))" arbitrary: c b p msg rule: less_induct)
  case less
  note cut = less.prems(1) and rd = less.prems(2) and buf = less.prems(3) and pk = less.prems(4) and cm = less.prems(5) and big = less.prems(6)
  let ?n = "int (Buffered (rx_dec (c_rx c)))"
  obtain chunk r1 p1 where r: "receiver_PayloadN ?n (c_rx c) = (Inr (chunk, False), r1)" "p = chunk @ p1" "cut_at r1 b fs p1"
     "Buffered (rx_dec (c_rx c)) = length chunk + Buffered (rx_dec r1)" "nat ?n \<le> length chunk \<or> pending (rx_dec r1) = []"
     "unat (rx_remaining (c_rx c)) = length chunk + unat (rx_remaining r1)"
    by (rule Payload_cut [OF cut, of ?n])
  have P: "receiver_Payload (c_rx c) = (Inr (chunk, False), r1)" using r(1) by (simp add: receiver_Payload_def)
  have pend: "pending (rx_dec r1) = []" using r(4) r(5) [unfolded nat_int] by (auto simp: Buffered_def)
  let ?c = "c\<lparr>c_rx := r1\<rparr>"
  have l1: "unat (rx_remaining r1) < 2 ^ 63" using big r(6) by simp
  have rem: "rx_remaining r1 \<noteq> 0" and live: "rx_live r1" using r(3) by (simp_all add: cut_at_def)
  have "0 < unat (rx_remaining r1)" using rem by (simp add: unat_gt_0)
  then have ri: "0 < Remaining_int r1" unfolding Remaining_int_small [OF l1] by (simp only: of_nat_0_less_iff)
  show ?case
  proof (cases "chunk = []")
    case False
    obtain cap c1 where a: "appendMsg E msg chunk ?c = Some ((fst msg @ chunk, cap), c1)" "pools_ok (c_bufs c1)" "same_io ?c c1" "c_msg c1 \<noteq> None"
      using appendMsg_ok [of ?c msg E chunk] pk cm ri by auto
    have s: "c_rx c1 = r1" "c_in c1 = c_in c" "c_buf c1 = c_buf c" using a(3) by (simp_all add: same_io_def same_conn_def)
    have e: "assemble_frame E msg c = assemble_frame E (fst msg @ chunk, cap) c1"
      using P a(1) False by (subst assemble_frame.simps) simp
    have lt: "2 * length b + Buffered (rx_dec (c_rx c1)) < 2 * length b + Buffered (rx_dec (c_rx c))" using r(4) s(1) False by (cases chunk) auto
    show ?thesis unfolding e by (rule less.hyps [OF lt]) (use r(3) s rd buf a(2,4) l1 in auto)
  next
    case True
    show ?thesis
    proof (cases "rx_remaining r1 \<ge> of_nat (c_buf c)")
      case big: True
      obtain cap c1 where g: "growMsg E msg (Remaining_int r1) ?c = Some ((fst msg, cap), c1)" "int (length (fst msg)) + Remaining_int r1 \<le> int cap"
          "pools_ok (c_bufs c1)" "same_io ?c c1" "c_msg c1 \<noteq> None"
        using growMsg_ok [of ?c "Remaining_int r1" msg E] pk cm ri by auto
      have s: "c_rx c1 = r1" "c_in c1 = c_in c" "c_buf c1 = c_buf c" using g(4) by (simp_all add: same_io_def same_conn_def)
      have q: "cut_at (c_rx c1) b fs p1" "pending (rx_dec (c_rx c1)) = []" "reads b (RdErr e # rest) (c_in c1)" "0 < nat (Remaining_int r1)"
        using r(3) pend rd ri s by simp_all
      have nn: "\<not> (Remaining_int r1 < 0 \<or> int (length (fst msg)) + Remaining_int r1 > int cap)" using g(2) ri by linarith
      show ?thesis
      proof (rule cut_read [OF q])
        assume "conn_read (nat (Remaining_int r1)) c1 = Some (Inl (end_error e False), c1\<lparr>c_in := rest\<rparr>)"
        then have "readInto E msg (Remaining_int r1) ?c = Some (Inl (end_error e False), c1\<lparr>c_in := rest\<rparr>)"
          using g(1) nn by (simp add: readInto_def)
        then show ?thesis using P True big by (subst assemble_frame.simps) simp
      next
        fix d b' s'
        assume d: "conn_read (nat (Remaining_int r1)) c1 = Some (Inr d, c1\<lparr>c_in := s'\<rparr>)" "d \<noteq> []" "b = d @ b'" "reads b' (RdErr e # rest) s'"
          "cut_at (receiver_Feed d (c_rx c1)) b' fs p1"
        obtain ch r2 p2 where t: "receiver_PayloadN (int (length d)) (receiver_Feed d (c_rx c1)) = (Inr (ch, False), r2)" "p1 = ch @ p2" "cut_at r2 b' fs p2"
           "Buffered (rx_dec (receiver_Feed d (c_rx c1))) = length ch + Buffered (rx_dec r2)"
           "nat (int (length d)) \<le> length ch \<or> pending (rx_dec r2) = []" "unat (rx_remaining (receiver_Feed d (c_rx c1))) = length ch + unat (rx_remaining r2)"
          by (rule Payload_cut [OF d(5), of "int (length d)"])
        let ?c2 = "c1\<lparr>c_in := s', c_rx := r2\<rparr>"
        have fd: "rx_remaining (receiver_Feed d r1) = rx_remaining r1" "Buffered (rx_dec (receiver_Feed d r1)) = length d"
          using rx_fed [OF live, of d] pend by (simp_all add: rx_same_def Buffered_def)
        have "readInto E msg (Remaining_int r1) ?c = Some (Inr (fst msg @ ch, cap), ?c2)"
          using g(1) nn d(1) t(1) s(1) by (simp add: readInto_def take_read_def)
        then have e: "assemble_frame E msg c = assemble_frame E (fst msg @ ch, cap) ?c2"
          using P True big by (subst assemble_frame.simps) simp
        have lt: "2 * length b' + Buffered (rx_dec (c_rx ?c2)) < 2 * length b + Buffered (rx_dec (c_rx c))"
          using t(4) fd(2) s(1) d(2,3) r(4) by (cases d) auto
        show ?thesis unfolding e by (rule less.hyps [OF lt]) (use t(3,6) s d(4) buf g(3,5) l1 fd(1) in auto)
      qed
    next
      case small: False
      have q: "cut_at (c_rx (c\<lparr>c_rx := receiver_Preserve r1\<rparr>)) b fs p1" "pending (rx_dec (c_rx (c\<lparr>c_rx := receiver_Preserve r1\<rparr>))) = []"
         "reads b (RdErr e # rest) (c_in (c\<lparr>c_rx := receiver_Preserve r1\<rparr>))" "0 < c_buf c"
        using r(3) pend rd buf rx_preserved [OF live] by (simp_all add: cut_at_def rx_same_def Buffered_def)
      show ?thesis
      proof (rule cut_read [OF q])
        assume "conn_read (c_buf c) (c\<lparr>c_rx := receiver_Preserve r1\<rparr>) = Some (Inl (end_error e False), c\<lparr>c_rx := receiver_Preserve r1, c_in := rest\<rparr>)"
        then have "conn_fill ?c = Some (Some (end_error e False), c\<lparr>c_rx := receiver_Preserve r1, c_in := rest\<rparr>)" by (simp add: conn_fill_def)
        then show ?thesis using P True small by (subst assemble_frame.simps) simp
      next
        fix d b' s'
        assume d: "conn_read (c_buf c) (c\<lparr>c_rx := receiver_Preserve r1\<rparr>) = Some (Inr d, c\<lparr>c_rx := receiver_Preserve r1, c_in := s'\<rparr>)" "d \<noteq> []" "b = d @ b'"
          "reads b' (RdErr e # rest) s'" "cut_at (receiver_Feed d (c_rx (c\<lparr>c_rx := receiver_Preserve r1\<rparr>))) b' fs p1"
        let ?c2 = "c\<lparr>c_rx := receiver_Feed d (receiver_Preserve r1), c_in := s'\<rparr>"
        have "conn_fill ?c = Some (None, ?c2)" using d(1) by (simp add: conn_fill_def)
        then have e: "assemble_frame E msg c = assemble_frame E msg ?c2" using P True small by (subst assemble_frame.simps) simp
        note pr = rx_preserved [OF live]
        have fd: "rx_remaining (receiver_Feed d (receiver_Preserve r1)) = rx_remaining r1" "Buffered (rx_dec (receiver_Feed d (receiver_Preserve r1))) = length d"
          using rx_fed [OF pr(1), of d] pr(2,3) pend by (simp_all add: rx_same_def Buffered_def)
        have lt: "2 * length b' + Buffered (rx_dec (c_rx ?c2)) < 2 * length b + Buffered (rx_dec (c_rx c))"
          using fd(2) d(2,3) r(4) by (cases d) auto
        show ?thesis unfolding e by (rule less.hyps [OF lt]) (use d(4,5) buf pk cm l1 fd(1) in simp_all)
      qed
    qed
  qed
qed

section \<open>Messages on any stream\<close>

text \<open>Every run of events begins with the rest of a payload, and between frames with answered control frames.\<close>

lemma payload_prefix: "\<exists>p es. evs = map EvByte p @ es \<and> \<not> leads_byte es"
proof (induction evs)
  case (Cons ev evs)
  then obtain p es where "evs = map EvByte p @ es" "\<not> leads_byte es" by blast
  then show ?case by (cases ev) (auto intro: exI [of _ "[]"] exI [of _ "_ # p"] simp: Cons_eq_append_conv)
qed (auto intro!: exI [of _ "[]"])

lemma control_prefix:
  assumes "events_ok pmd o1 evs"
  obtains cs evs' where "evs = map ctl_ev cs @ evs'" "list_all pingpong cs" "\<forall>op p es. evs' = EvControl op p # es \<longrightarrow> op = Close"
proof -
  have "\<exists>cs evs'. evs = map ctl_ev cs @ evs' \<and> list_all pingpong cs \<and> (\<forall>op p es. evs' = EvControl op p # es \<longrightarrow> op = Close)"
    using assms
  proof (induction evs)
    case (Cons ev evs)
    show ?case
    proof (cases "\<exists>op p. ev = EvControl op p \<and> op \<noteq> Close")
      case True
      then obtain op p where ev: "ev = EvControl op p" "op \<in> {Ping, Pong}" "events_ok pmd o1 evs" using Cons.prems by auto
      then obtain cs evs' where "evs = map ctl_ev cs @ evs'" "list_all pingpong cs" "\<forall>op p es. evs' = EvControl op p # es \<longrightarrow> op = Close" using Cons.IH by blast
      then show ?thesis using ev by (intro exI [of _ "(op, p) # cs"] exI [of _ evs']) (auto simp: pingpong_def [of "(op, p)"])
    next
      case False
      then show ?thesis by (intro exI [of _ "[]"] exI [of _ "ev # evs"]) auto
    qed
  qed (auto intro!: exI [of _ "[]"])
  then show ?thesis using that by blast
qed

lemma events_past_control:
  assumes "list_all pingpong cs" "events_ok pmd o1 (map ctl_ev cs @ evs)"
  shows "events_ok pmd o1 evs"
proof -
  have "Close \<notin> {Ping, Pong}" by (simp add: Close_def Ping_def Pong_def)
  with assms show ?thesis by (induction cs) (auto simp: pingpong_def)
qed

text \<open>A handler that also answers a close frame.\<close>

definition closes :: "'w ControlHandler \<Rightarrow> ('w wconn \<Rightarrow> bool) \<Rightarrow> bool" where
  "closes h Q \<longleftrightarrow> (\<forall>w code reason. Q w \<longrightarrow> OnClose h code reason w \<noteq> None)"

text \<open>Fetching a frame returns on every stream.\<close>

definition frame_or_error :: "('w, 'r) renv \<Rightarrow> ('w wconn \<Rightarrow> bool) \<Rightarrow> ('w, 'r) conn \<Rightarrow> astate \<Rightarrow> nat \<Rightarrow> rdev list \<Rightarrow> (go_error option \<times> ('w, 'r) conn) option \<Rightarrow> bool" where
  "frame_or_error E Q c fs n rest res \<longleftrightarrow>
     (\<exists>e c'. res = Some (Some e, c')) \<or>
     (\<exists>c1 b1 op fin rsv1 es. res = Some (None, c1) \<and> same_read c c1 \<and> Q (c_w c1) \<and> rx_live (c_rx c1) \<and> reads b1 rest (c_in c1) \<and> fut (c_rx c1) b1 = (fs, es)
        \<and> frame_at (c_rx c) op fin rsv1 (c_rx c1) \<and> length es < n
        \<and> (if messageOpcode (c_rx c) \<noteq> 0 then op = Continuation else op \<in> {Text, Binary}))"

lemma nextFrame_any:
  assumes an: "answers (handler_of E c) Q" "closes (handler_of E c) Q" and c: "rx_live (c_rx c)" "rx_remaining (c_rx c) = 0" "0 < c_buf c" "Q (c_w c)"
    and rd: "reads b (RdErr e # rest) (c_in c)" "fut (c_rx c) b = (fs, evs)"
  shows "frame_or_error E Q c fs (length evs) (RdErr e # rest) (nextFrame E c)"
proof -
  obtain cs evs' where evs: "evs = map ctl_ev cs @ evs'" "list_all pingpong cs" "\<forall>op p es. evs' = EvControl op p # es \<longrightarrow> op = Close"
    by (rule control_prefix [OF live_events [OF c(1) rd(2)]])
  have fo: "frame_outcome E Q c fs (RdErr e # rest) evs' (nextFrame E c)"
    by (rule nextFrame_ok [OF an(1) c(1,2) rd(1) c(3,4) rd(2) [unfolded evs(1)] evs(2,3)]) simp
  show ?thesis
  proof (cases evs')
    case Nil
    then show ?thesis using fo by (auto simp: frame_or_error_def frame_outcome_def)
  next
    case (Cons ev es)
    show ?thesis
    proof (cases ev)
      case (EvControl op p)
      then obtain c1 where o: "same_read c c1" "Q (c_w c1)" "nextFrame E c = close_outcome E p c1"
        using fo Cons evs(3) by (auto simp: frame_outcome_def)
      have "handler_of E c1 = handler_of E c" using same_readD(1) [OF o(1)] by (simp add: handler_of_def)
      moreover obtain code reason where "parseClose p = (code, reason)" by (cases "parseClose p")
      moreover have "OnClose (handler_of E c) code reason (c_w c1) \<noteq> None" using an(2) o(2) unfolding closes_def by blast
      ultimately have "close_outcome E p c1 \<noteq> None" by (auto simp: close_outcome_def Let_def)
      then show ?thesis using o(3) close_outcome_err unfolding frame_or_error_def by (metis not_None_eq prod.collapse)
    next
      case (EvByte x)
      then show ?thesis using between_frame_first [OF c(1,2) rd(2) [unfolded evs(1)]] Cons by simp
    next
      case (EvFrame op fin rsv1)
      then have "\<exists>c1 b1. nextFrame E c = Some (None, c1) \<and> same_read c c1 \<and> Q (c_w c1) \<and> rx_live (c_rx c1) \<and> reads b1 (RdErr e # rest) (c_in c1)
         \<and> fut (c_rx c1) b1 = (fs, es) \<and> frame_at (c_rx c) op fin rsv1 (c_rx c1)"
        using fo Cons by (auto simp: frame_outcome_def)
      moreover have "length es < length evs" using evs(1) Cons by simp
      moreover have "phase_open (base (c_rx c)) = (messageOpcode (c_rx c) \<noteq> 0)" using c(1,2) by (simp add: base_def phase_open_def rx_live_def)
      then have "if messageOpcode (c_rx c) \<noteq> 0 then op = Continuation else op \<in> {Text, Binary}"
        using events_past_control [OF evs(2), of _ _ evs'] live_events [OF c(1) rd(2)] unfolding evs(1) Cons EvFrame by fastforce
      ultimately show ?thesis unfolding frame_or_error_def by blast
    next
      case (EvFail code x)
      then show ?thesis using fo Cons by (auto simp: frame_or_error_def frame_outcome_def)
    qed
  qed
qed

text \<open>Gathering a message returns on every stream.\<close>

definition message_or_error ::
    "('w wconn \<Rightarrow> bool) \<Rightarrow> ('w, 'r) conn \<Rightarrow> astate \<Rightarrow> nat \<Rightarrow> rdev list \<Rightarrow> ((go_error + bytes) \<times> ('w, 'r) conn) option \<Rightarrow> bool" where
  "message_or_error Q c fs n rest res \<longleftrightarrow>
     (\<exists>e c'. res = Some (Inl e, c')) \<or>
     (\<exists>p c' es. res = Some (Inr p, c') \<and> int (length p) \<le> c_limit c \<and> msg_done Q c c' fs es rest \<and> length es \<le> n)"

lemma message_or_error_step:
  assumes "message_or_error Q c2 fs m rest res" "same_conn c c2" "rx_compressed (c_rx c2) = rx_compressed (c_rx c)" "m \<le> n"
  shows "message_or_error Q c fs n rest res"
proof -
  have l: "c_limit c2 = c_limit c" using assms(2) by (simp add: same_conn_def)
  have "msg_done Q c c' fs es rest" if "msg_done Q c2 c' fs es rest" for c' es
    using that assms(3) same_conn_trans [OF assms(2)] by (auto simp: msg_done_def)
  with assms(1) show ?thesis unfolding message_or_error_def l using order_trans [OF _ assms(4)] by blast
qed

lemma assemble_loop_any:
  assumes "answers (handler_of E c) Q" "closes (handler_of E c) Q" "Q (c_w c)" "rx_live (c_rx c)" "fut (c_rx c) b = (fs, evs)" "at_frame (c_rx c) fin"
    "reads b (RdErr e # rest) (c_in c)" "0 < c_buf c" "pools_ok (c_bufs c)" "c_msg c = None \<longrightarrow> fst msg = []"
    "int (length (fst msg)) \<le> c_limit c" "c_limit c < 2 ^ 63"
  shows "message_or_error Q c fs (length evs) (RdErr e # rest) (assemble_loop E msg c)"
  using assms
proof (induction "length evs" arbitrary: c b evs fin msg rule: less_induct)
  case less
  note ans = less.prems(1,2) and Q = less.prems(3) and live = less.prems(4) and fu = less.prems(5) and at = less.prems(6) and rd = less.prems(7) and buf = less.prems(8)
    and pk = less.prems(9) and cm = less.prems(10) and lim = less.prems(11,12)
  obtain p es where evs: "evs = map EvByte p @ es" "\<not> leads_byte es" using payload_prefix by blast
  show ?case
  proof (cases "es = [] \<and> in_data fs")
    case True
    have cut: "cut_at (c_rx c) b fs p" using live fu evs(1) True no_data_between [OF live, of b fs p] by (auto simp: cut_at_def)
    let ?k = "c_limit c - int (length (fst msg))"
    show ?thesis
    proof (cases "PayloadLen (rx_header (c_rx c)) > of_int ?k")
      case True
      then show ?thesis by (subst assemble_loop.simps) (simp add: message_or_error_def)
    next
      case False
      have k: "0 \<le> ?k" "?k < 2 ^ 63" using lim by simp_all
      have pl: "rx_remaining (c_rx c) = PayloadLen (rx_header (c_rx c))" using at by (simp add: at_frame_def)
      have "\<not> int (unat (rx_remaining (c_rx c))) > ?k" using False unfolding too_long_word [OF k] pl .
      then have "int (unat (rx_remaining (c_rx c))) < 2 ^ 63" using k(2) by (meson le_less_trans not_le)
      then have "int (unat (rx_remaining (c_rx c))) < int (2 ^ 63)" by (simp only: of_nat_power of_nat_numeral)
      then have "unat (rx_remaining (c_rx c)) < 2 ^ 63" by (simp only: of_nat_less_iff)
      then obtain c' where "assemble_frame E msg c = Some (Inl (end_error e False), c')"
        using assemble_frame_cut [OF cut rd buf pk cm] by blast
      with False show ?thesis by (subst assemble_loop.simps) (simp add: message_or_error_def)
    qed
  next
    case False
    then have pa: "payload_at (c_rx c) b fs p es" using live fu evs by (simp add: payload_at_def)
    note st = assemble_step [OF pa at rd buf pk cm lim, of E]
    show ?thesis
    proof (cases "int (length (fst msg @ p)) \<le> c_limit c")
      case False
      then show ?thesis using st(1) by (simp add: message_or_error_def)
    next
      case fits: True
      obtain g c' where g: "gathered_is msg p g c'" "frame_done c c' fs es (RdErr e # rest)" "messageOpcode (c_rx c') = 0 \<longleftrightarrow> fin"
        "assemble_loop E msg c = (case g of Borrowed chunk \<Rightarrow> Some (Inr chunk, c')
          | Gathered msg \<Rightarrow> (if \<not> MessageOpen (c_rx c') then Some (Inr (fst msg), c'\<lparr>c_msgHint := int (length (fst msg))\<rparr>)
              else case nextFrame E c' of None \<Rightarrow> None | Some (err, c) \<Rightarrow> (case err of Some e \<Rightarrow> Some (Inl e, c) | None \<Rightarrow> assemble_loop E msg c)))"
        using st(2) [OF fits] by (elim exE conjE) (rule that; assumption)
      have le: "length es \<le> length evs" using evs(1) by simp
      show ?thesis
      proof (cases "messageOpcode (c_rx c') = 0")
        case True
        note fm = frame_is_message [where Q = Q, OF g(2) True Q]
        show ?thesis
        proof (cases g)
          case (Borrowed ch)
          then have "int (length ch) \<le> c_limit c" using g(1) fits by (simp add: gathered_is_def)
          then show ?thesis using g(4) Borrowed fm(1) le unfolding message_or_error_def by auto
        next
          case (Gathered m)
          then have "int (length (fst m)) \<le> c_limit c" using g(1) fits by (simp add: gathered_is_def)
          then show ?thesis using g(4) Gathered fm(2) le True unfolding message_or_error_def by (auto simp: MessageOpen_def)
        qed
      next
        case more: False
        then obtain m where m: "g = Gathered m" "fst m = fst msg @ p" "c_msg c' \<noteq> None"
          using g(1) by (auto simp: gathered_is_def MessageOpen_def split: gathered.splits)
        have al: "assemble_loop E msg c = (case nextFrame E c' of None \<Rightarrow> None | Some (err, c) \<Rightarrow> (case err of Some e \<Rightarrow> Some (Inl e, c) | None \<Rightarrow> assemble_loop E m c))"
          using g(4) m(1) more by (simp add: MessageOpen_def)
        obtain b' where f: "payload_at (c_rx c') b' fs [] es" "reads b' (RdErr e # rest) (c_in c')" "same_conn c c'" "c_w c' = c_w c" "pools_ok (c_bufs c')"
          "drawn_from (c_rx c) (c_rx c')" "rx_remaining (c_rx c') = 0"
          using g(2) unfolding frame_done_def by blast
        have h: "handler_of E c' = handler_of E c" by (rule handler_same [OF f(3)])
        have pr: "answers (handler_of E c') Q" "closes (handler_of E c') Q" "rx_live (c_rx c')" "0 < c_buf c'" "Q (c_w c')" "fut (c_rx c') b' = (fs, es)"
          using ans buf Q f(1,3,4) h by (simp_all add: payload_at_def same_conn_def)
        have "frame_or_error E Q c' fs (length es) (RdErr e # rest) (nextFrame E c')"
          by (rule nextFrame_any [OF pr(1-3) f(7) pr(4,5) f(2) pr(6)])
        then consider x c2 where "nextFrame E c' = Some (Some x, c2)"
          | c2 b2 op fn rsv1 es2 where "nextFrame E c' = Some (None, c2)" "same_read c' c2" "Q (c_w c2)" "rx_live (c_rx c2)" "reads b2 (RdErr e # rest) (c_in c2)"
              "fut (c_rx c2) b2 = (fs, es2)" "frame_at (c_rx c') op fn rsv1 (c_rx c2)" "length es2 < length es" "op = Continuation"
          using more unfolding frame_or_error_def by auto
        then show ?thesis
        proof cases
          case 1
          then show ?thesis using al by (simp add: message_or_error_def)
        next
          case 2
          note sd = same_readD [OF 2(2)]
          have sc: "same_conn c c2" using same_conn_trans [OF f(3) same_read_conn [OF 2(2)]] .
          have lt: "length es2 < length evs" using 2(8) le by simp
          have h2: "handler_of E c2 = handler_of E c" by (rule handler_same [OF sc])
          have a2: "at_frame (c_rx c2) fn" using 2(7) more by (auto simp: at_frame_def frame_at_def)
          have q: "0 < c_buf c2" "pools_ok (c_bufs c2)" "c_msg c2 = None \<longrightarrow> fst m = []" "int (length (fst m)) \<le> c_limit c2" "c_limit c2 < 2 ^ 63"
            using buf f(5) sd m(2,3) fits lim(2) sc by (auto simp: same_conn_def)
          have ih: "message_or_error Q c2 fs (length es2) (RdErr e # rest) (assemble_loop E m c2)"
            by (rule less.hyps [OF lt ans [folded h2] 2(3,4,6) a2 2(5) q])
          have e: "assemble_loop E msg c = assemble_loop E m c2" using al 2(1) by simp
          have cm2: "rx_compressed (c_rx c2) = rx_compressed (c_rx c)" using 2(7,9) f(6) by (simp add: frame_at_def drawn_from_def)
          show ?thesis unfolding e by (rule message_or_error_step [OF ih sc cm2]) (use lt in simp)
        qed
      qed
    qed
  qed
qed

text \<open>Reading a message returns on every stream, and takes at least one event of the run ahead.\<close>

definition read_or_error ::
    "('w, 'r) renv \<Rightarrow> ('w wconn \<Rightarrow> bool) \<Rightarrow> ('w, 'r) conn \<Rightarrow> bytes \<Rightarrow> rdev list \<Rightarrow> go_error + opcode \<times> bytes \<Rightarrow> ('w, 'r) conn \<Rightarrow> bool" where
  "read_or_error E Q c b rest res c' \<longleftrightarrow>
    (case res of
       Inl e \<Rightarrow> True
     | Inr (op, p) \<Rightarrow> op \<in> {Text, Binary} \<and> int (length p) \<le> c_limit c \<and> (op = Text \<and> c_validateUTF8 c \<longrightarrow> Valid p)
         \<and> ready E Q c' \<and> same_setup c c'
         \<and> (\<exists>b'. reads b' rest (c_in c') \<and> length (snd (fut (c_rx c') b')) < length (snd (fut (c_rx c) b))))"

lemma ReadMessage_any:
  assumes fl: "inflater (dv_flate (re_d E)) I gone st" and rdy: "ready E Q c" and cl: "closes (handler_of E c) Q" and rd: "reads b (RdErr e # rest) (c_in c)"
  shows "\<exists>res c'. ReadMessage E c = Some (res, c') \<and> read_or_error E Q c b (RdErr e # rest) res c'"
proof -
  obtain c0 where c0: "ready E Q c0" "released c c0" "c_msg c0 = None"
    "NextMessage E c = (case nextFrame E c0 of None \<Rightarrow> None
       | Some (err, c) \<Rightarrow> Some (case err of Some e \<Rightarrow> (Inl e, c) | None \<Rightarrow> (Inr (Opcode (rx_header (c_rx c))), c\<lparr>c_inMessage := True\<rparr>)))"
    by (rule NextMessage_ready [OF rdy])
  have r0: "c_rx c0 = c_rx c" "c_in c0 = c_in c" "c_limit c0 = c_limit c" "c_validateUTF8 c0 = c_validateUTF8 c" "rx_size c0 = rx_size c" "rx_dict c0 = rx_dict c"
     "rx_takeover c0 = rx_takeover c" "c_handler c0 = c_handler c" "c_buf c0 = c_buf c"
    using c0(2) by (simp_all add: released_def rx_size_def rx_dict_def rx_takeover_def)
  obtain fs evs where fu: "fut (c_rx c) b = (fs, evs)" by (cases "fut (c_rx c) b")
  have h0: "handler_of E c0 = handler_of E c" by (simp add: handler_of_def r0)
  have n0: "answers (handler_of E c0) Q" "rx_live (c_rx c0)" "rx_remaining (c_rx c0) = 0" "0 < c_buf c0" "Q (c_w c0)" "messageOpcode (c_rx c0) = 0"
    using c0(1) by (simp_all add: ready_def)
  have "frame_or_error E Q c0 fs (length evs) (RdErr e # rest) (nextFrame E c0)"
    by (rule nextFrame_any [OF n0(1) _ n0(2-5)]) (use cl h0 rd r0 fu in simp_all)
  then consider x c1 where "nextFrame E c0 = Some (Some x, c1)"
    | c1 b1 op fin rsv1 es where "nextFrame E c0 = Some (None, c1)" "same_read c0 c1" "Q (c_w c1)" "rx_live (c_rx c1)" "reads b1 (RdErr e # rest) (c_in c1)"
        "fut (c_rx c1) b1 = (fs, es)" "frame_at (c_rx c0) op fin rsv1 (c_rx c1)" "length es < length evs" "op \<in> {Text, Binary}"
    using n0(6) unfolding frame_or_error_def by auto
  then show ?thesis
  proof cases
    case 1
    then show ?thesis using c0(4) by (simp add: ReadMessage_def read_or_error_def)
  next
    case 2
    let ?c = "c1\<lparr>c_inMessage := True\<rparr>"
    note sd = same_readD [OF 2(2)]
    have nm: "NextMessage E c = Some (Inr op, ?c)" using c0(4) 2(1,7) by (simp add: frame_at_def)
    have op0: "op \<noteq> 0" "op \<noteq> Continuation" using 2(9) by (auto simp: Text_def Binary_def Continuation_def)
    have cfg: "c_limit ?c = c_limit c" "c_validateUTF8 ?c = c_validateUTF8 c" "c_buf ?c = c_buf c" "handler_of E ?c = handler_of E c"
       "rx_size ?c = rx_size c" "rx_takeover ?c = rx_takeover c" "c_handler ?c = c_handler c"
      using sd r0 by (simp_all add: handler_of_def rx_size_def rx_takeover_def)
    have pr: "c_readErr ?c = None" "0 < c_buf ?c" "0 \<le> c_limit ?c" "(c_limit ?c + 1) * (c_limit ?c + 9) < 2 ^ 58" "\<forall>d. dc_dec (c_decomp ?c) = Some d \<longrightarrow> dec_ready d"
        "list_all dec_ready (c_decPool ?c)" "answers (handler_of E ?c) Q" "pools_ok (c_bufs ?c)" "c_msg ?c = None"
      using c0(1,3) sd r0 cfg rdy by (simp_all add: ready_def)
    have at: "at_frame (c_rx ?c) fin" using 2(7) op0 by (auto simp: at_frame_def frame_at_def)
    have "message_or_error Q ?c fs (length es) (RdErr e # rest) (assemble_loop E ([], 0) ?c)"
      by (rule assemble_loop_any [OF pr(7) _ _ _ _ at])
         (use 2 cl cfg(4) pr limit_small [OF pr(3,4)] in simp_all)
    then consider x c2 where "assemble E ?c = Some (Inl x, c2)"
      | p c2 es2 where "assemble E ?c = Some (Inr p, c2)" "int (length p) \<le> c_limit ?c" "msg_done Q ?c c2 fs es2 (RdErr e # rest)" "length es2 \<le> length es"
      unfolding message_or_error_def assemble_def by blast
    then show ?thesis
    proof cases
      case 1
      then show ?thesis using nm by (simp add: ReadMessage_def read_or_error_def)
    next
      case m: 2
      obtain res c' where f: "finishMessage E op p c2 = Some (res, c')" "message_answer st ?c op (rx_compressed (c_rx ?c)) p res"
        "after_message E Q ?c (rx_compressed (c_rx ?c)) fs es2 (RdErr e # rest) res c'"
        using finishMessage_ok [OF fl m(3) pr(1-7) m(2), of op] by (elim exE conjE) (rule that)
      have "read_or_error E Q c b (RdErr e # rest) res c'"
      proof (cases res)
        case (Inr r)
        obtain o2 q where r: "r = (o2, q)" by (cases r)
        have ans: "o2 = op" "int (length q) \<le> c_limit c" "op = Text \<and> c_validateUTF8 c \<longrightarrow> Valid q"
          using f(2) Inr r unfolding message_answer_def cfg by (auto split: if_splits option.splits)
        obtain b' where b': "reads b' (RdErr e # rest) (c_in c')" "fut (c_rx c') b' = (fs, es2)" "ready E Q c'" "same_setup ?c c'"
          using f(3) Inr r unfolding after_message_def by auto
        have "same_setup c c'" using b'(4) unfolding same_setup_def cfg .
        moreover have "length (snd (fut (c_rx c') b')) < length (snd (fut (c_rx c) b))" using b'(2) fu m(4) 2(8) by simp
        ultimately show ?thesis using ans b'(1,3) 2(9) Inr r unfolding read_or_error_def by auto
      qed (simp add: read_or_error_def)
      then show ?thesis using nm m(1) f(1) by (auto simp: ReadMessage_def)
    qed
  qed
qed

end
