(* ===== verification/ConnRead_Claims.thy ===== *)
theory ConnRead_Claims
  imports ConnServe ConnRead_Cut
begin

text \<open>
  The properties of the read side: whole messages, every way a stream can stop, the state between
  messages, and that the read loop returns on every stream.
\<close>

section \<open>The read loop returns\<close>

text \<open>A handler that returns on the messages it may be called with, only writes to the connection, and keeps \<open>P\<close>.\<close>

definition handles :: "('h, 'w, 'r) MessageHandler \<Rightarrow> ('w wconn \<Rightarrow> bool) \<Rightarrow> (opcode \<times> bytes \<Rightarrow> bool) \<Rightarrow> ('h \<Rightarrow> bool) \<Rightarrow> bool" where
  "handles H Q A P \<longleftrightarrow> (\<forall>op p h c. Q (c_w c) \<and> A (op, p) \<and> P h \<longrightarrow> (\<exists>err h' w. H op p h c = Some (err, h', c\<lparr>c_w := w\<rparr>) \<and> Q w \<and> P h'))"

definition admissible :: "int \<Rightarrow> bool \<Rightarrow> opcode \<times> bytes \<Rightarrow> bool" where
  "admissible limit utf8 m \<longleftrightarrow> fst m \<in> {Text, Binary} \<and> int (length (snd m)) \<le> limit \<and> (fst m = Text \<and> utf8 \<longrightarrow> Valid (snd m))"

lemma Serve_any:
  assumes fl: "inflater (dv_flate (re_d E)) I gone st"
  shows "ready E Q c \<Longrightarrow> closes (handler_of E c) Q \<Longrightarrow> reads b (RdErr e # rest) (c_in c) \<Longrightarrow> handles H Q (admissible (c_limit c) (c_validateUTF8 c)) P \<Longrightarrow> P h
     \<Longrightarrow> \<exists>err h' c'. Serve E H h c = Some (err, h', c') \<and> P h'"
proof (induction "length (snd (fut (c_rx c) b))" arbitrary: c b h rule: less_induct)
  case less
  obtain res c1 where R: "ReadMessage E c = Some (res, c1)" "read_or_error E Q c b (RdErr e # rest) res c1"
    using ReadMessage_any [OF fl less.prems(1-3)] by blast
  show ?case
  proof (cases res)
    case (Inl x)
    then show ?thesis using R(1) less.prems(5) by (subst Serve.simps) simp
  next
    case (Inr m)
    obtain op p where m: "m = (op, p)" by (cases m)
    obtain b' where r: "admissible (c_limit c) (c_validateUTF8 c) (op, p)" "ready E Q c1" "same_setup c c1" "reads b' (RdErr e # rest) (c_in c1)"
        "length (snd (fut (c_rx c1) b')) < length (snd (fut (c_rx c) b))"
      using R(2) Inr m unfolding read_or_error_def admissible_def by auto
    have "Q (c_w c1)" using r(2) by (simp add: ready_def)
    then obtain err h' w where h: "H op p h c1 = Some (err, h', c1\<lparr>c_w := w\<rparr>)" "Q w" "P h'"
      using less.prems(4,5) r(1) unfolding handles_def by blast
    show ?thesis
    proof (cases err)
      case (Some x)
      then show ?thesis using R(1) Inr m h by (subst Serve.simps) simp
    next
      case None
      let ?c = "c1\<lparr>c_w := w\<rparr>"
      have e: "Serve E H h c = Serve E H h' ?c" using R(1) Inr m h(1) None by (subst Serve.simps) simp
      have hs: "handler_of E ?c = handler_of E c" "c_limit ?c = c_limit c" "c_validateUTF8 ?c = c_validateUTF8 c"
        using r(3) by (simp_all add: same_setup_def handler_of_def)
      have "ready E Q ?c" using r(2) h(2) by (simp add: ready_def handler_of_def)
      then show ?thesis unfolding e
        using less.hyps [of ?c b' h'] less.prems(2,4) hs r(4,5) h(3) by simp
    qed
  qed
qed

lemma default_closes: "closes (DefaultControlHandler E) Q"
  by (simp add: closes_def DefaultControlHandler_def Default_OnClose_def Let_def)

text \<open>C2: The read loop always returns, and its handler only ever sees what the configuration allows. On
  a new connection with any configuration and any bytes from the peer, valid or not, cut anywhere and
  followed by any transport error, \<open>Serve\<close> returns; every message it passes to the handler is a text or
  binary message within the size limit, and a valid UTF-8 text when the connection validates, so that
  whatever the handler keeps for such messages holds at the end.\<close>

theorem Serve_returns:
  assumes "inflater (dv_flate (re_d E)) I gone st"
    and "NewConn a (Some (net, rs, v)) cfg ps bufs mpool dpool = Inr c" "pools_ok bufs" "list_all dec_ready dpool"
    and "(conn_limit cfg + 1) * (conn_limit cfg + 9) < 2 ^ 58"
    and "Q (c_w c)" "answers (handler_of E c) Q" "closes (handler_of E c) Q"
    and "reads b (RdErr e # rest) rs"
    and "handles H Q (admissible (conn_limit cfg) (ValidateUTF8 cfg)) P" "P h"
  shows "\<exists>err h' c'. Serve E H h c = Some (err, h', c') \<and> P h'"
proof -
  note nr = NewConn_ready [where Q = Q and E = E, OF assms(2-7)]
  show ?thesis by (rule Serve_any [OF assms(1) nr(1) assms(8)]) (use nr(2-4) assms(9-11) in simp_all)
qed

lemma NewConn_parts:
  assumes "NewConn a (Some (net, rs, v)) cfg ps bufs mpool dpool = Inr c"
  shows "c_handler c = cfg_ControlHandler cfg" "n_script net = [] \<Longrightarrow> net_ready (c_w c)"
  using assms by (auto simp: NewConn_def new_net_ready split: option.splits if_splits)

lemma sys_client_parts: "c_handler (sys_client b) = None" "net_ready (c_w (sys_client b))"
  using NewConn_parts [OF sys_client_new [of b]] sys_config_ok(4,6) by simp_all

lemma sys_client_answers: "answers (handler_of sys_renv (sys_client b)) net_ready" "closes (handler_of sys_renv (sys_client b)) net_ready"
  using default_answers [OF sys_receiver(2)] default_closes by (simp_all add: handler_of_def sys_client_parts(1))

lemma sys_client_reads: "b \<noteq> [] \<Longrightarrow> reads b (RdErr EOF # []) [RdData b, RdErr EOF]"
  unfolding reads_def by (intro exI [of _ "[b]"]) simp

theorem Serve_returns_witness:
  "\<exists>err h c. Serve sys_renv sys_log [] (sys_client [0x81, 2, 104, 105, 0x82, 0x7e, 0, 9]) = Some (err, h, c) \<and> list_all (\<lambda>m. length (snd m) \<le> 1000) h"
proof -
  have sw: "\<exists>w. c = c\<lparr>c_w := w\<rparr> \<and> net_ready w" if "net_ready (c_w c)" for c :: "(bytes, go_error toy) conn"
    using that by (intro exI [of _ "c_w c"]) simp
  have "conn_limit sys_config = 1000" by (simp add: conn_limit_def sys_config_def cmp_Or_def)
  with sw have h: "handles sys_log net_ready (admissible (conn_limit sys_config) (ValidateUTF8 sys_config)) (list_all (\<lambda>m. length (snd m) \<le> 1000))"
    unfolding handles_def sys_log_def admissible_def by auto
  have b: "[0x81, 2, 104, 105, 0x82, 0x7e, 0, 9 :: byte] \<noteq> []" by simp
  show ?thesis
    by (rule Serve_returns [OF sys_receiver(1) sys_client_new sys_config_ok(7,8,5) sys_client_parts(2) sys_client_answers sys_client_reads [OF b] h]) simp
qed

section \<open>Whole messages\<close>

text \<open>C3: \<open>ReadMessage\<close> is right on every complete message. Between messages, when the bytes to come hold a
  message cut into any frames, with pings and pongs before and between them and delivered in any
  pieces, the result is exactly: the error 1009 for a message over the limit as sent or inflated, 1007 for
  data that does not inflate against the history or for a text that is not UTF-8, and otherwise the type
  and the payload; an error is recorded for all later reads, and after a message the connection is again
  between messages, its history extended by the payload, with the rest of the stream ahead.\<close>

theorem message_read:
  assumes "inflater (dv_flate (re_d E)) I gone st" "ready E Q c" "reads b rest (c_in c)"
    and "fut (c_rx c) b = (fs, msg_evs (cs, op, cmpd, p, ms) @ es)" "msg_ok (cs, op, cmpd, p, ms)" "\<not> leads_byte es" "es = [] \<longrightarrow> \<not> in_data fs"
  shows "\<exists>res c'. ReadMessage E c = Some (res, c') \<and> message_answer st c op cmpd (msg_bytes (cs, op, cmpd, p, ms)) res \<and> after_message E Q c cmpd fs es rest res c'"
  by (rule ReadMessage_ok [OF assms])

text \<open>A ping, then a text in two frames.\<close>

definition sys_bytes :: bytes where
  "sys_bytes = wire_frame Ping True False None [6] @ wire_frame Text False False None [104] @ wire_frame Continuation True False None [105]"

lemma sys_bytes_run:
  "byte_run Client True (Head [], 0) sys_bytes =
     ((Head [], 0), msg_evs ([(Ping, [6])], Text, False, [104], [([], [105])]))"
proof -
  let ?ms = "[(Ping, False, [[6]]), (Text, False, [[104], [105]])] :: (opcode \<times> bool \<times> bytes list) list"
  have k: "key_for Server None" by (simp add: key_for_def)
  have f: "frames_of ?ms = [(Ping, True, False, [6]), (Text, False, False, [104]), (Continuation, True, False, [105])]"
    by (simp add: frames_of_def)
  have w: "wired Server sys_bytes (frames_of ?ms)"
    unfolding f sys_bytes_def using wired_Cons [OF k] wired_one [OF k] by blast
  have g: "grouped [] ?ms = ([([(Ping, [6])], Text, False, [104], [([], [105])])], [])"
    by (simp add: Ping_def Pong_def Text_def)
  have "list_all (framed True) ?ms" "list_all msg_sized ?ms"
    by (simp_all add: framed_def msg_sized_def Ping_def Pong_def Text_def Binary_def)
  from grouped_ok [OF this w g] show ?thesis by (auto simp: peer_def simp del: msg_evs.simps)
qed

lemma sys_client_ready:
  "ready sys_renv net_ready (sys_client b)" "reads b [RdErr EOF] (c_in (sys_client b)) \<longleftrightarrow> b \<noteq> []"
  "fut (c_rx (sys_client b)) b' = byte_run Client True (Head [], 0) b'" "c_limit (sys_client b) = 1000" "c_validateUTF8 (sys_client b)"
proof -
  note nr = NewConn_ready [where Q = net_ready and E = sys_renv, OF sys_client_new sys_config_ok(7,8,5) sys_client_parts(2) sys_client_answers(1)]
  show "ready sys_renv net_ready (sys_client b)" by (rule nr(1))
  show "c_limit (sys_client b) = 1000" "c_validateUTF8 (sys_client b)" using nr(3,4) [of b] by (simp_all add: conn_limit_def sys_config_def cmp_Or_def)
  have "rx_role (c_rx (sys_client b)) = Client" using nr(7) [of b] sys_config_ok(3) by (simp add: peer_def)
  then show "fut (c_rx (sys_client b)) b' = byte_run Client True (Head [], 0) b'" using nr(6) [of b b'] by (simp add: sys_config_def)
  show "reads b [RdErr EOF] (c_in (sys_client b)) \<longleftrightarrow> b \<noteq> []" unfolding nr(2) using sys_client_reads [of b] by (auto simp: reads_Nil)
qed

theorem message_read_witness:
  "\<exists>c. ReadMessage sys_renv (sys_client sys_bytes) = Some (Inr (Text, [104, 105]), c) \<and> ready sys_renv net_ready c"
proof -
  have v: "Valid [104, 105]" by code_simp
  have ne: "sys_bytes \<noteq> []" by (simp add: sys_bytes_def wire_frame_def wire_header_def)
  have "\<exists>res c'. ReadMessage sys_renv (sys_client sys_bytes) = Some (res, c')
     \<and> message_answer (\<lambda>D. lit_stream) (sys_client sys_bytes) Text False (msg_bytes ([(Ping, [6])], Text, False, [104], [([], [105])])) res
     \<and> after_message sys_renv net_ready (sys_client sys_bytes) False (Head [], 0) [] [RdErr EOF] res c'"
    by (rule message_read [OF sys_receiver(1) sys_client_ready(1)])
       (use ne sys_bytes_run in \<open>simp_all add: sys_client_ready(2,3) in_data_def pingpong_def quiet_def del: msg_evs.simps\<close>)
  then show ?thesis using v by (auto simp: message_answer_def after_message_def sys_client_ready(4,5) split: if_splits)
qed

section \<open>Where a stream stops\<close>

lemma validateClose_code: "validCloseCode code \<Longrightarrow> validateClose (be_put 2 code) = None"
proof -
  assume c: "validCloseCode code"
  have "std_Valid []" by simp
  then show ?thesis using c by (simp add: validateClose_def be_get_put)
qed

lemma sendClose_sends:
  assumes "net_ready w" "rand_ok E" "validCloseCode code"
  obtains key where "key_for (w_role w) key" "wout (sendClose E code w) = wout w @ wire_frame Close True False key (be_put 2 code)"
proof -
  let ?rnd = "e_rand E (w_tick w)" and ?s = "(w_tx w)\<lparr>closeBuf := put_at 2 [] (put_at 0 (be_put 2 code) (closeBuf (w_tx w)))\<rparr>"
  have l: "length ?rnd = 4" using assms(2) by (simp add: rand_ok_def)
  have c0: "code \<noteq> 0" using assms(3) by (auto simp: validCloseCode_def)
  have tx: "sender_inv (w_tx w)" "\<not> closeSent (w_tx w)" "tx_role (w_tx w) = w_role w" using assms(1) by (simp_all add: net_ready_def tx_ready_def)
  have buf: "take 2 (closeBuf ?s) = be_put 2 code" using tx(1) by (simp add: sender_inv_def put_at_def)
  have vc: "validateClose (be_put 2 code) = None" by (rule validateClose_code [OF assms(3)])
  have "\<exists>h b s'. encodeFrame (e_gc E) ?rnd Close True (be_put 2 code) False ?s = (Inr (h, b), s')"
  proof -
    have ck: "check_frame True Close (be_put 2 code) = None" by (simp add: check_frame_def)
    have k: "key_ok (if tx_role ?s = Client then Some ?rnd else None)" using l by simp
    obtain enc where "Encode (e_gc E) True Close (be_put 2 code) (if tx_role ?s = Client then Some ?rnd else None) (tx_enc ?s) = (None, enc)"
      using Encode_ok(1) [OF ck k, of "e_gc E" "tx_enc ?s"] by (metis prod.collapse)
    then show ?thesis using tx(2) by (cases "tx_role ?s") (simp_all add: encodeFrame_def Let_def)
  qed
  then obtain h b tx' where e: "EncodeClose (e_gc E) ?rnd code [] (w_tx w) = (Inr (h, b), tx')"
    using c0 buf vc tx(2) by (auto simp: EncodeClose_def sender_Encode_def encode_checked_def Let_def)
  then have st: "tx_step (e_gc E) ?rnd (TxClose code []) (w_tx w) = (Inr (h, b), tx')" by simp
  have hb: "h @ b = wire_frame Close True False (tx_key_of (w_tx w) ?rnd) (be_put 2 code)"
    using tx_step_sent [OF st l tx(1)] c0 by (simp add: sent_def)
  have "key_for (w_role w) (tx_key_of (w_tx w) ?rnd)" using l tx(3) by (cases "w_role w") (auto simp: key_for_def tx_key_of_def)
  moreover have "wout (sendClose E code w) = wout w @ h @ b"
    using assms(1) tx(2) e by (simp add: sendClose_def CloseSent_def with_tx_def conn_write_ok net_ready_def wout_def)
  ultimately show ?thesis using that hb by simp
qed

text \<open>C13: Every other way a stream can go is reported as what it is. Between messages, past any answered pings and pongs:
  when the transport fails, the error is passed on, an end of file inside a header as an unexpected one, and the
  connection is as usable as before, with what it had read kept; when the peer breaks the protocol, the result is
  the error with its close code; and a close frame is handed to the handler and returned as a \<open>CloseError\<close> of the
  peer's code and reason unless the handler has an error of its own.\<close>

theorem stream_stops:
  assumes "ready E Q c" "reads b rest (c_in c)" "fut (c_rx c) b = (fs, map ctl_ev cs @ evs)" "list_all pingpong cs"
    and "\<forall>op p es. evs = EvControl op p # es \<longrightarrow> op = Close" "evs = [] \<longrightarrow> (\<exists>e rest'. rest = RdErr e # rest')"
  shows "stop_answer E Q c fs rest evs (ReadMessage E c)"
  by (rule ReadMessage_stop [OF assms])

theorem stream_stops_witness:
  "\<exists>c. ReadMessage sys_renv (sys_client [0x81]) = Some (Inl UnexpectedEOF, c) \<and> ready sys_renv net_ready c"
proof -
  have f: "byte_run Client True (Head [], 0) [0x81] = ((Head [0x81], 0), map ctl_ev [] @ [])" by (simp add: head_complete_def)
  have "stop_answer sys_renv net_ready (sys_client [0x81]) (Head [0x81], 0) [RdErr EOF] [] (ReadMessage sys_renv (sys_client [0x81]))"
    by (rule stream_stops [OF sys_client_ready(1), where b = "[0x81]" and cs = "[]"]) (use f in \<open>simp_all add: sys_client_ready(2,3)\<close>)
  then show ?thesis by (auto simp: stop_answer_def end_error_def)
qed

definition writing :: "Role \<Rightarrow> bytes \<Rightarrow> 'w wconn \<Rightarrow> bool" where
  "writing role sofar w \<longleftrightarrow> net_ready w \<and> w_role w = role \<and> prefix sofar (wout w)"

lemma writing_answers: "rand_ok E \<Longrightarrow> answers (DefaultControlHandler E) (writing role sofar)"
proof -
  assume r: "rand_ok E"
  have "\<exists>w'. conn_send E Pong p w = (None, w') \<and> writing role sofar w'" if w: "writing role sofar w" "length p \<le> 125" for w p
  proof -
    have "call_ok (TxEncode Pong p)" using w(2) by (simp add: call_ok_def)
    from with_tx_goes [OF this _ r tx_frame.simps(1), of w] w(1)
    obtain h b w1 where t: "with_tx E (\<lambda>gc rnd. sender_Encode gc rnd Pong p) w = (Inr (h, b), w1)" "net_ready w1" "same_side w w1" "w_net w1 = w_net w"
      by (auto simp: writing_def)
    have "n_script (w_net w1) = []" using t(2) by (simp add: net_ready_def)
    then show ?thesis using t w(1)
      by (auto simp: conn_send_def conn_write_ok net_ready_def writing_def same_side_def wout_def)
  qed
  then show ?thesis by (auto simp: answers_def DefaultControlHandler_def Default_OnPing_def Default_OnPong_def conn_Pong_def)
qed

text \<open>C14: A protocol violation ends the connection in order. When the bytes to come, past answered pings and
  pongs, violate the protocol, \<open>ReadMessage\<close> returns the error with close code 1002 or 1007, the last thing written
  is the close frame with that code, in this endpoint's role, and every later read of any kind returns the same
  error and leaves the connection as it is.\<close>

theorem violation_is_final:
  assumes "ready E (writing role sofar) c" "rand_ok (re_w E)" "reads b rest (c_in c)"
    and "fut (c_rx c) b = (fs, map ctl_ev cs @ EvFail code err # es)" "list_all pingpong cs"
  shows "\<exists>c' out key. ReadMessage E c = Some (Inl (Error code err), c') \<and> code \<in> {1002, 1007}
     \<and> key_for role key \<and> wout (c_w c') = sofar @ out @ wire_frame Close True False key (be_put 2 code)
     \<and> ReadMessage E c' = Some (Inl (Error code err), c') \<and> NextMessage E c' = Some (Inl (Error code err), c')
     \<and> conn_Read E n c' = Some (([], Some (Error code err)), c') \<and> WriteTo E W c' v = Some ((0, Some (Error code err)), c', v)"
proof -
  have "stop_answer E (writing role sofar) c fs rest (EvFail code err # es) (ReadMessage E c)"
    by (rule ReadMessage_stop [OF assms(1,3-5)]) simp_all
  then obtain c1 where c1: "writing role sofar (c_w c1)" "ReadMessage E c = Some (Inl (Error code err), conn_fail E (Error code err) c1)"
    by (auto simp: stop_answer_def)
  have live: "rx_live (c_rx c)" using assms(1) by (simp add: ready_def)
  have code: "code \<in> {1002, 1007}"
    using events_past_control [OF assms(5) live_events [OF live assms(4)]] by auto
  then have vc: "validCloseCode code" by (auto simp: validCloseCode_def)
  let ?c = "conn_fail E (Error code err) c1"
  obtain out where o: "net_ready (c_w c1)" "w_role (c_w c1) = role" "wout (c_w c1) = sofar @ out" using c1(1) by (auto simp: writing_def prefix_def)
  obtain key where k: "key_for (w_role (c_w c1)) key" "wout (sendClose (re_w E) code (c_w c1)) = wout (c_w c1) @ wire_frame Close True False key (be_put 2 code)"
    by (rule sendClose_sends [OF o(1) assms(2) vc])
  have w: "c_w ?c = sendClose (re_w E) code (c_w c1)" by (simp add: conn_fail_def set_terminal_def with_w_def)
  have n: "NextMessage E ?c = Some (Inl (Error code err), ?c)" by (simp add: NextMessage_def)
  then have "ReadMessage E ?c = Some (Inl (Error code err), ?c)" by (simp add: ReadMessage_def)
  with n c1(2) code k o(2,3) show ?thesis
    by (intro exI [of _ ?c] exI [of _ out] exI [of _ key]) (simp add: w conn_Read_def WriteTo_def)
qed

theorem violation_is_final_witness:
  "\<exists>c out key. ReadMessage sys_renv (sys_client [0x83, 0]) = Some (Inl (Error 1002 ErrProtocol), c) \<and> key_for Client key
     \<and> wout (c_w c) = out @ wire_frame Close True False key [3, 234] \<and> NextMessage sys_renv c = Some (Inl (Error 1002 ErrProtocol), c)"
proof -
  let ?b = "[0x83, 0] :: bytes"
  have f: "byte_run Client True (Head [], 0) ?b = ((Failed, 0), map ctl_ev [] @ [EvFail 1002 ErrProtocol])"
    by (simp add: head_complete_def head_done_def hdr_def minimal_len_def legal_def header_size_def Masked_def Opcode_def RSV1_def RSV2_def RSV3_def Final_def Let_def)
  have rl: "w_role (c_w (sys_client ?b)) = Client"
    by (simp add: sys_client_def NewConn_def sys_config_def role_of_def bad_compression_def demo_config_def validBits_def new_wconn_def)
  have r: "ready sys_renv (writing Client []) (sys_client ?b)"
    using sys_client_ready(1) [of ?b] sys_client_parts [of ?b] rl writing_answers [OF sys_receiver(2), of Client "[]"]
    by (simp add: ready_def writing_def handler_of_def)
  have be: "be_put 2 (1002 :: u16) = [3, 234]" by code_simp
  have rd: "reads ?b [RdErr EOF] (c_in (sys_client ?b))" by (simp add: sys_client_ready(2))
  have fu: "fut (c_rx (sys_client ?b)) ?b = ((Failed, 0), map ctl_ev [] @ EvFail 1002 ErrProtocol # [])" unfolding sys_client_ready(3) by (rule f)
  have pp: "list_all pingpong []" by simp
  obtain c out key where "ReadMessage sys_renv (sys_client ?b) = Some (Inl (Error 1002 ErrProtocol), c)" "key_for Client key"
     "wout (c_w c) = [] @ out @ wire_frame Close True False key (be_put 2 (1002 :: u16))" "NextMessage sys_renv c = Some (Inl (Error 1002 ErrProtocol), c)"
    using violation_is_final [where n = 0 and W = "\<lambda>b v. ((length b, None), v)" and v = "()", OF r sys_receiver(2) rd fu pp] by blast
  then show ?thesis unfolding be by auto
qed

section \<open>The state between messages\<close>



end
