(* ===== verification/ConnTunnel.thy ===== *)
theory ConnTunnel
  imports ConnRead_Claims
begin

text \<open>
  A connection as a byte stream (\<^verbatim>\<open>src/ws/netconn.go\<close>), and what streaming reads of a message
  deliver. The lock around reads and the address and deadline accessors, which only forward, are left out.
\<close>

section \<open>netconn.go\<close>

text \<open>\<open>nc_closed\<close> is \<open>closeOnce\<close>.\<close>

record ('w, 'r) netConn =
  nc_c :: "('w, 'r) conn"
  nc_op :: opcode
  nc_inMsg :: bool
  nc_err :: "go_error option"
  nc_closed :: bool
  nc_closeErr :: "go_error option"

definition NetConn :: "('w, 'r) conn \<Rightarrow> opcode \<Rightarrow> ('w, 'r) netConn option" where
  "NetConn c op =
    (if op \<noteq> Text \<and> op \<noteq> Binary then None
     else Some \<lparr>nc_c = c, nc_op = op, nc_inMsg = False, nc_err = None, nc_closed = False, nc_closeErr = None\<rparr>)"

text \<open>\<open>errors.AsType\<close> looks through the errors an \<open>Error\<close> wraps.\<close>

fun as_CloseError :: "go_error \<Rightarrow> u16 option" where
  "as_CloseError (CloseError code reason) = Some code"
| "as_CloseError (Error code err) = as_CloseError err"
| "as_CloseError _ = None"

fun as_Error :: "go_error \<Rightarrow> bool" where
  "as_Error (Error code err) = True"
| "as_Error _ = False"

definition readErr :: "go_error \<Rightarrow> ('w, 'r) netConn \<Rightarrow> go_error \<times> ('w, 'r) netConn" where
  "readErr err nc =
    (case as_CloseError err of
       Some code \<Rightarrow>
         (let err = (if code = 1000 \<or> code = 1001 \<or> code = NoStatus then EOF else err) in (err, nc\<lparr>nc_err := Some err\<rparr>))
     | None \<Rightarrow> (err, if as_Error err then nc\<lparr>nc_err := Some err\<rparr> else nc))"

text \<open>\<open>unexpected message type\<close>\<close>

definition unexpected_reason :: bytes where
  "unexpected_reason = [117, 110, 101, 120, 112, 101, 99, 116, 101, 100, 32, 109, 101, 115, 115, 97, 103, 101, 32, 116, 121, 112, 101]"

partial_function (option) nc_loop ::
    "('w, 'r) renv \<Rightarrow> nat \<Rightarrow> ('w, 'r) netConn \<Rightarrow> ((bytes \<times> go_error option) \<times> ('w, 'r) netConn) option" where
  "nc_loop E len nc =
    (case (if nc_inMsg nc then Some (None, nc)
           else
             (case NextMessage E (nc_c nc) of
                None \<Rightarrow> None
              | Some (Inl err, c) \<Rightarrow> (case readErr err (nc\<lparr>nc_c := c\<rparr>) of (err, nc) \<Rightarrow> Some (Some err, nc))
              | Some (Inr op, c) \<Rightarrow>
                 (if op \<noteq> nc_op nc
                  then Some (Some ErrUnexpectedType,
                             nc\<lparr>nc_c := with_w (\<lambda>w. snd (conn_Close (re_w E) 1003 unexpected_reason w)) c, nc_err := Some ErrUnexpectedType\<rparr>)
                  else Some (None, nc\<lparr>nc_c := c, nc_inMsg := True\<rparr>)))) of
       None \<Rightarrow> None
     | Some (Some err, nc) \<Rightarrow> Some (([], Some err), nc)
     | Some (None, nc) \<Rightarrow>
        (case conn_Read E len (nc_c nc) of
           None \<Rightarrow> None
         | Some ((d, None), c) \<Rightarrow> Some ((d, None), nc\<lparr>nc_c := c\<rparr>)
         | Some ((d, Some err), c) \<Rightarrow>
            (if err = EOF
             then (if d \<noteq> [] then Some ((d, None), nc\<lparr>nc_c := c, nc_inMsg := False\<rparr>)
                   else nc_loop E len (nc\<lparr>nc_c := c, nc_inMsg := False\<rparr>))
             else (case readErr err (nc\<lparr>nc_c := c\<rparr>) of (err, nc) \<Rightarrow> Some ((d, Some err), nc)))))"

definition nc_Read ::
    "('w, 'r) renv \<Rightarrow> nat \<Rightarrow> ('w, 'r) netConn \<Rightarrow> ((bytes \<times> go_error option) \<times> ('w, 'r) netConn) option" where
  "nc_Read E len nc =
    (case nc_err nc of
       Some e \<Rightarrow> Some (([], Some e), nc)
     | None \<Rightarrow> if len = 0 then Some (([], None), nc) else nc_loop E len nc)"

definition nc_Write :: "('w, 'r) renv \<Rightarrow> bytes \<Rightarrow> ('w, 'r) netConn \<Rightarrow> ((nat \<times> go_error option) \<times> ('w, 'r) netConn) option" where
  "nc_Write E p nc =
    (if p = [] then Some ((0, None), nc)
     else
       (case Write (re_w E) (nc_op nc) p (c_w (nc_c nc)) of
          None \<Rightarrow> None
        | Some (r, w) \<Rightarrow>
           (let nc = nc\<lparr>nc_c := (nc_c nc)\<lparr>c_w := w\<rparr>\<rparr>
            in Some (case sync_result (re_w E) r of Some e \<Rightarrow> ((0, Some e), nc) | None \<Rightarrow> ((length p, None), nc)))))"

text \<open>\<open>shut\<close> is what closing the transport returns.\<close>

definition nc_Close :: "('w, 'r) renv \<Rightarrow> go_error option \<Rightarrow> ('w, 'r) netConn \<Rightarrow> go_error option \<times> ('w, 'r) netConn" where
  "nc_Close E shut nc =
    (if nc_closed nc then (nc_closeErr nc, nc)
     else
       (let (r, w) = conn_Close (re_w E) 1000 [] (c_w (nc_c nc));
            err = sync_result (re_w E) r;
            cerr = (if err \<noteq> None \<and> err \<noteq> Some ErrClosing then err else nc_closeErr nc);
            cerr = (if shut \<noteq> None \<and> cerr = None then shut else cerr)
        in (cerr, nc\<lparr>nc_c := (nc_c nc)\<lparr>c_w := w\<rparr>, nc_closed := True, nc_closeErr := cerr\<rparr>)))"

section \<open>Reading a message in pieces\<close>

text \<open>A handler that takes a close frame without an error of its own, as the default one does.\<close>

definition echoes :: "'w ControlHandler \<Rightarrow> ('w wconn \<Rightarrow> bool) \<Rightarrow> bool" where
  "echoes h Q \<longleftrightarrow> (\<forall>w code reason. Q w \<longrightarrow> (\<exists>w'. OnClose h code reason w = Some (None, w')))"

lemma default_echoes: "echoes (DefaultControlHandler E) Q"
  by (simp add: echoes_def DefaultControlHandler_def Default_OnClose_def Let_def)

text \<open>What every read keeps, and a connection inside an uncompressed message of which \<open>p\<close> is left in the
  open frame and \<open>ms\<close> the frames to come.\<close>

definition sound :: "('w, 'r) renv \<Rightarrow> ('w wconn \<Rightarrow> bool) \<Rightarrow> ('w, 'r) conn \<Rightarrow> bool" where
  "sound E Q c \<longleftrightarrow> c_readErr c = None \<and> 0 < c_buf c \<and> 0 \<le> c_limit c \<and> (c_limit c + 1) * (c_limit c + 9) < 2 ^ 58 \<and> pools_ok (c_bufs c)
     \<and> (\<forall>d. dc_dec (c_decomp c) = Some d \<longrightarrow> dec_ready d) \<and> list_all dec_ready (c_decPool c)
     \<and> Q (c_w c) \<and> answers (handler_of E c) Q \<and> echoes (handler_of E c) Q"

definition between :: "('w, 'r) renv \<Rightarrow> ('w wconn \<Rightarrow> bool) \<Rightarrow> ('w, 'r) conn \<Rightarrow> bool" where
  "between E Q c \<longleftrightarrow> ready E Q c \<and> echoes (handler_of E c) Q"

lemma ready_sound: "between E Q c \<longleftrightarrow> sound E Q c \<and> rx_live (c_rx c) \<and> rx_remaining (c_rx c) = 0 \<and> messageOpcode (c_rx c) = 0 \<and> \<not> c_inMessage c"
  by (auto simp: between_def ready_def sound_def)

definition mid :: "('w, 'r) renv \<Rightarrow> ('w wconn \<Rightarrow> bool) \<Rightarrow> ('w, 'r) conn \<Rightarrow> astate \<Rightarrow> bytes \<Rightarrow> ((opcode \<times> bytes) list \<times> bytes) list \<Rightarrow> event list \<Rightarrow> rdev list \<Rightarrow> bool" where
  "mid E Q c fs p ms es rest \<longleftrightarrow> sound E Q c \<and> c_inMessage c \<and> \<not> rx_compressed (c_rx c)
     \<and> (\<exists>b. payload_at (c_rx c) b fs p (tail_evs ms @ es) \<and> reads b rest (c_in c))
     \<and> Final (rx_header (c_rx c)) = (ms = []) \<and> (messageOpcode (c_rx c) = 0 \<longleftrightarrow> p = [] \<and> ms = [])"

lemma same_read_sound: "same_read c c' \<Longrightarrow> Q (c_w c') \<Longrightarrow> sound E Q c \<Longrightarrow> sound E Q c'"
  by (auto simp: sound_def handler_of_def dest: same_readD)

text \<open>Inside a frame a read returns some of the payload.\<close>

definition took :: "('w, 'r) renv \<Rightarrow> ('w wconn \<Rightarrow> bool) \<Rightarrow> nat \<Rightarrow> astate \<Rightarrow> bytes \<Rightarrow> ((opcode \<times> bytes) list \<times> bytes) list \<Rightarrow> event list \<Rightarrow> rdev list
    \<Rightarrow> ((bytes \<times> go_error option) \<times> ('w, 'r) conn) option \<Rightarrow> bool" where
  "took E Q len fs p ms es rest res \<longleftrightarrow>
    (\<exists>d p' c'. res = Some ((d, None), c') \<and> d \<noteq> [] \<and> length d \<le> len \<and> p = d @ p' \<and> mid E Q c' fs p' ms es rest)"

lemma mid_drawn:
  assumes "mid E Q c fs p ms es rest" "p \<noteq> []" "same_read c c'" "Q (c_w c')" "drawn_from (c_rx c) (c_rx c')" "rx_remaining (c_rx c) \<noteq> 0"
    "payload_at (c_rx c') b fs p' (tail_evs ms @ es)" "reads b rest (c_in c')"
  shows "mid E Q c' fs p' ms es rest"
proof -
  have r: "rx_remaining (c_rx c') = 0 \<longleftrightarrow> p' = []" using payload_at_length [OF assms(7)] by (auto simp: unat_eq_zero)
  have "sound E Q c'" using same_read_sound [where Q = Q, OF assms(3,4)] assms(1) by (simp add: mid_def)
  then show ?thesis
    using assms(1,2,5-8) r same_readD(7) [OF assms(3)] unfolding mid_def drawn_from_def by auto
qed

lemma read_frame_ok:
  assumes "mid E Q c fs p ms es rest" "payload_at (c_rx c) b fs p (tail_evs ms @ es)" "reads b rest (c_in c)" "p \<noteq> []" "0 < len" "len < 2 ^ 63" "length p < 2 ^ 63"
  shows "took E Q len fs p ms es rest (read_plain E len c)"
  using assms
proof (induction "2 * length b + Buffered (rx_dec (c_rx c))" arbitrary: c b rule: less_induct)
  case less
  note m = less.prems(1) and pa = less.prems(2) and rd = less.prems(3) and ne = less.prems(4) and len = less.prems(5,6) and big = less.prems(7)
  have rem: "rx_remaining (c_rx c) \<noteq> 0" using payload_at_length [OF pa] ne by (auto simp: unat_eq_zero)
  have buf: "0 < c_buf c" "Q (c_w c)" using m by (simp_all add: mid_def sound_def)
  obtain chunk r1 p1 where r: "receiver_PayloadN (int len) (c_rx c) = (Inr (chunk, p1 = []), r1)" "p = chunk @ p1" "payload_at r1 b fs p1 (tail_evs ms @ es)"
     "Buffered (rx_dec (c_rx c)) = length chunk + Buffered (rx_dec r1)" "p1 = [] \<or> nat (int len) \<le> length chunk \<or> pending (rx_dec r1) = []" "drawn_from (c_rx c) r1"
     "rx_remaining r1 = 0 \<longleftrightarrow> p1 = []" "length chunk \<le> nat (int len)"
    by (rule Payload_open [OF pa rem, of "int len"])
  let ?c = "c\<lparr>c_rx := r1\<rparr>"
  show ?case
  proof (cases "chunk = []")
    case False
    have "mid E Q ?c fs p1 ms es rest" by (rule mid_drawn [OF m ne same_readI(2) _ _ rem, where b = b]) (simp_all add: r(3,6) rd buf)
    moreover have "read_plain E len c = Some ((chunk, None), ?c)" using r(1,8) False by (subst read_plain.simps) simp
    ultimately show ?thesis using r(2,8) False unfolding took_def by auto
  next
    case True
    have p1: "p1 = p" "p1 \<noteq> []" using r(2) True ne by simp_all
    have pend: "pending (rx_dec r1) = []" using r(5) p1(2) True len(1) by simp
    have rem1: "rx_remaining r1 \<noteq> 0" using r(7) p1(2) by simp
    define n where "n = (if rx_remaining r1 < of_nat len then nat (Remaining_int r1) else len)"
    have ur: "unat (rx_remaining r1) = length p" using payload_at_length [OF r(3)] p1(1) by simp
    then have "unat (rx_remaining r1) < 2 ^ 63" using big by simp
    then have rl: "Remaining_int r1 = int (length p)" using Remaining_int_small [of r1] ur by simp
    have ul: "unat (of_nat len :: u64) = len" using len(2) by (simp add: unat_of_nat take_bit_nat_eq_self)
    have "rx_remaining r1 < of_nat len \<longleftrightarrow> length p < len" unfolding word_less_nat_alt ul ur by (rule refl)
    then have "n = (if length p < len then length p else len)" using rl by (simp add: n_def)
    then have n: "0 < n" "n \<le> len" using ne len(1) by auto
    have "mid E Q ?c fs p ms es rest" by (rule mid_drawn [OF m ne same_readI(2) _ _ rem, where b = b]) (simp_all add: r(3) [unfolded p1(1)] r(6) rd buf)
    note mc = this
    show ?thesis
    proof (cases "n \<ge> c_buf c")
      case True
      have b: "b \<noteq> []" by (rule payload_waits [OF r(3) rem1 pend])
      obtain d b' s' where rr: "conn_read n ?c = Some (Inr d, ?c\<lparr>c_in := s'\<rparr>)" "d \<noteq> []" "length d \<le> n" "b = d @ b'" "reads b' rest s'"
        using conn_read_ok [of b rest ?c n] rd b n(1) by auto
      have q: "payload_at (c_rx (?c\<lparr>c_in := s'\<rparr>)) (d @ b') fs p (tail_evs ms @ es)" "rx_remaining (c_rx (?c\<lparr>c_in := s'\<rparr>)) \<noteq> 0" "pending (rx_dec (c_rx (?c\<lparr>c_in := s'\<rparr>))) = []"
        using r(3) rr(4) rem1 pend p1(1) by simp_all
      obtain ch r2 p2 where t: "take_read E d (?c\<lparr>c_in := s'\<rparr>) = (Inr ch, ?c\<lparr>c_in := s', c_rx := r2\<rparr>)" "p = ch @ p2" "ch \<noteq> []" "payload_at r2 b' fs p2 (tail_evs ms @ es)"
          "drawn_from r1 r2" "length ch \<le> length d"
        by (rule take_read_ok [OF q rr(2), of E]) (rule that; simp)
      have e: "read_plain E len c = readDirect E n ?c" using r(1) \<open>chunk = []\<close> p1(2) True
        by (subst read_plain.simps) (simp add: n_def Let_def)
      have "readDirect E n ?c = Some ((ch, None), ?c\<lparr>c_in := s', c_rx := r2\<rparr>)" using rr(1) t(1) by (simp add: readDirect_def)
      moreover have "mid E Q (?c\<lparr>c_in := s', c_rx := r2\<rparr>) fs p2 ms es rest"
        by (rule mid_drawn [OF mc ne _ _ _ _ _, where b = b']) (simp_all add: t(4,5) rr(5) buf rem1 same_read_def)
      ultimately show ?thesis using e t(2,3,6) rr(3) n(2) unfolding took_def by auto
    next
      case False
      obtain c1 b1 where a: "conn_fill ?c = Some (None, c1)" "same_read ?c c1" "c_w c1 = c_w ?c" "rx_same (c_rx ?c) (c_rx c1)" "reads b1 rest (c_in c1)"
        "payload_at (c_rx c1) b1 fs p (tail_evs ms @ es)" "2 * length b1 + Buffered (rx_dec (c_rx c1)) < 2 * length b + Buffered (rx_dec (c_rx ?c))"
        by (rule payload_fill [of ?c b fs p "tail_evs ms @ es" rest]) (use r(3) rem1 pend rd buf p1(1) in simp_all)
      have e: "read_plain E len c = read_plain E len c1" using r(1) \<open>chunk = []\<close> p1(2) False a(1)
        by (subst read_plain.simps) (simp add: n_def Let_def)
      have "mid E Q c1 fs p ms es rest"
        by (rule mid_drawn [OF mc ne a(2) _ _ _ a(6,5)]) (use a(3,4) buf rem1 in \<open>simp_all add: rx_same_def drawn_from_def\<close>)
      moreover have "2 * length b1 + Buffered (rx_dec (c_rx c1)) < 2 * length b + Buffered (rx_dec (c_rx c))" using a(7) r(4) by simp
      ultimately show ?thesis unfolding e using less.hyps a(5,6) ne len big by blast
    qed
  qed
qed

text \<open>Across the frames of a message: a read returns some of what is left, or the end of the message.\<close>

definition piece_or_end :: "('w, 'r) renv \<Rightarrow> ('w wconn \<Rightarrow> bool) \<Rightarrow> nat \<Rightarrow> astate \<Rightarrow> bytes \<Rightarrow> event list \<Rightarrow> rdev list
    \<Rightarrow> ((bytes \<times> go_error option) \<times> ('w, 'r) conn) option \<Rightarrow> bool" where
  "piece_or_end E Q len fs todo es rest res \<longleftrightarrow>
    (if todo = []
     then \<exists>c'. res = Some (([], Some EOF), c') \<and> between E Q c' \<and> (\<exists>b. reads b rest (c_in c') \<and> fut (c_rx c') b = (fs, es))
     else \<exists>d p' ms' c'. res = Some ((d, None), c') \<and> d \<noteq> [] \<and> length d \<le> len \<and> todo = d @ p' @ concat (map snd ms') \<and> quiet ms'
            \<and> mid E Q c' fs p' ms' es rest)"

lemma read_plain_ok:
  assumes "mid E Q c fs p ms es rest" "quiet ms" "0 < len" "len < 2 ^ 63" "length (p @ concat (map snd ms)) < 2 ^ 63" "\<not> leads_byte es" "es = [] \<longrightarrow> \<not> in_data fs"
  shows "piece_or_end E Q len fs (p @ concat (map snd ms)) es rest (read_plain E len c)"
  using assms
proof (induction ms arbitrary: c p)
  case Nil
  obtain b where b: "payload_at (c_rx c) b fs p es" "reads b rest (c_in c)" using Nil.prems(1) by (auto simp: mid_def)
  show ?case
  proof (cases "p = []")
    case False
    then have "took E Q len fs p [] es rest (read_plain E len c)" using read_frame_ok [OF Nil.prems(1), of b len] b Nil.prems(3-5) by simp
    then show ?thesis using False unfolding took_def piece_or_end_def by (fastforce simp: quiet_def)
  next
    case True
    have rem: "rx_remaining (c_rx c) = 0" using payload_at_length [OF b(1)] True by (simp add: unat_eq_zero)
    have mo: "messageOpcode (c_rx c) = 0" using Nil.prems(1) True by (simp add: mid_def)
    have "read_plain E len c = Some (([], Some EOF), c\<lparr>c_inMessage := False\<rparr>)"
      using Payload_between(1) [OF b(1) rem] mo by (subst read_plain.simps) (simp add: MessageOpen_def)
    moreover have "between E Q (c\<lparr>c_inMessage := False\<rparr>)"
      using Nil.prems(1) b(1) rem mo by (auto simp: ready_sound mid_def sound_def handler_of_def payload_at_def)
    moreover have "fut (c_rx c) b = (fs, es)" using b(1) True by (simp add: payload_at_def)
    ultimately show ?thesis using b(2) True by (auto simp: piece_or_end_def)
  qed
next
  case (Cons m ms)
  obtain cs q where m: "m = (cs, q)" by (cases m)
  obtain b where b: "payload_at (c_rx c) b fs p (tail_evs ((cs, q) # ms) @ es)" "reads b rest (c_in c)" using Cons.prems(1) m by (auto simp: mid_def)
  show ?case
  proof (cases "p = []")
    case False
    then have "took E Q len fs p (m # ms) es rest (read_plain E len c)" using read_frame_ok [OF Cons.prems(1), of b len] b m Cons.prems(3-5) by simp
    then show ?thesis using False Cons.prems(2) unfolding took_def piece_or_end_def by fastforce
  next
    case True
    have rem: "rx_remaining (c_rx c) = 0" using payload_at_length [OF b(1)] True by (simp add: unat_eq_zero)
    have mo: "messageOpcode (c_rx c) \<noteq> 0" using Cons.prems(1) by (simp add: mid_def)
    have sd: "answers (handler_of E c) Q" "Q (c_w c)" "0 < c_buf c" "pools_ok (c_bufs c)" using Cons.prems(1) by (simp_all add: mid_def sound_def)
    have fd: "frame_done c c fs (tail_evs ((cs, q) # ms) @ es) rest"
      unfolding frame_done_def using b True rem sd(4) by (auto simp: same_conn_def drawn_from_def)
    have pp: "list_all pingpong cs" "quiet ms" using Cons.prems(2) m by (simp_all add: quiet_def)
    obtain c2 b2 where n: "nextFrame E c = Some (None, c2)" "Q (c_w c2)" "payload_at (c_rx c2) b2 fs q (tail_evs ms @ es)" "at_frame (c_rx c2) (ms = [])"
      "reads b2 rest (c_in c2)" "same_read c c2" "same_conn c c2" "pools_ok (c_bufs c2)" "rx_compressed (c_rx c2) = rx_compressed (c_rx c)"
      by (rule next_fragment [OF fd sd(1-3) mo pp(1) Cons.prems(6,7)])
    have e: "read_plain E len c = read_plain E len c2"
      using Payload_between(1) [OF b(1) rem] mo n(1) by (subst read_plain.simps) (simp add: MessageOpen_def)
    have q0: "rx_remaining (c_rx c2) = 0 \<longleftrightarrow> q = []" using payload_at_length [OF n(3)] by (auto simp: unat_eq_zero)
    have "mid E Q c2 fs q ms es rest"
      using Cons.prems(1) n same_read_sound [where Q = Q, OF n(6,2)] same_readD(7) [OF n(6)] q0 by (auto simp: mid_def at_frame_def)
    from Cons.IH [OF this pp(2) Cons.prems(3,4) _ Cons.prems(6,7)] Cons.prems(5) True m show ?thesis unfolding e by simp
  qed
qed

text \<open>From one message to the next.\<close>

lemma NextMessage_opens:
  assumes rdy: "between E Q c" and rd: "reads b rest (c_in c)" and ev: "fut (c_rx c) b = (fs, msg_evs (cs, op, False, p, ms) @ es)"
    and ok: "msg_ok (cs, op, False, p, ms)" and es: "\<not> leads_byte es" "es = [] \<longrightarrow> \<not> in_data fs"
  shows "\<exists>c'. NextMessage E c = Some (Inr op, c') \<and> mid E Q c' fs p ms es rest"
proof -
  have rc: "ready E Q c" "echoes (handler_of E c) Q" using rdy by (simp_all add: between_def)
  obtain c0 where c0: "ready E Q c0" "released c c0" "c_msg c0 = None"
    "NextMessage E c = (case nextFrame E c0 of None \<Rightarrow> None
       | Some (err, c) \<Rightarrow> Some (case err of Some e \<Rightarrow> (Inl e, c) | None \<Rightarrow> (Inr (Opcode (rx_header (c_rx c))), c\<lparr>c_inMessage := True\<rparr>)))"
    by (rule NextMessage_ready [OF rc(1)])
  have r0: "c_rx c0 = c_rx c" "c_in c0 = c_in c" "handler_of E c0 = handler_of E c" using c0(2) by (simp_all add: released_def handler_of_def)
  let ?evs = "EvFrame op (ms = []) False # map EvByte p @ tail_evs ms @ es"
  have f0: "fut (c_rx c0) b = (fs, map ctl_ev cs @ ?evs)" "reads b rest (c_in c0)" using ev rd r0 by simp_all
  have okd: "list_all pingpong cs" "op \<in> {Text, Binary}" using ok by simp_all
  have n0: "answers (handler_of E c0) Q" "rx_live (c_rx c0)" "rx_remaining (c_rx c0) = 0" "0 < c_buf c0" "Q (c_w c0)" using c0(1) by (simp_all add: ready_def)
  have "frame_outcome E Q c0 fs rest ?evs (nextFrame E c0)"
    by (rule nextFrame_ok [OF n0(1-3) f0(2) n0(4,5) f0(1) okd(1)]) simp_all
  then obtain c1 b1 where n: "same_read c0 c1" "Q (c_w c1)" "nextFrame E c0 = Some (None, c1)" "rx_live (c_rx c1)" "reads b1 rest (c_in c1)"
    "fut (c_rx c1) b1 = (fs, map EvByte p @ tail_evs ms @ es)" "frame_at (c_rx c0) op (ms = []) False (c_rx c1)"
    unfolding frame_outcome_def by auto
  have op0: "op \<noteq> 0" "op \<noteq> Continuation" using okd(2) by (auto simp: Text_def Binary_def Continuation_def)
  have pa: "payload_at (c_rx c1) b1 fs p (tail_evs ms @ es)" using n(4,6) tail_no_byte [OF es(1)] es(2) by (auto simp: payload_at_def)
  have rz: "rx_remaining (c_rx c1) = 0 \<longleftrightarrow> p = []" using payload_at_length [OF pa] by (auto simp: unat_eq_zero)
  have "sound E Q c0" using c0(1) rc(2) r0(3) by (auto simp: sound_def ready_def)
  then have "sound E Q c1" using same_read_sound [where Q = Q and E = E, OF n(1,2)] by blast
  then have "sound E Q (c1\<lparr>c_inMessage := True\<rparr>)" by (simp add: sound_def handler_of_def)
  moreover have "NextMessage E c = Some (Inr op, c1\<lparr>c_inMessage := True\<rparr>)" using c0(4) n(3,7) by (simp add: frame_at_def)
  ultimately show ?thesis using n(5,7) pa op0 rz by (auto simp: mid_def frame_at_def)
qed

lemma NextMessage_closed:
  assumes rdy: "between E Q c" and rd: "reads b rest (c_in c)" and ev: "fut (c_rx c) b = (fs, map ctl_ev cs @ [EvControl Close p])" and pp: "list_all pingpong cs"
  shows "\<exists>c'. NextMessage E c = Some (Inl (CloseError (fst (parseClose p)) (snd (parseClose p))), c')"
proof -
  have rc: "ready E Q c" "echoes (handler_of E c) Q" using rdy by (simp_all add: between_def)
  obtain c0 where c0: "ready E Q c0" "released c c0" "c_msg c0 = None"
    "NextMessage E c = (case nextFrame E c0 of None \<Rightarrow> None
       | Some (err, c) \<Rightarrow> Some (case err of Some e \<Rightarrow> (Inl e, c) | None \<Rightarrow> (Inr (Opcode (rx_header (c_rx c))), c\<lparr>c_inMessage := True\<rparr>)))"
    by (rule NextMessage_ready [OF rc(1)])
  have r0: "c_rx c0 = c_rx c" "c_in c0 = c_in c" "handler_of E c0 = handler_of E c" using c0(2) by (simp_all add: released_def handler_of_def)
  have n0: "answers (handler_of E c0) Q" "rx_live (c_rx c0)" "rx_remaining (c_rx c0) = 0" "0 < c_buf c0" "Q (c_w c0)" using c0(1) by (simp_all add: ready_def)
  have "frame_outcome E Q c0 fs rest [EvControl Close p] (nextFrame E c0)"
    by (rule nextFrame_ok [OF n0(1-3) _ n0(4,5) _ pp]) (use rd ev r0 in simp_all)
  then obtain c1 where n: "same_read c0 c1" "Q (c_w c1)" "nextFrame E c0 = close_outcome E p c1" unfolding frame_outcome_def by auto
  have "handler_of E c1 = handler_of E c" using same_readD(1) [OF n(1)] r0(3) by (simp add: handler_of_def)
  then obtain w where "OnClose (handler_of E c1) (fst (parseClose p)) (snd (parseClose p)) (c_w c1) = Some (None, w)"
    using rc(2) n(2) unfolding echoes_def by metis
  then show ?thesis using c0(4) n(3) by (auto simp: close_outcome_def split_def Let_def)
qed

section \<open>The byte stream\<close>

definition typed :: "opcode \<Rightarrow> wire_msg \<Rightarrow> bool" where
  "typed t x \<longleftrightarrow> msg_ok x \<and> length (msg_bytes x) < 2 ^ 63 \<and> (case x of (cs, op, cmpd, p, ms) \<Rightarrow> op = t \<and> \<not> cmpd)"

text \<open>\<open>todo\<close> is left of the open message and \<open>ws\<close> are the messages to come.\<close>

definition tunnel :: "('w, 'r) renv \<Rightarrow> ('w wconn \<Rightarrow> bool) \<Rightarrow> ('w, 'r) netConn \<Rightarrow> astate \<Rightarrow> bytes \<Rightarrow> wire_msg list \<Rightarrow> event list \<Rightarrow> rdev list \<Rightarrow> bool" where
  "tunnel E Q nc fs todo ws es rest \<longleftrightarrow> nc_err nc = None \<and> list_all (typed (nc_op nc)) ws \<and>
    (if nc_inMsg nc
     then \<exists>p ms. todo = p @ concat (map snd ms) \<and> quiet ms \<and> length todo < 2 ^ 63 \<and> mid E Q (nc_c nc) fs p ms (concat (map msg_evs ws) @ es) rest
     else todo = [] \<and> between E Q (nc_c nc) \<and> (\<exists>b. reads b rest (c_in (nc_c nc)) \<and> fut (c_rx (nc_c nc)) b = (fs, concat (map msg_evs ws) @ es)))"

text \<open>A read returns a piece of the first message that has bytes left, or, when no byte is left, the close.\<close>

definition stream_read ::
    "('w, 'r) renv \<Rightarrow> ('w wconn \<Rightarrow> bool) \<Rightarrow> nat \<Rightarrow> opcode \<Rightarrow> astate \<Rightarrow> bytes list \<Rightarrow> event list \<Rightarrow> rdev list \<Rightarrow> bytes
       \<Rightarrow> ((bytes \<times> go_error option) \<times> ('w, 'r) netConn) option \<Rightarrow> bool" where
  "stream_read E Q len t fs msgs es rest p res \<longleftrightarrow>
    (if concat msgs = []
     then let e = (if fst (parseClose p) \<in> {1000, 1001, NoStatus} then EOF else CloseError (fst (parseClose p)) (snd (parseClose p)))
          in \<exists>nc'. res = Some (([], Some e), nc') \<and> nc_err nc' = Some e
     else \<exists>d todo ws nc'. res = Some ((d, None), nc') \<and> d \<noteq> [] \<and> length d \<le> len \<and> (\<exists>x \<in> set msgs. prefix d x)
            \<and> concat msgs = d @ todo @ concat (map msg_bytes ws) \<and> tunnel E Q nc' fs todo ws es rest \<and> nc_op nc' = t)"

lemma stream_read_skip:
  "stream_read E Q len t fs msgs es rest p res \<Longrightarrow> stream_read E Q len t fs ([] # msgs) es rest p res"
proof -
  assume a: "stream_read E Q len t fs msgs es rest p res"
  have c: "concat ([] # msgs) = concat msgs" by simp
  show ?thesis
  proof (cases "concat msgs = []")
    case True
    then show ?thesis using a unfolding stream_read_def c by simp
  next
    case False
    then obtain d todo ws nc' where "res = Some ((d, None), nc')" "d \<noteq> []" "length d \<le> len" "\<exists>x \<in> set msgs. prefix d x"
        "concat msgs = d @ todo @ concat (map msg_bytes ws)" "tunnel E Q nc' fs todo ws es rest" "nc_op nc' = t"
      using a [unfolded stream_read_def if_not_P [OF False]] by blast
    then show ?thesis unfolding stream_read_def c using False
      by (simp only: if_False) (intro exI [of _ d] exI [of _ todo] exI [of _ ws] exI [of _ nc'], simp)
  qed
qed

lemma conn_Read_mid:
  assumes "mid E Q c fs p ms es rest" "0 < len"
  shows "conn_Read E len c = read_plain E len c"
  using assms by (simp add: mid_def sound_def conn_Read_def MessageCompressed_def)

lemma nc_loop_ok:
  assumes "tunnel E Q nc fs todo ws es rest" "0 < len" "len < 2 ^ 63" "es = map ctl_ev cs @ [EvControl Close p]" "list_all pingpong cs"
  shows "stream_read E Q len (nc_op nc) fs (todo # map msg_bytes ws) es rest p (nc_loop E len nc)"
  using assms
proof (induction "if nc_inMsg nc then Suc (2 * length ws) else 2 * length ws" arbitrary: nc todo ws rule: less_induct)
  case less
  note tn = less.prems(1) and len = less.prems(2,3) and es = less.prems(4,5)
  have nb: "\<not> leads_byte (concat (map msg_evs ws) @ es)" "es \<noteq> []" using msgs_no_byte [of es ws] es(1) by (cases cs; auto elim: ctl_ev.elims)+
  have err: "nc_err nc = None" "list_all (typed (nc_op nc)) ws" using tn by (simp_all add: tunnel_def)
  show ?case
  proof (cases "nc_inMsg nc")
    case True
    obtain q ms where m: "todo = q @ concat (map snd ms)" "quiet ms" "length todo < 2 ^ 63" "mid E Q (nc_c nc) fs q ms (concat (map msg_evs ws) @ es) rest"
      using tn True by (auto simp: tunnel_def)
    have po: "piece_or_end E Q len fs todo (concat (map msg_evs ws) @ es) rest (conn_Read E len (nc_c nc))"
      unfolding conn_Read_mid [OF m(4) len(1)] m(1)
      by (rule read_plain_ok [OF m(4,2) len]) (use m(1,3) nb in simp_all)
    show ?thesis
    proof (cases "todo = []")
      case td: True
      then obtain c' b where c: "conn_Read E len (nc_c nc) = Some (([], Some EOF), c')" "between E Q c'" "reads b rest (c_in c')"
          "fut (c_rx c') b = (fs, concat (map msg_evs ws) @ es)"
        using po by (auto simp: piece_or_end_def)
      let ?nc = "nc\<lparr>nc_c := c', nc_inMsg := False\<rparr>"
      have e: "nc_loop E len nc = nc_loop E len ?nc" using True c(1) by (subst nc_loop.simps) simp
      have "tunnel E Q ?nc fs [] ws es rest" using err c by (auto simp: tunnel_def)
      from less.hyps [OF _ this len es] True have "stream_read E Q len (nc_op ?nc) fs ([] # map msg_bytes ws) es rest p (nc_loop E len ?nc)" by simp
      then show ?thesis using e td by simp
    next
      case td: False
      then obtain d p' ms' c' where c: "conn_Read E len (nc_c nc) = Some ((d, None), c')" "d \<noteq> []" "length d \<le> len" "todo = d @ p' @ concat (map snd ms')" "quiet ms'"
          "mid E Q c' fs p' ms' (concat (map msg_evs ws) @ es) rest"
        using po by (auto simp: piece_or_end_def)
      let ?nc = "nc\<lparr>nc_c := c'\<rparr>"
      have e: "nc_loop E len nc = Some ((d, None), ?nc)" using True c(1) by (subst nc_loop.simps) simp
      have "tunnel E Q ?nc fs (p' @ concat (map snd ms')) ws es rest" using err c m(3) True by (auto simp: tunnel_def)
      moreover have "concat (todo # map msg_bytes ws) = d @ (p' @ concat (map snd ms')) @ concat (map msg_bytes ws)" "prefix d todo" using c(4) by (simp_all add: prefix_def)
      moreover have "concat (todo # map msg_bytes ws) \<noteq> []" using td by simp
      ultimately show ?thesis unfolding stream_read_def e using c(2,3)
        by (simp only: if_False)
           (intro exI [of _ d] exI [of _ "p' @ concat (map snd ms')"] exI [of _ ws] exI [of _ ?nc], simp)
    qed
  next
    case False
    obtain b where b: "todo = []" "between E Q (nc_c nc)" "reads b rest (c_in (nc_c nc))" "fut (c_rx (nc_c nc)) b = (fs, concat (map msg_evs ws) @ es)"
      using tn False by (auto simp: tunnel_def)
    show ?thesis
    proof (cases ws)
      case Nil
      obtain c' where c: "NextMessage E (nc_c nc) = Some (Inl (CloseError (fst (parseClose p)) (snd (parseClose p))), c')"
        using NextMessage_closed [OF b(2,3) _ es(2)] b(4) Nil es(1) by auto
      show ?thesis unfolding stream_read_def using False b(1) Nil c by (subst nc_loop.simps) (auto simp: readErr_def Let_def)
    next
      case (Cons w ws')
      obtain cs' op cmpd q ms where w: "w = (cs', op, cmpd, q, ms)" by (cases w)
      have ty: "op = nc_op nc" "\<not> cmpd" "msg_ok w" "length (msg_bytes w) < 2 ^ 63"
        using err(2) unfolding Cons list.pred_inject typed_def w prod.case by blast+
      have nb': "\<not> leads_byte (concat (map msg_evs ws') @ es)" "concat (map msg_evs ws') @ es \<noteq> []"
        using msgs_no_byte [of es ws'] nb es(1) by (cases cs; auto elim: ctl_ev.elims)+
      have f: "fut (c_rx (nc_c nc)) b = (fs, msg_evs (cs', op, False, q, ms) @ concat (map msg_evs ws') @ es)" using b(4) Cons w ty(2) by (simp del: msg_evs.simps)
      obtain c' where c: "NextMessage E (nc_c nc) = Some (Inr op, c')" "mid E Q c' fs q ms (concat (map msg_evs ws') @ es) rest"
        using NextMessage_opens [OF b(2,3) f _ nb'(1)] ty(2,3) w nb'(2) by auto
      let ?nc = "nc\<lparr>nc_c := c', nc_inMsg := True\<rparr>"
      have e: "nc_loop E len nc = nc_loop E len ?nc" using False c(1) ty(1) by (subst (1 2) nc_loop.simps) simp
      have "tunnel E Q ?nc fs (msg_bytes w) ws' es rest"
        using err Cons w ty c(2) by (auto simp: tunnel_def intro!: exI [of _ q] exI [of _ ms])
      from less.hyps [OF _ this len es] False Cons have "stream_read E Q len (nc_op ?nc) fs (msg_bytes w # map msg_bytes ws') es rest p (nc_loop E len ?nc)" by simp
      then show ?thesis using e b(1) Cons stream_read_skip by simp
    qed
  qed
qed

fun nc_reads ::
    "('w, 'r) renv \<Rightarrow> nat list \<Rightarrow> ('w, 'r) netConn \<Rightarrow> ((bytes \<times> go_error option) list \<times> ('w, 'r) netConn) option" where
  "nc_reads E [] nc = Some ([], nc)"
| "nc_reads E (n # ns) nc =
    (case nc_Read E n nc of None \<Rightarrow> None | Some (r, nc) \<Rightarrow> map_option (\<lambda>(rs, nc). (r # rs, nc)) (nc_reads E ns nc))"

text \<open>What a run of reads returns: pieces, then the end of the stream for ever.\<close>

definition delivered :: "nat list \<Rightarrow> bytes \<Rightarrow> (bytes \<times> go_error option) list \<Rightarrow> bool" where
  "delivered ns data rs \<longleftrightarrow>
    (\<exists>ds. rs = map (\<lambda>d. (d, None)) ds @ replicate (length ns - length ds) ([], Some EOF) \<and> length ds \<le> length ns \<and> [] \<notin> set ds
       \<and> list_all2 (\<lambda>d n. length d \<le> n) ds (take (length ds) ns) \<and> prefix (concat ds) data \<and> (length ds < length ns \<longrightarrow> concat ds = data))"

lemma delivered_piece: "delivered ns data rs \<Longrightarrow> d \<noteq> [] \<Longrightarrow> length d \<le> n \<Longrightarrow> delivered (n # ns) (d @ data) ((d, None) # rs)"
  unfolding delivered_def
proof (elim exE conjE)
  fix ds
  assume "d \<noteq> []" "length d \<le> n" "rs = map (\<lambda>d. (d, None)) ds @ replicate (length ns - length ds) ([], Some EOF)" "length ds \<le> length ns" "[] \<notin> set ds"
    "list_all2 (\<lambda>d n. length d \<le> n) ds (take (length ds) ns)" "prefix (concat ds) data" "length ds < length ns \<longrightarrow> concat ds = data"
  then show "\<exists>ds. (d, None) # rs = map (\<lambda>d. (d, None)) ds @ replicate (length (n # ns) - length ds) ([], Some EOF) \<and> length ds \<le> length (n # ns) \<and> [] \<notin> set ds
     \<and> list_all2 (\<lambda>d n. length d \<le> n) ds (take (length ds) (n # ns)) \<and> prefix (concat ds) (d @ data) \<and> (length ds < length (n # ns) \<longrightarrow> concat ds = d @ data)"
    by (intro exI [of _ "d # ds"]) simp
qed

lemma nc_reads_ended: "nc_err nc = Some e \<Longrightarrow> nc_reads E ns nc = Some (replicate (length ns) ([], Some e), nc)"
  by (induction ns) (simp_all add: nc_Read_def)

lemma nc_reads_ok:
  assumes "tunnel E Q nc fs todo ws es rest" "list_all (\<lambda>n. 0 < n \<and> n < 2 ^ 63) ns" "es = map ctl_ev cs @ [EvControl Close p]" "list_all pingpong cs"
    "fst (parseClose p) \<in> {1000, 1001, NoStatus}"
  shows "\<exists>rs nc'. nc_reads E ns nc = Some (rs, nc') \<and> delivered ns (todo @ concat (map msg_bytes ws)) rs"
  using assms(1,2)
proof (induction ns arbitrary: nc todo ws)
  case Nil
  show ?case by (auto simp: delivered_def)
next
  case (Cons n ns)
  have n: "0 < n" "n < 2 ^ 63" using Cons.prems(2) by simp_all
  have rd: "nc_Read E n nc = nc_loop E n nc" using Cons.prems(1) n(1) by (simp add: nc_Read_def tunnel_def)
  have sr: "stream_read E Q n (nc_op nc) fs (todo # map msg_bytes ws) es rest p (nc_Read E n nc)"
    unfolding rd by (rule nc_loop_ok [OF Cons.prems(1) n assms(3,4)])
  let ?all = "todo @ concat (map msg_bytes ws)"
  show ?case
  proof (cases "?all = []")
    case True
    then obtain nc' where r: "nc_Read E n nc = Some (([], Some EOF), nc')" "nc_err nc' = Some EOF"
      using sr assms(5) unfolding stream_read_def Let_def by auto
    have "delivered (n # ns) [] (([], Some EOF) # replicate (length ns) ([], Some EOF))"
      unfolding delivered_def by (intro exI [of _ "[]"]) simp
    then show ?thesis unfolding True using r nc_reads_ended [OF r(2), of E ns] by simp
  next
    case False
    then have ne: "concat (todo # map msg_bytes ws) \<noteq> []" by simp
    obtain d todo' ws' nc' where r: "nc_Read E n nc = Some ((d, None), nc')" "d \<noteq> []" "length d \<le> n"
        "?all = d @ todo' @ concat (map msg_bytes ws')" "tunnel E Q nc' fs todo' ws' es rest"
      using sr [unfolded stream_read_def if_not_P [OF ne]] by auto
    obtain rs nc2 where ih: "nc_reads E ns nc' = Some (rs, nc2)" "delivered ns (todo' @ concat (map msg_bytes ws')) rs"
      using Cons.IH [OF r(5)] Cons.prems(2) by auto
    then show ?thesis using r(1,4) delivered_piece [OF ih(2) r(2,3)] by simp
  qed
qed


lemma sys_close_run: "byte_run Client True (Head [], 0) [0x88, 2, 3, 232] = ((Closed, 0), [EvControl Close [3, 232]])"
proof -
  have v: "validateClose [3, 232] = None" by code_simp
  have h: "head_done Client True 0 [0x88, 2] = ((Ctl Close 2 None [], 0), [])"
    by (simp add: head_done_def hdr_def minimal_len_def legal_def Masked_def Opcode_def RSV1_def RSV2_def RSV3_def Final_def PayloadLen_def Let_def)
  show ?thesis using v h by (simp add: head_complete_def header_size_def ctl_done_def key_byte_def Let_def)
qed


end
