(* ===== verification/Utf8_Simd.thy ===== *)
theory Utf8_Simd
  imports Utf8
begin

text \<open>
  The vectorised UTF-8 validator, \<^verbatim>\<open>src/internal/utf8/valid_simd.go\<close>: lookups of nibble
  pairs, 16 or 32 bytes at a time. A vector is the list of its lanes, lowest first; the operations of
  \<^verbatim>\<open>simd/archsimd\<close> the code uses are written out on such lists.
\<close>

unbundle bit_operations_syntax

section \<open>Vector operations\<close>

definition v_and :: "bytes \<Rightarrow> bytes \<Rightarrow> bytes" where "v_and = map2 (AND)"

definition v_or :: "bytes \<Rightarrow> bytes \<Rightarrow> bytes" where "v_or = map2 (OR)"

definition v_xor :: "bytes \<Rightarrow> bytes \<Rightarrow> bytes" where "v_xor = map2 (XOR)"

definition IsZero :: "bytes \<Rightarrow> bool" where "IsZero v \<longleftrightarrow> list_all (\<lambda>x. x = 0) v"

definition SubSaturated :: "bytes \<Rightarrow> bytes \<Rightarrow> bytes" where "SubSaturated = map2 (\<lambda>x y. if x \<le> y then 0 else x - y)"

definition Greater :: "bytes \<Rightarrow> bytes \<Rightarrow> bool list" where "Greater = map2 (\<lambda>x y. x > y)"

definition v_Masked :: "bytes \<Rightarrow> bool list \<Rightarrow> bytes" where "v_Masked = map2 (\<lambda>x m. if m then x else 0)"

text \<open>The lanes as 16-bit lanes and back, little-endian.\<close>

fun AsUint16 :: "bytes \<Rightarrow> 16 word list" where
  "AsUint16 (a # b # r) = (ucast a OR push_bit 8 (ucast b)) # AsUint16 r"
| "AsUint16 _ = []"

fun AsUint8 :: "16 word list \<Rightarrow> bytes" where
  "AsUint8 (w # r) = ucast w # ucast (drop_bit 8 w) # AsUint8 r"
| "AsUint8 [] = []"

text \<open>A lane index with its top bit set selects zero, otherwise its low four bits index the table.\<close>

definition PermuteOrZero :: "bytes \<Rightarrow> bytes \<Rightarrow> bytes" where
  "PermuteOrZero table idx = map (\<lambda>i. if bit i 7 then 0 else table ! (unat i mod 16)) idx"

text \<open>\<open>x\<close> above \<open>y\<close>, shifted right by \<open>k\<close> bytes, and the low half of that.\<close>

definition ConcatShiftBytesRight :: "bytes \<Rightarrow> bytes \<Rightarrow> nat \<Rightarrow> bytes" where
  "ConcatShiftBytesRight x y k = take (length x) (drop k (y @ x))"

text \<open>The 256-bit forms work on each 128-bit half.\<close>

definition GetLo :: "bytes \<Rightarrow> bytes" where "GetLo v = take 16 v"

definition GetHi :: "bytes \<Rightarrow> bytes" where "GetHi v = drop 16 v"

definition PermuteOrZeroGrouped :: "bytes \<Rightarrow> bytes \<Rightarrow> bytes" where
  "PermuteOrZeroGrouped table idx = PermuteOrZero (GetLo table) (GetLo idx) @ PermuteOrZero (GetHi table) (GetHi idx)"

definition ConcatShiftBytesRightGrouped :: "bytes \<Rightarrow> bytes \<Rightarrow> nat \<Rightarrow> bytes" where
  "ConcatShiftBytesRightGrouped x y k = ConcatShiftBytesRight (GetLo x) (GetLo y) k @ ConcatShiftBytesRight (GetHi x) (GetHi y) k"

section \<open>valid_simd.go\<close>

definition wideThreshold :: nat where "wideThreshold = 384"

definition utf8FirstHigh :: bytes where
  "utf8FirstHigh = [0x02, 0x02, 0x02, 0x02, 0x02, 0x02, 0x02, 0x02, 0x80, 0x80, 0x80, 0x80, 0x21, 0x01, 0x15, 0x49]"

definition utf8FirstLow :: bytes where
  "utf8FirstLow = [0xe7, 0xa3, 0x83, 0x83, 0x8b, 0xcb, 0xcb, 0xcb, 0xcb, 0xcb, 0xcb, 0xcb, 0xcb, 0xdb, 0xcb, 0xcb]"

definition utf8SecondHigh :: bytes where
  "utf8SecondHigh = [0x01, 0x01, 0x01, 0x01, 0x01, 0x01, 0x01, 0x01, 0xe6, 0xae, 0xba, 0xba, 0x01, 0x01, 0x01, 0x01]"

definition utf8FirstHighAVX2 :: bytes where
  "utf8FirstHighAVX2 =
    [0x02, 0x02, 0x02, 0x02, 0x02, 0x02, 0x02, 0x02, 0x80, 0x80, 0x80, 0x80, 0x21, 0x01, 0x15, 0x49,
     0x02, 0x02, 0x02, 0x02, 0x02, 0x02, 0x02, 0x02, 0x80, 0x80, 0x80, 0x80, 0x21, 0x01, 0x15, 0x49]"

definition utf8FirstLowAVX2 :: bytes where
  "utf8FirstLowAVX2 =
    [0xe7, 0xa3, 0x83, 0x83, 0x8b, 0xcb, 0xcb, 0xcb, 0xcb, 0xcb, 0xcb, 0xcb, 0xcb, 0xdb, 0xcb, 0xcb,
     0xe7, 0xa3, 0x83, 0x83, 0x8b, 0xcb, 0xcb, 0xcb, 0xcb, 0xcb, 0xcb, 0xcb, 0xcb, 0xdb, 0xcb, 0xcb]"

definition utf8SecondHighAVX2 :: bytes where
  "utf8SecondHighAVX2 =
    [0x01, 0x01, 0x01, 0x01, 0x01, 0x01, 0x01, 0x01, 0xe6, 0xae, 0xba, 0xba, 0x01, 0x01, 0x01, 0x01,
     0x01, 0x01, 0x01, 0x01, 0x01, 0x01, 0x01, 0x01, 0xe6, 0xae, 0xba, 0xba, 0x01, 0x01, 0x01, 0x01]"

definition high_nibbles :: "bytes \<Rightarrow> bytes" where
  "high_nibbles v = v_and (AsUint8 (map (drop_bit 4) (AsUint16 v))) (replicate (length v) 0x0f)"

text \<open>The body the three loops of the narrow kernel repeat: whether a block passes.\<close>

definition narrow_block :: "bytes \<Rightarrow> bytes \<Rightarrow> bool" where
  "narrow_block previous input =
    (let previous1 = ConcatShiftBytesRight input previous 15;
         previous2 = ConcatShiftBytesRight input previous 14;
         previous3 = ConcatShiftBytesRight input previous 13;
         previous1High = high_nibbles previous1;
         inputHigh = high_nibbles input;
         special = v_and (v_and (PermuteOrZero utf8FirstHigh previous1High)
                                (PermuteOrZero utf8FirstLow (v_and previous1 (replicate 16 0x0f))))
                         (PermuteOrZero utf8SecondHigh inputHigh);
         mustContinue = Greater (v_or (SubSaturated previous2 (replicate 16 0xdf)) (SubSaturated previous3 (replicate 16 0xef)))
                                (replicate 16 0);
         required = v_Masked (replicate 16 0x80) mustContinue
     in IsZero (v_xor required special))"

text \<open>The loops return the last block and what is left, or nothing when a block fails.\<close>

function narrow_pairs :: "bytes \<Rightarrow> bytes \<Rightarrow> (bytes \<times> bytes) option" where
  "narrow_pairs previous src =
    (if length src \<ge> 32
     then let input0 = take 16 src; input1 = take 16 (drop 16 src)
          in if \<not> narrow_block previous input0 then None
             else if \<not> narrow_block input0 input1 then None
             else narrow_pairs input1 (drop 32 src)
     else Some (previous, src))"
  by pat_completeness auto
termination by (relation "measure (length \<circ> snd)") auto

function narrow_singles :: "bytes \<Rightarrow> bytes \<Rightarrow> (bytes \<times> bytes) option" where
  "narrow_singles previous src =
    (if length src \<ge> 16
     then let input = take 16 src in if \<not> narrow_block previous input then None else narrow_singles input (drop 16 src)
     else Some (previous, src))"
  by pat_completeness auto
termination by (relation "measure (length \<circ> snd)") auto

declare narrow_pairs.simps [simp del] narrow_singles.simps [simp del]

text \<open>The index of the last byte that is not a continuation byte, at or before \<open>last\<close>.\<close>

fun back_up :: "bytes \<Rightarrow> nat \<Rightarrow> nat" where
  "back_up original 0 = 0"
| "back_up original (Suc i) = (if original ! Suc i AND 0xc0 = 0x80 then back_up original i else Suc i)"

definition validNarrow :: "bytes \<Rightarrow> bytes \<Rightarrow> bool" where
  "validNarrow original src =
    (case narrow_pairs (replicate 16 0) src of
       None \<Rightarrow> False
     | Some (previous, src) \<Rightarrow>
        (case narrow_singles previous src of
           None \<Rightarrow> False
         | Some (previous, src) \<Rightarrow>
            (if src \<noteq> [] \<and> \<not> narrow_block previous (take 16 (src @ replicate 16 0)) then False
             else std_Valid (drop (back_up original (length original - 1)) original))))"

definition wide_block :: "bytes \<Rightarrow> bytes \<Rightarrow> bool" where
  "wide_block previous input =
    (let prior = GetHi previous @ GetLo input;
         previous1 = ConcatShiftBytesRightGrouped input prior 15;
         previous2 = ConcatShiftBytesRightGrouped input prior 14;
         previous3 = ConcatShiftBytesRightGrouped input prior 13;
         previous1High = high_nibbles previous1;
         inputHigh = high_nibbles input;
         special = v_and (v_and (PermuteOrZeroGrouped utf8FirstHighAVX2 previous1High)
                                (PermuteOrZeroGrouped utf8FirstLowAVX2 (v_and previous1 (replicate 32 0x0f))))
                         (PermuteOrZeroGrouped utf8SecondHighAVX2 inputHigh);
         mustContinue = Greater (v_or (SubSaturated previous2 (replicate 32 0xdf)) (SubSaturated previous3 (replicate 32 0xef)))
                                (replicate 32 0);
         required = v_Masked (replicate 32 0x80) mustContinue
     in IsZero (v_xor required special))"

function wide_loop :: "bytes \<Rightarrow> bytes \<Rightarrow> nat \<Rightarrow> nat option" where
  "wide_loop previous src processed =
    (if length src \<ge> 32
     then let input = take 32 src in if \<not> wide_block previous input then None else wide_loop input (drop 32 src) (processed + 32)
     else Some processed)"
  by pat_completeness auto
termination by (relation "measure (\<lambda>(p, s, n). length s)") auto

declare wide_loop.simps [simp del]

definition validWide :: "bytes \<Rightarrow> bytes \<Rightarrow> nat \<Rightarrow> bool" where
  "validWide original src processed =
    (case wide_loop (replicate 32 0) src processed of
       None \<Rightarrow> False
     | Some processed \<Rightarrow> std_Valid (drop (back_up original (processed - 1)) original))"

text \<open>\<open>utf8.DecodeRune\<close> of the standard library: the first rune and its size, \<open>RuneError\<close> and one for an invalid
  encoding.\<close>

definition RuneError :: nat where "RuneError = 0xfffd"

definition DecodeRune :: "bytes \<Rightarrow> nat \<times> nat" where
  "DecodeRune p =
    (case p of
       [] \<Rightarrow> (RuneError, 0)
     | b # bs \<Rightarrow>
        if b < 0x80 then (unat b, 1)
        else if in_range 0xc2 0xdf b then
          (case bs of c1 # r \<Rightarrow> if in_range 0x80 0xbf c1 then ((unat b - 0xc0) * 64 + (unat c1 - 0x80), 2) else (RuneError, 1)
           | _ \<Rightarrow> (RuneError, 1))
        else if in_range 0xe0 0xef b then
          (case bs of c1 # c2 # r \<Rightarrow>
             if in_range (accept_lo b) (accept_hi b) c1 \<and> in_range 0x80 0xbf c2
             then (((unat b - 0xe0) * 64 + (unat c1 - 0x80)) * 64 + (unat c2 - 0x80), 3) else (RuneError, 1)
           | _ \<Rightarrow> (RuneError, 1))
        else if in_range 0xf0 0xf4 b then
          (case bs of c1 # c2 # c3 # r \<Rightarrow>
             if in_range (accept_lo b) (accept_hi b) c1 \<and> in_range 0x80 0xbf c2 \<and> in_range 0x80 0xbf c3
             then ((((unat b - 0xf0) * 64 + (unat c1 - 0x80)) * 64 + (unat c2 - 0x80)) * 64 + (unat c3 - 0x80), 4) else (RuneError, 1)
           | _ \<Rightarrow> (RuneError, 1))
        else (RuneError, 1))"

text \<open>\<open>avx2\<close> is whether the processor has AVX2.\<close>

definition simd_Valid :: "bool \<Rightarrow> bytes \<Rightarrow> bool" where
  "simd_Valid avx2 src =
    (let i = asciiPrefix src
     in if i = length src then True
        else
          (let src = drop i src
           in if length src < 32 then std_Valid src
              else
                (let original = src; (r, size) = DecodeRune src
                 in if r = RuneError \<and> size = 1 then False
                    else
                      (let src = drop size src
                       in if length original \<ge> wideThreshold \<and> avx2 then validWide original src size
                          else validNarrow original src))))"

section \<open>The check of one position\<close>

definition pair_bits :: "nat \<Rightarrow> nat \<Rightarrow> nat \<Rightarrow> byte" where
  "pair_bits h l n = utf8FirstHigh ! h AND utf8FirstLow ! l AND utf8SecondHigh ! n"

definition pair_spec :: "nat \<Rightarrow> nat \<Rightarrow> nat \<Rightarrow> bool" where
  "pair_spec h l n \<longleftrightarrow>
    (let x = pair_bits h l n; c = (8 \<le> n \<and> n < 12)
     in if h < 8 then x = (if c then 2 else 0)
        else if h < 12 then x = (if c then 0x80 else 0)
        else x \<noteq> 0x80 \<and> (x = 0 \<longleftrightarrow>
          (if h = 12 then c \<and> 2 \<le> l
           else if h = 13 then c
           else if h = 14 then c \<and> (l = 0 \<longrightarrow> 10 \<le> n) \<and> (l = 13 \<longrightarrow> n < 10)
           else c \<and> l < 5 \<and> (l = 0 \<longrightarrow> 9 \<le> n) \<and> (l = 4 \<longrightarrow> n < 9))))"

lemma pair_table: "list_all (\<lambda>h. list_all (\<lambda>l. list_all (\<lambda>n. pair_spec h l n) [0..<16]) [0..<16]) [0..<16]"
  by code_simp

lemma pair_ok: "h < 16 \<Longrightarrow> l < 16 \<Longrightarrow> n < 16 \<Longrightarrow> pair_spec h l n"
  using pair_table by (simp add: list_all_iff)

text \<open>The check at a byte \<open>b\<close> after \<open>p3 p2 p1\<close>.\<close>

definition chk :: "byte \<Rightarrow> byte \<Rightarrow> byte \<Rightarrow> byte \<Rightarrow> bool" where
  "chk p3 p2 p1 b \<longleftrightarrow> pair_bits (unat p1 div 16) (unat p1 mod 16) (unat b div 16) = (if 0xe0 \<le> unat p2 \<or> 0xf0 \<le> unat p3 then 0x80 else 0)"

definition cont :: "byte \<Rightarrow> bool" where
  "cont b \<longleftrightarrow> 0x80 \<le> unat b \<and> unat b < 0xc0"

text \<open>A byte that starts no encoding and is not a continuation: the check only sees it at the next byte.\<close>

definition bad_lead :: "byte \<Rightarrow> bool" where
  "bad_lead b \<longleftrightarrow> unat b \<in> {0xc0, 0xc1} \<or> 0xf5 \<le> unat b"

text \<open>What the three last bytes say of the automaton's state.\<close>

definition seen :: "u64 \<Rightarrow> byte \<Rightarrow> byte \<Rightarrow> byte \<Rightarrow> bool" where
  "seen q p3 p2 p1 \<longleftrightarrow>
    (let fresh = (unat p2 < 0xe0 \<and> unat p3 < 0xf0)
     in if q = accept then unat p1 < 0xc0 \<and> fresh
        else if q = cont1 then (0xc2 \<le> unat p1 \<and> unat p1 < 0xe0 \<and> fresh) \<or> (cont p1 \<and> 0xe0 \<le> unat p2 \<and> unat p2 < 0xf0 \<and> unat p3 < 0xf0)
            \<or> (cont p1 \<and> cont p2 \<and> 0xf0 \<le> unat p3)
        else if q = cont2 then (0xe1 \<le> unat p1 \<and> unat p1 < 0xf0 \<and> unat p1 \<noteq> 0xed \<and> fresh) \<or> (cont p1 \<and> 0xf0 \<le> unat p2)
        else if q = afterE0 then unat p1 = 0xe0 \<and> fresh
        else if q = afterED then unat p1 = 0xed \<and> fresh
        else if q = afterF0 then unat p1 = 0xf0 \<and> fresh
        else if q = afterF1 then 0xf1 \<le> unat p1 \<and> unat p1 < 0xf4 \<and> fresh
        else if q = afterF4 then unat p1 = 0xf4 \<and> fresh
        else False)"

lemma byte_lt: "unat (b :: byte) < 256"
  using unsigned_less [of b] by simp

lemma pair_at: "pair_spec (unat (p1 :: byte) div 16) (unat p1 mod 16) (unat (b :: byte) div 16)"
  using byte_lt [of p1] byte_lt [of b] by (intro pair_ok) auto

lemma cont_nibble: "8 \<le> unat (b :: byte) div 16 \<and> unat b div 16 < 12 \<longleftrightarrow> cont b"
  unfolding cont_def by auto

lemma chk_accept:
  assumes "seen accept p3 p2 p1"
  shows "chk p3 p2 p1 b \<longleftrightarrow> \<not> cont b"
proof -
  have p: "unat p1 < 0xc0" "unat p2 < 0xe0" "unat p3 < 0xf0" using assms by (simp_all add: seen_def Let_def)
  have "unat p1 div 16 < 12" using p(1) by auto
  then have "pair_bits (unat p1 div 16) (unat p1 mod 16) (unat b div 16) = 0 \<longleftrightarrow> \<not> cont b"
    using pair_at [of p1 b] by (auto simp: pair_spec_def Let_def cont_nibble split: if_splits)
  then show ?thesis using p(2,3) by (simp add: chk_def)
qed

lemma chk_middle:
  assumes "cont p1" "0xe0 \<le> unat p2 \<or> 0xf0 \<le> unat p3"
  shows "chk p3 p2 p1 b \<longleftrightarrow> cont b"
proof -
  have "8 \<le> unat p1 div 16" "unat p1 div 16 < 12" using assms(1) by (auto simp: cont_def)
  then have "pair_bits (unat p1 div 16) (unat p1 mod 16) (unat b div 16) = (if cont b then 0x80 else 0)"
    using pair_at [of p1 b] by (auto simp: pair_spec_def Let_def cont_nibble split: if_splits)
  then show ?thesis using assms(2) by (simp add: chk_def)
qed

lemma chk_lead:
  assumes "0xc0 \<le> unat p1"
  shows "chk p3 p2 p1 b \<Longrightarrow> unat p2 < 0xe0 \<and> unat p3 < 0xf0"
    and "unat p2 < 0xe0 \<Longrightarrow> unat p3 < 0xf0 \<Longrightarrow>
      chk p3 p2 p1 b \<longleftrightarrow> cont b \<and> \<not> bad_lead p1 \<and> (unat p1 = 0xe0 \<longrightarrow> 0xa0 \<le> unat b) \<and> (unat p1 = 0xed \<longrightarrow> unat b < 0xa0)
        \<and> (unat p1 = 0xf0 \<longrightarrow> 0x90 \<le> unat b) \<and> (unat p1 = 0xf4 \<longrightarrow> unat b < 0x90)"
proof -
  define h l where "h = unat p1 div 16" and "l = unat p1 mod 16"
  have hl: "unat p1 = 16 * h + l" "l < 16" "h < 16" "12 \<le> h" using assms byte_lt [of p1] by (auto simp: h_def l_def)
  have n: "10 \<le> unat b div 16 \<longleftrightarrow> 0xa0 \<le> unat b" "9 \<le> unat b div 16 \<longleftrightarrow> 0x90 \<le> unat b" "unat b div 16 < 10 \<longleftrightarrow> unat b < 0xa0" "unat b div 16 < 9 \<longleftrightarrow> unat b < 0x90" by auto
  have sp: "pair_bits h l (unat b div 16) \<noteq> 0x80" "pair_bits h l (unat b div 16) = 0 \<longleftrightarrow>
          (if h = 12 then cont b \<and> 2 \<le> l
           else if h = 13 then cont b
           else if h = 14 then cont b \<and> (l = 0 \<longrightarrow> 0xa0 \<le> unat b) \<and> (l = 13 \<longrightarrow> unat b < 0xa0)
           else cont b \<and> l < 5 \<and> (l = 0 \<longrightarrow> 0x90 \<le> unat b) \<and> (l = 4 \<longrightarrow> unat b < 0x90))"
    using pair_at [of p1 b, folded h_def l_def] hl(4) unfolding pair_spec_def Let_def cont_nibble n by simp_all
  show "chk p3 p2 p1 b \<Longrightarrow> unat p2 < 0xe0 \<and> unat p3 < 0xf0"
    using sp(1) unfolding chk_def h_def [symmetric] l_def [symmetric] by (auto split: if_splits)
  assume p: "unat p2 < 0xe0" "unat p3 < 0xf0"
  have c: "chk p3 p2 p1 b \<longleftrightarrow> pair_bits h l (unat b div 16) = 0" using p by (simp add: chk_def h_def l_def)
  consider "h = 12" | "h = 13" | "h = 14" | "h = 15" using hl(3,4) by linarith
  then show "chk p3 p2 p1 b \<longleftrightarrow> cont b \<and> \<not> bad_lead p1 \<and> (unat p1 = 0xe0 \<longrightarrow> 0xa0 \<le> unat b) \<and> (unat p1 = 0xed \<longrightarrow> unat b < 0xa0)
        \<and> (unat p1 = 0xf0 \<longrightarrow> 0x90 \<le> unat b) \<and> (unat p1 = 0xf4 \<longrightarrow> unat b < 0x90)"
    unfolding c sp(2) bad_lead_def hl(1) using hl(2) by cases auto
qed

lemmas range_unat = in_range_def word_le_nat_alt word_less_nat_alt

lemma byte_eq: "(b :: byte) = x \<longleftrightarrow> unat b = unat x"
  by (simp add: word_unat_eq_iff)

text \<open>One step: the check passes exactly when the automaton goes on, or the byte is a bad lead after a complete encoding.\<close>

lemma transition_nat:
  "transition accept b =
       (if unat b < 0x80 then accept
        else if 0xc2 \<le> unat b \<and> unat b < 0xe0 then cont1
        else if unat b = 0xe0 then afterE0
        else if unat b = 0xed then afterED
        else if 0xe1 \<le> unat b \<and> unat b < 0xf0 then cont2
        else if unat b = 0xf0 then afterF0
        else if 0xf1 \<le> unat b \<and> unat b < 0xf4 then afterF1
        else if unat b = 0xf4 then afterF4
        else reject)"
  "transition cont1 b = (if cont b then accept else reject)"
  "transition cont2 b = (if cont b then cont1 else reject)"
  "transition afterE0 b = (if cont b \<and> 0xa0 \<le> unat b then cont1 else reject)"
  "transition afterED b = (if cont b \<and> unat b < 0xa0 then cont1 else reject)"
  "transition afterF0 b = (if cont b \<and> 0x90 \<le> unat b then cont2 else reject)"
  "transition afterF1 b = (if cont b then cont2 else reject)"
  "transition afterF4 b = (if cont b \<and> unat b < 0x90 then cont2 else reject)"
  by (simp_all add: transition_def range_unat byte_eq cont_def) (auto simp: state_defs)

lemma states_differ [simp]:
  "accept \<noteq> cont1" "accept \<noteq> cont2" "accept \<noteq> afterE0" "accept \<noteq> afterED" "accept \<noteq> afterF0" "accept \<noteq> afterF1" "accept \<noteq> afterF4"
  "cont1 \<noteq> reject" "cont2 \<noteq> reject" "afterE0 \<noteq> reject" "afterED \<noteq> reject" "afterF0 \<noteq> reject" "afterF1 \<noteq> reject" "afterF4 \<noteq> reject"
  "cont2 \<noteq> cont1" "afterE0 \<noteq> cont1" "afterED \<noteq> cont1" "afterF0 \<noteq> cont1" "afterF1 \<noteq> cont1" "afterF4 \<noteq> cont1"
  "afterE0 \<noteq> cont2" "afterED \<noteq> cont2" "afterF0 \<noteq> cont2" "afterF1 \<noteq> cont2" "afterF4 \<noteq> cont2"
  "afterED \<noteq> afterE0" "afterF0 \<noteq> afterE0" "afterF1 \<noteq> afterE0" "afterF4 \<noteq> afterE0"
  "afterF0 \<noteq> afterED" "afterF1 \<noteq> afterED" "afterF4 \<noteq> afterED" "afterF1 \<noteq> afterF0" "afterF4 \<noteq> afterF0" "afterF4 \<noteq> afterF1"
  by (simp_all add: state_defs)

lemmas states_differ_sym [simp] = states_differ [symmetric]

lemma seen_step:
  assumes "seen q p3 p2 p1"
  shows "(chk p3 p2 p1 b \<longleftrightarrow> transition q b \<noteq> reject \<or> (q = accept \<and> bad_lead b)) \<and> (transition q b \<noteq> reject \<longrightarrow> seen (transition q b) p2 p1 b)"
proof -
  have "q \<in> {accept, cont1, cont2, afterE0, afterED, afterF0, afterF1, afterF4}" using assms by (auto simp: seen_def Let_def split: if_splits)
  then consider "q = accept" | "q = cont1" | "q = cont2" | "q \<in> {afterE0, afterED, afterF0, afterF1, afterF4}" by blast
  then show ?thesis
  proof cases
    case 1
    have p: "unat p1 < 0xc0" "unat p2 < 0xe0" using assms 1 by (simp_all add: seen_def Let_def)
    have "chk p3 p2 p1 b \<longleftrightarrow> \<not> cont b" using chk_accept assms 1 by simp
    moreover have "\<not> cont b \<longleftrightarrow> transition accept b \<noteq> reject \<or> bad_lead b"
      using byte_lt [of b] by (auto simp: transition_nat cont_def bad_lead_def)
    moreover have "transition accept b \<noteq> reject \<Longrightarrow> seen (transition accept b) p2 p1 b"
      using p by (auto simp: transition_nat seen_def Let_def cont_def split: if_splits)
    ultimately show ?thesis using 1 by simp
  next
    case 2
    then consider "0xc2 \<le> unat p1" "unat p1 < 0xe0" "unat p2 < 0xe0" "unat p3 < 0xf0" | "cont p1" "0xe0 \<le> unat p2" "unat p2 < 0xf0" | "cont p1" "cont p2" "0xf0 \<le> unat p3"
      using assms by (auto simp: seen_def Let_def)
    then have "(chk p3 p2 p1 b \<longleftrightarrow> cont b) \<and> (cont b \<longrightarrow> seen accept p2 p1 b)"
    proof cases
      case 1
      then show ?thesis using chk_lead(2) [of p1 p2 p3 b] by (auto simp: seen_def Let_def cont_def bad_lead_def)
    next
      case 2
      then show ?thesis using chk_middle [of p1 p2 p3 b] by (auto simp: seen_def Let_def cont_def)
    next
      case 3
      then show ?thesis using chk_middle [of p1 p2 p3 b] by (auto simp: seen_def Let_def cont_def)
    qed
    then show ?thesis using 2 by (simp add: transition_nat)
  next
    case 3
    then consider "0xe1 \<le> unat p1" "unat p1 < 0xf0" "unat p1 \<noteq> 0xed" "unat p2 < 0xe0" "unat p3 < 0xf0" | "cont p1" "0xf0 \<le> unat p2"
      using assms by (auto simp: seen_def Let_def)
    then have "(chk p3 p2 p1 b \<longleftrightarrow> cont b) \<and> (cont b \<longrightarrow> seen cont1 p2 p1 b)"
    proof cases
      case 1
      then show ?thesis using chk_lead(2) [of p1 p2 p3 b] by (auto simp: seen_def Let_def cont_def bad_lead_def)
    next
      case 2
      then show ?thesis using chk_middle [of p1 p2 p3 b] by (auto simp: seen_def Let_def cont_def)
    qed
    then show ?thesis using 3 by (simp add: transition_nat)
  next
    case 4
    then have p: "0xc0 \<le> unat p1" "unat p2 < 0xe0" "unat p3 < 0xf0" "\<not> bad_lead p1" using assms by (auto simp: seen_def Let_def bad_lead_def)
    note ck = chk_lead(2) [OF p(1-3), of b]
    show ?thesis using 4 assms p ck by (auto simp: transition_nat seen_def Let_def cont_def split: if_splits)
  qed
qed

section \<open>The check of a stream\<close>

fun chk_run :: "byte \<Rightarrow> byte \<Rightarrow> byte \<Rightarrow> bytes \<Rightarrow> bool" where
  "chk_run p3 p2 p1 [] \<longleftrightarrow> True"
| "chk_run p3 p2 p1 (b # bs) \<longleftrightarrow> chk p3 p2 p1 b \<and> chk_run p2 p1 b bs"

lemma chk_after_bad: "bad_lead p1 \<Longrightarrow> \<not> chk p3 p2 p1 b"
proof
  assume b: "bad_lead p1" "chk p3 p2 p1 b"
  have "0xc0 \<le> unat p1" using b(1) by (auto simp: bad_lead_def)
  from chk_lead(1) [OF this b(2)] chk_lead(2) [OF this, of p2 p3 b] b show False by blast
qed

lemma bad_lead_reject: "bad_lead b \<Longrightarrow> transition q b = reject \<or> q \<notin> set dfa_states"
  by (auto simp: dfa_states_def transition_nat bad_lead_def cont_def)

lemma trun_in: "trun accept bs \<in> set dfa_states"
  by (rule trun_states) (simp add: dfa_states_def)

lemma chk_run_trun:
  assumes "seen q p3 p2 p1"
  shows "chk_run p3 p2 p1 bs \<longleftrightarrow> trun q bs \<noteq> reject \<or> (\<exists>xs b. bs = xs @ [b] \<and> trun q xs = accept \<and> bad_lead b)"
  using assms
proof (induction bs arbitrary: q p3 p2 p1)
  case Nil
  then show ?case by (auto simp: seen_def split: if_splits)
next
  case (Cons b bs)
  note st = seen_step [OF Cons.prems, of b]
  have q: "q \<in> set dfa_states" using Cons.prems by (auto simp: seen_def dfa_states_def Let_def split: if_splits)
  show ?case
  proof (cases "transition q b = reject")
    case False
    then have "chk_run p3 p2 p1 (b # bs) \<longleftrightarrow> trun (transition q b) bs \<noteq> reject \<or> (\<exists>xs b'. bs = xs @ [b'] \<and> trun (transition q b) xs = accept \<and> bad_lead b')"
      using st Cons.IH [of "transition q b" p2 p1 b] by simp
    moreover have "\<not> bad_lead b" using bad_lead_reject [of b q] False q by blast
    ultimately show ?thesis by (auto simp: Cons_eq_append_conv)
  next
    case True
    then have r: "trun q (b # bs) = reject" by simp
    show ?thesis
    proof (cases "q = accept \<and> bad_lead b")
      case True
      have "chk_run p2 p1 b bs \<longleftrightarrow> bs = []" using chk_after_bad True by (cases bs) auto
      then show ?thesis using True st r \<open>transition q b = reject\<close> by (auto simp: Cons_eq_append_conv)
    next
      case False
      then have "\<not> chk p3 p2 p1 b" using st True by blast
      moreover have "\<not> (\<exists>xs b'. b # bs = xs @ [b'] \<and> trun q xs = accept \<and> bad_lead b')"
        using False True by (auto simp: Cons_eq_append_conv)
      ultimately show ?thesis using r by simp
    qed
  qed
qed

text \<open>Cutting at a byte that is not a continuation.\<close>

lemma not_cont_reject: "q \<in> set dfa_states \<Longrightarrow> q \<noteq> accept \<Longrightarrow> \<not> cont b \<Longrightarrow> transition q b = reject"
  by (auto simp: dfa_states_def transition_nat)

lemma back_up_le: "back_up original i \<le> i"
  by (induction i) auto

lemma cont_mask_table: "list_all (\<lambda>n. ((of_nat n :: byte) AND 0xc0 = 0x80) = (0x80 \<le> n \<and> n < 0xc0)) [0..<256]"
  by code_simp

lemma cont_mask: "b AND 0xc0 = 0x80 \<longleftrightarrow> cont b"
proof -
  have "unat b \<in> set [0..<256]" using byte_lt [of b] by simp
  then have "((of_nat (unat b) :: byte) AND 0xc0 = 0x80) = (0x80 \<le> unat b \<and> unat b < 0xc0)"
    using cont_mask_table unfolding list_all_iff by blast
  then show ?thesis unfolding cont_def by simp
qed

lemma back_up_ok: "back_up original i = 0 \<or> \<not> cont (original ! back_up original i)"
  by (induction i) (auto simp: cont_mask)

lemma back_up_stay: "\<not> cont (original ! i) \<Longrightarrow> back_up original i = i"
  by (cases i) (auto simp: cont_mask)

lemma final_check:
  assumes "P \<noteq> []" "s \<le> length P" "trun accept (take s P) = accept"
  shows "std_Valid (P @ L) \<longleftrightarrow> chk_run 0 0 0 (drop s P) \<and> std_Valid (drop (back_up (P @ L) (length P - 1)) (P @ L))"
proof -
  define k where "k = back_up (P @ L) (length P - 1)"
  have k: "k < length P" using back_up_le [of "P @ L" "length P - 1"] assms(1) unfolding k_def by (cases P) auto
  have "seen accept 0 0 0" by (simp add: seen_def)
  note cr = chk_run_trun [OF this, of "drop s P"]
  have t: "trun accept P = trun accept (drop s P)" using assms(3) by (metis append_take_drop_id trun_simps(3))
  have cut: "trun accept (take k P) = accept \<or> trun accept P = reject" if "k \<noteq> 0"
  proof -
    have nc: "\<not> cont (P ! k)" using back_up_ok [of "P @ L" "length P - 1"] that k unfolding k_def by (auto simp: nth_append)
    have "P = take k P @ P ! k # drop (Suc k) P" using k by (simp add: id_take_nth_drop)
    then have "trun accept P = trun (transition (trun accept (take k P)) (P ! k)) (drop (Suc k) P)" by (metis trun_simps(2,3))
    then show ?thesis using not_cont_reject [OF trun_in _ nc, of "take k P"] by (metis trun_reject)
  qed
  have d: "P @ L = take k P @ drop k (P @ L)" using k by (metis append_take_drop_id less_imp_le_nat take_append diff_is_0_eq take_0 append_Nil2)
  have val: "std_Valid (P @ L) \<longleftrightarrow> std_Valid (drop k (P @ L))" if "trun accept (take k P) = accept"
    using that d by (metis trun_std_Valid trun_simps(3))
  show ?thesis
  proof
    assume v: "std_Valid (P @ L)"
    then have nr: "trun accept P \<noteq> reject" using trun_std_Valid [of "P @ L"] by auto
    then have "trun accept (take k P) = accept" using cut by (cases "k = 0") auto
    then show "chk_run 0 0 0 (drop s P) \<and> std_Valid (drop (back_up (P @ L) (length P - 1)) (P @ L))"
      using val v nr t cr unfolding k_def by auto
  next
    assume c: "chk_run 0 0 0 (drop s P) \<and> std_Valid (drop (back_up (P @ L) (length P - 1)) (P @ L))"
    then have sv: "std_Valid (drop k (P @ L))" by (simp add: k_def)
    from c cr consider "trun accept P \<noteq> reject" | xs b where "drop s P = xs @ [b]" "trun accept xs = accept" "bad_lead b" using t by auto
    then show "std_Valid (P @ L)"
    proof cases
      case 1
      then show ?thesis using cut val sv by (cases "k = 0") auto
    next
      case 2
      have dn: "drop s P \<noteq> []" using 2(1) by simp
      then have "last P = b" using 2(1) by (metis last_drop last_snoc drop_eq_Nil2 not_le)
      then have lp: "P ! (length P - 1) = b" using assms(1) by (simp add: last_conv_nth)
      have nc: "\<not> cont b" using 2(3) byte_lt [of b] by (auto simp: bad_lead_def cont_def)
      have "k = length P - 1" unfolding k_def by (rule back_up_stay) (use lp nc assms(1) in \<open>simp add: nth_append\<close>)
      then have "drop k (P @ L) = b # L" using lp k assms(1) by (simp add: Cons_nth_drop_Suc [symmetric])
      moreover have "transition accept b = reject" using bad_lead_reject [OF 2(3), of accept] by (simp add: dfa_states_def)
      ultimately have "\<not> std_Valid (drop k (P @ L))" using trun_std_Valid [of "b # L"] by simp
      with sv show ?thesis by blast
    qed
  qed
qed

end
