(* ===== verification/Utf8_Simd_Thm.thy ===== *)
theory Utf8_Simd_Thm
  imports Utf8_Simd
begin

text \<open>
  The vectorised validator accepts what the scalar one does: each block checks its positions, the loops
  check the stream, and the last encoding is left to the standard library.
\<close>

unbundle bit_operations_syntax

section \<open>Lanes\<close>

lemma nibble16_lo: "ucast (drop_bit 4 (ucast a OR push_bit 8 (ucast b) :: 16 word)) AND 0x0f = drop_bit 4 (a :: byte)" for b :: byte
proof -
  have m: "(0x0f :: byte) = mask 4" by (simp add: mask_eq_exp_minus_1)
  show ?thesis unfolding m by (rule bit_word_eqI) (auto simp: bit_simps dest: bit_imp_le_length)
qed

lemma nibble16_hi: "ucast (drop_bit 8 (drop_bit 4 (ucast a OR push_bit 8 (ucast b) :: 16 word))) AND 0x0f = drop_bit 4 (b :: byte)" for a :: byte
proof -
  have m: "(0x0f :: byte) = mask 4" by (simp add: mask_eq_exp_minus_1)
  show ?thesis unfolding m by (rule bit_word_eqI) (auto simp: bit_simps dest: bit_imp_le_length)
qed

lemma high_nibbles_eq: "even (length v) \<Longrightarrow> high_nibbles v = map (drop_bit 4) v"
proof (induction v rule: AsUint16.induct)
  case (1 a b r)
  then show ?case by (simp add: high_nibbles_def v_and_def nibble16_lo nibble16_hi del: drop_bit_or drop_bit_drop_bit)
qed (simp_all add: high_nibbles_def v_and_def)

lemma unat_high: "unat (drop_bit 4 (b :: byte)) = unat b div 16"
  by (simp only: unat_drop_bit_eq) (simp add: drop_bit_eq_div)

lemma Permute_high: "PermuteOrZero table (map (drop_bit 4) v) = map (\<lambda>b. table ! (unat b div 16)) v"
proof -
  have "\<not> bit (drop_bit 4 b) 7" "unat (drop_bit 4 b) mod 16 = unat b div 16" for b :: byte
    using byte_lt [of b] by (auto simp: bit_drop_bit_eq unat_high dest: bit_imp_le_length)
  then show ?thesis by (simp add: PermuteOrZero_def comp_def)
qed

lemma Permute_low: "length v = n \<Longrightarrow> PermuteOrZero table (v_and v (replicate n 0x0f)) = map (\<lambda>b. table ! (unat b mod 16)) v"
proof -
  assume n: "length v = n"
  have m: "(0x0f :: byte) = mask 4" by (simp add: mask_eq_exp_minus_1)
  have t: "b AND 0x0f = take_bit 4 b" for b :: byte unfolding m by (simp only: take_bit_eq_mask)
  have "unat (take_bit 4 b) = take_bit 4 (unat b)" for b :: byte by (simp only: unsigned_take_bit_eq)
  then have "\<not> bit (b AND 0x0f) 7" "unat (b AND 0x0f) mod 16 = unat b mod 16" for b :: byte
    unfolding t by (simp_all only: bit_take_bit_iff) (simp_all add: take_bit_eq_mod)
  moreover have "v_and v (replicate n 0x0f) = map (\<lambda>b. b AND 0x0f) v" using n by (auto simp: v_and_def intro: nth_equalityI)
  ultimately show ?thesis by (simp add: PermuteOrZero_def comp_def)
qed

lemma xor_zero: "(a :: byte) XOR b = 0 \<longleftrightarrow> a = b"
  by (metis xor.assoc xor_self_eq xor.right_neutral xor.left_neutral)

lemma lane_ok:
  "((if (if p2 \<le> 0xdf then 0 else p2 - 0xdf) OR (if p3 \<le> 0xef then 0 else p3 - 0xef) > (0 :: byte) then 0x80 else 0)
      XOR (utf8FirstHigh ! (unat p1 div 16) AND utf8FirstLow ! (unat p1 mod 16) AND utf8SecondHigh ! (unat b div 16)) = 0)
   \<longleftrightarrow> chk p3 p2 p1 b"
proof -
  have "(if x \<le> k then 0 else x - k) = 0 \<longleftrightarrow> unat x \<le> unat k" for x k :: byte by (auto simp: word_le_nat_alt)
  then have "(if p2 \<le> 0xdf then 0 else p2 - 0xdf) OR (if p3 \<le> 0xef then 0 else p3 - 0xef) > (0 :: byte) \<longleftrightarrow> 0xe0 \<le> unat p2 \<or> 0xf0 \<le> unat p3"
    by (auto simp: word_gt_0 or_eq_0_iff)
  then show ?thesis by (auto simp: chk_def pair_bits_def xor_zero)
qed

text \<open>A block of any width, given the bytes before each lane.\<close>

lemma block_ok:
  assumes "length p1s = n" "length p2s = n" "length p3s = n" "length ins = n"
  shows "IsZero (v_xor (v_Masked (replicate n 0x80) (Greater (v_or (SubSaturated p2s (replicate n 0xdf)) (SubSaturated p3s (replicate n 0xef))) (replicate n 0)))
       (v_and (v_and (map (\<lambda>b. utf8FirstHigh ! (unat b div 16)) p1s) (map (\<lambda>b. utf8FirstLow ! (unat b mod 16)) p1s)) (map (\<lambda>b. utf8SecondHigh ! (unat b div 16)) ins)))
     \<longleftrightarrow> (\<forall>i<n. chk (p3s ! i) (p2s ! i) (p1s ! i) (ins ! i))"
  using assms
  by (simp add: IsZero_def v_xor_def v_Masked_def Greater_def v_or_def SubSaturated_def v_and_def list_all_length lane_ok [symmetric] and.assoc)

lemma chk_run_nth:
  "chk_run p3 p2 p1 bs \<longleftrightarrow> (\<forall>i<length bs. let w = p3 # p2 # p1 # bs in chk (w ! i) (w ! Suc i) (w ! Suc (Suc i)) (bs ! i))"
proof (induction bs arbitrary: p3 p2 p1)
  case (Cons b bs)
  show ?case unfolding chk_run.simps Cons.IH by (auto simp: Let_def less_Suc_eq_0_disj)
qed simp

section \<open>Blocks\<close>

lemma shifted_nth: "length input = n \<Longrightarrow> length previous = 16 \<Longrightarrow> k \<le> 16 \<Longrightarrow> i < n \<Longrightarrow> ConcatShiftBytesRight input previous k ! i = (previous @ input) ! (k + i)"
  by (simp add: ConcatShiftBytesRight_def del: drop_append take_append)

lemma shifted_length: "length previous = 16 \<Longrightarrow> k \<le> 16 \<Longrightarrow> length (ConcatShiftBytesRight input previous k) = length input"
  by (simp add: ConcatShiftBytesRight_def)

lemma run_at:
  assumes "length previous = 16"
  shows "chk_run (previous ! 13) (previous ! 14) (previous ! 15) input \<longleftrightarrow>
    (\<forall>i<length input. chk ((previous @ input) ! (13 + i)) ((previous @ input) ! (14 + i)) ((previous @ input) ! (15 + i)) (input ! i))"
proof -
  have w: "previous ! 13 # previous ! 14 # previous ! 15 # input = drop 13 (previous @ input)"
  proof -
    have "drop 13 previous = [previous ! 13, previous ! 14, previous ! 15]" using assms by (intro nth_equalityI) (auto simp: nth_Cons less_Suc_eq split: nat.split)
    then show ?thesis using assms by simp
  qed
  have "13 \<le> length (previous @ input)" using assms by simp
  then have n: "drop 13 (previous @ input) ! i = (previous @ input) ! (13 + i)" for i by (simp only: nth_drop)
  have a: "13 + Suc i = 14 + i" "14 + Suc i = 15 + i" for i by simp_all
  show ?thesis unfolding chk_run_nth w Let_def n a ..
qed

lemma narrow_block_run:
  assumes "length previous = 16" "length input = 16"
  shows "narrow_block previous input \<longleftrightarrow> chk_run (previous ! 13) (previous ! 14) (previous ! 15) input"
proof -
  let ?s = "ConcatShiftBytesRight input previous"
  have l: "length (?s k) = 16" if "k \<le> 16" for k using shifted_length [OF assms(1) that] assms(2) by simp
  have hn: "high_nibbles (?s 15) = map (drop_bit 4) (?s 15)" "high_nibbles input = map (drop_bit 4) input" using l [of 15] assms(2) by (simp_all add: high_nibbles_eq)
  have "narrow_block previous input \<longleftrightarrow> (\<forall>i<16. chk (?s 13 ! i) (?s 14 ! i) (?s 15 ! i) (input ! i))"
    unfolding narrow_block_def Let_def hn Permute_high Permute_low [OF l [of 15, simplified]]
    by (rule block_ok) (use l assms(2) in simp_all)
  then show ?thesis unfolding run_at [OF assms(1)] using shifted_nth [OF assms(2,1)] assms(2) by simp
qed

text \<open>The two halves of a 256-bit shift give the shift across the halves.\<close>

lemma grouped_shift:
  assumes "length previous = 32" "length input = 32" "k \<le> 16"
  shows "ConcatShiftBytesRightGrouped input (GetHi previous @ GetLo input) k = ConcatShiftBytesRight input (GetHi previous) k"
proof (rule nth_equalityI)
  show "length (ConcatShiftBytesRightGrouped input (GetHi previous @ GetLo input) k) = length (ConcatShiftBytesRight input (GetHi previous) k)"
    using assms by (simp add: ConcatShiftBytesRightGrouped_def ConcatShiftBytesRight_def GetHi_def GetLo_def)
  fix i
  assume "i < length (ConcatShiftBytesRightGrouped input (GetHi previous @ GetLo input) k)"
  then have i: "i < 32" using assms by (simp add: ConcatShiftBytesRightGrouped_def ConcatShiftBytesRight_def GetHi_def GetLo_def)
  show "ConcatShiftBytesRightGrouped input (GetHi previous @ GetLo input) k ! i = ConcatShiftBytesRight input (GetHi previous) k ! i"
    using assms i by (auto simp: ConcatShiftBytesRightGrouped_def ConcatShiftBytesRight_def GetHi_def GetLo_def nth_append add.commute)
qed

lemma Permute_grouped:
  "length idx = 32 \<Longrightarrow> PermuteOrZeroGrouped (t @ t) idx = PermuteOrZero t idx" if "length t = 16"
  using that by (simp add: PermuteOrZeroGrouped_def GetLo_def GetHi_def PermuteOrZero_def flip: map_append)

lemma wide_tables:
  "utf8FirstHighAVX2 = utf8FirstHigh @ utf8FirstHigh" "utf8FirstLowAVX2 = utf8FirstLow @ utf8FirstLow" "utf8SecondHighAVX2 = utf8SecondHigh @ utf8SecondHigh"
  "length utf8FirstHigh = 16" "length utf8FirstLow = 16" "length utf8SecondHigh = 16"
  by (simp_all add: utf8FirstHighAVX2_def utf8FirstLowAVX2_def utf8SecondHighAVX2_def utf8FirstHigh_def utf8FirstLow_def utf8SecondHigh_def)

lemma wide_block_run:
  assumes "length previous = 32" "length input = 32"
  shows "wide_block previous input \<longleftrightarrow> chk_run (previous ! 29) (previous ! 30) (previous ! 31) input"
proof -
  let ?p = "GetHi previous"
  let ?s = "ConcatShiftBytesRight input ?p"
  have p: "length ?p = 16" "?p ! 13 = previous ! 29" "?p ! 14 = previous ! 30" "?p ! 15 = previous ! 31" using assms(1) by (simp_all add: GetHi_def)
  have l: "length (?s k) = 32" if "k \<le> 16" for k using shifted_length [OF p(1) that] assms(2) by simp
  have hn: "high_nibbles (?s 15) = map (drop_bit 4) (?s 15)" "high_nibbles input = map (drop_bit 4) input" using l [of 15] assms(2) by (simp_all add: high_nibbles_eq)
  have g: "ConcatShiftBytesRightGrouped input (?p @ GetLo input) k = ?s k" if "k \<le> 16" for k by (rule grouped_shift [OF assms that])
  have pm: "PermuteOrZeroGrouped utf8FirstHighAVX2 x = PermuteOrZero utf8FirstHigh x" "PermuteOrZeroGrouped utf8FirstLowAVX2 x = PermuteOrZero utf8FirstLow x"
     "PermuteOrZeroGrouped utf8SecondHighAVX2 x = PermuteOrZero utf8SecondHigh x" if "length x = 32" for x
    unfolding wide_tables by (rule Permute_grouped; (rule wide_tables that))+
  have lx: "length (map (drop_bit 4) (?s 15)) = 32" "length (map (drop_bit 4) input) = 32" "length (v_and (?s 15) (replicate 32 0x0f)) = 32"
    using l [of 15] assms(2) by (simp_all add: v_and_def)
  have "wide_block previous input \<longleftrightarrow> (\<forall>i<32. chk (?s 13 ! i) (?s 14 ! i) (?s 15 ! i) (input ! i))"
    unfolding wide_block_def Let_def g [of 15, simplified] g [of 14, simplified] g [of 13, simplified] hn pm(1) [OF lx(1)] pm(2) [OF lx(3)] pm(3) [OF lx(2)]
      Permute_high Permute_low [OF l [of 15, simplified]]
    by (rule block_ok) (use l assms(2) in simp_all)
  then show ?thesis unfolding run_at [OF p(1), unfolded p(2-4)] using shifted_nth [OF assms(2) p(1)] assms(2) by simp
qed

section \<open>Loops\<close>

lemma chk_run_append:
  "chk_run p3 p2 p1 (xs @ ys) \<longleftrightarrow> chk_run p3 p2 p1 xs \<and> (let w = [p3, p2, p1] @ xs; n = length xs in chk_run (w ! n) (w ! Suc n) (w ! Suc (Suc n)) ys)"
  by (induction xs arbitrary: p3 p2 p1) (auto simp: Let_def)

lemma chk_run_block:
  assumes "length xs = n" "3 \<le> n"
  shows "chk_run p3 p2 p1 (xs @ ys) \<longleftrightarrow> chk_run p3 p2 p1 xs \<and> chk_run (xs ! (n - 3)) (xs ! (n - 2)) (xs ! (n - 1)) ys"
proof -
  have "([p3, p2, p1] @ xs) ! n = xs ! (n - 3)" "([p3, p2, p1] @ xs) ! Suc n = xs ! (n - 2)" "([p3, p2, p1] @ xs) ! Suc (Suc n) = xs ! (n - 1)"
    using assms by (auto simp: nth_append nth_Cons eval_nat_numeral split: nat.split)
  then show ?thesis unfolding chk_run_append Let_def assms(1) by simp
qed

text \<open>What a loop over blocks has established: it stops at a failing block, and otherwise what follows is
  checked after the last block as it would be after everything before.\<close>

definition run16 :: "bytes \<Rightarrow> bytes \<Rightarrow> bool" where
  "run16 p bs \<longleftrightarrow> chk_run (p ! 13) (p ! 14) (p ! 15) bs"

definition passed :: "bytes \<Rightarrow> bytes \<Rightarrow> (bytes \<times> bytes) option \<Rightarrow> bool" where
  "passed previous src res \<longleftrightarrow>
    (case res of
       None \<Rightarrow> \<forall>zs. \<not> run16 previous (src @ zs)
     | Some (q, rest) \<Rightarrow> length q = 16 \<and> (\<exists>pre. src = pre @ rest \<and> (\<forall>ys. run16 previous (pre @ ys) = run16 q ys)))"

lemma run16_block: "length x = 16 \<Longrightarrow> run16 p (x @ ys) \<longleftrightarrow> run16 p x \<and> run16 x ys"
  using chk_run_block [of x 16 "p ! 13" "p ! 14" "p ! 15" ys] by (simp add: run16_def)

lemma passed_refl: "length p = 16 \<Longrightarrow> passed p src (Some (p, src))"
  by (simp add: passed_def)

lemma passed_block:
  assumes "length p = 16" "length x = 16" "narrow_block p x" "passed x rest res"
  shows "passed p (x @ rest) res"
proof -
  have r: "run16 p (x @ ys) = run16 x ys" for ys
    using run16_block [OF assms(2), of p ys] narrow_block_run [OF assms(1,2)] assms(3) by (simp add: run16_def)
  show ?thesis
  proof (cases res)
    case None
    then show ?thesis using assms(4) r by (simp add: passed_def)
  next
    case (Some qr)
    obtain q l where qr: "qr = (q, l)" by (cases qr)
    then obtain pre where "length q = 16" "rest = pre @ l" "\<forall>ys. run16 x (pre @ ys) = run16 q ys" using assms(4) Some by (auto simp: passed_def)
    then show ?thesis using Some qr r by (auto simp: passed_def intro!: exI [of _ "x @ pre"])
  qed
qed

lemma passed_fail: "length p = 16 \<Longrightarrow> length x = 16 \<Longrightarrow> \<not> narrow_block p x \<Longrightarrow> passed p (x @ rest) None"
  using run16_block [of x p] narrow_block_run [of p x] by (simp add: passed_def run16_def)

lemma narrow_pairs_passed: "length previous = 16 \<Longrightarrow> passed previous src (narrow_pairs previous src)"
proof (induction previous src rule: narrow_pairs.induct)
  case (1 previous src)
  show ?case
  proof (cases "length src \<ge> 32")
    case False
    then show ?thesis using passed_refl [OF "1.prems"] by (subst narrow_pairs.simps) simp
  next
    case True
    define x y z where "x = take 16 src" and "y = take 16 (drop 16 src)" and "z = drop 32 src"
    have "drop 16 src = y @ z" using append_take_drop_id [of 16 "drop 16 src"] by (simp add: y_def z_def)
    then have src: "src = x @ y @ z" using append_take_drop_id [of 16 src] by (simp add: x_def)
    have l: "length x = 16" "length y = 16" using True by (simp_all add: x_def y_def)
    have e: "narrow_pairs previous src = (if \<not> narrow_block previous x then None else if \<not> narrow_block x y then None else narrow_pairs y z)"
      using True by (subst narrow_pairs.simps) (simp add: Let_def x_def y_def z_def)
    show ?thesis
    proof (cases "narrow_block previous x \<and> narrow_block x y")
      case ok: True
      have "passed y z (narrow_pairs y z)" using "1.IH" [OF True refl refl] ok l unfolding x_def y_def z_def by blast
      then show ?thesis using ok passed_block [OF l(1,2)] passed_block [OF "1.prems" l(1)] by (simp add: e) (simp add: src)
    next
      case False
      then show ?thesis using passed_fail [OF "1.prems" l(1)] passed_block [OF "1.prems" l(1) _ passed_fail [OF l]] by (simp add: e) (auto simp: src)
    qed
  qed
qed

lemma narrow_singles_passed: "length previous = 16 \<Longrightarrow> passed previous src (narrow_singles previous src)"
proof (induction previous src rule: narrow_singles.induct)
  case (1 previous src)
  show ?case
  proof (cases "length src \<ge> 16")
    case False
    then show ?thesis using passed_refl [OF "1.prems"] by (subst narrow_singles.simps) simp
  next
    case True
    define x z where "x = take 16 src" and "z = drop 16 src"
    have src: "src = x @ z" "length x = 16" using True by (simp_all add: x_def z_def)
    have e: "narrow_singles previous src = (if \<not> narrow_block previous x then None else narrow_singles x z)"
      using True by (subst narrow_singles.simps) (simp add: Let_def x_def z_def)
    show ?thesis
    proof (cases "narrow_block previous x")
      case ok: True
      have "passed x z (narrow_singles x z)" using "1.IH" [OF True refl] ok src(2) unfolding x_def z_def by blast
      then show ?thesis using ok passed_block [OF "1.prems" src(2)] by (simp add: e) (simp add: src(1))
    next
      case False
      then show ?thesis using passed_fail [OF "1.prems" src(2)] by (simp add: e) (simp add: src(1))
    qed
  qed
qed

lemma narrow_singles_rest: "narrow_singles previous src = Some (q, rest) \<Longrightarrow> length rest < 16"
proof (induction previous src rule: narrow_singles.induct)
  case (1 previous src)
  then show ?case by (subst (asm) narrow_singles.simps) (auto simp: Let_def split: if_splits)
qed

lemma passed_trans:
  assumes "passed p src (Some (q, mid))" "passed q mid res"
  shows "passed p src res"
proof -
  obtain pre where pre: "src = pre @ mid" "\<forall>ys. run16 p (pre @ ys) = run16 q ys" using assms(1) by (auto simp: passed_def)
  show ?thesis
  proof (cases res)
    case None
    then show ?thesis using assms(2) pre by (simp add: passed_def)
  next
    case (Some qr)
    obtain q2 l where qr: "qr = (q2, l)" by (cases qr)
    then obtain pre2 where "length q2 = 16" "mid = pre2 @ l" "\<forall>ys. run16 q (pre2 @ ys) = run16 q2 ys" using assms(2) Some by (auto simp: passed_def)
    then show ?thesis using Some qr pre by (auto simp: passed_def intro!: exI [of _ "pre @ pre2"])
  qed
qed

section \<open>The 128-bit kernel\<close>

lemma run16_prefix: "run16 p (xs @ ys) \<Longrightarrow> run16 p xs"
  unfolding run16_def chk_run_append by blast

lemma run16_zeros: "run16 (replicate 16 0) bs \<longleftrightarrow> chk_run 0 0 0 bs"
  by (simp add: run16_def)

lemma narrow_tail:
  assumes "length p = 16" "length r < 16"
  shows "narrow_block p (take 16 (r @ replicate 16 0)) \<longleftrightarrow> run16 p (r @ replicate (16 - length r) 0)"
proof -
  have t: "take 16 (r @ replicate 16 0) = r @ replicate (16 - length r) (0 :: byte)" using assms(2) by (simp add: min_def)
  have "length (r @ replicate (16 - length r) (0 :: byte)) = 16" using assms(2) by simp
  from narrow_block_run [OF assms(1) this] show ?thesis unfolding t run16_def .
qed

lemma validNarrow_checks:
  shows "validNarrow original src \<Longrightarrow> chk_run 0 0 0 src \<and> std_Valid (drop (back_up original (length original - 1)) original)"
    and "(\<And>n. chk_run 0 0 0 (src @ replicate n 0)) \<Longrightarrow> std_Valid (drop (back_up original (length original - 1)) original) \<Longrightarrow> validNarrow original src"
proof -
  let ?z = "replicate 16 0 :: bytes"
  have p1: "passed ?z src (narrow_pairs ?z src)" by (rule narrow_pairs_passed) simp
  have p2: "passed ?z src (narrow_singles q r)" if "narrow_pairs ?z src = Some (q, r)" for q r
  proof -
    have "length q = 16" using p1 that by (simp add: passed_def)
    from passed_trans [OF p1 [unfolded that] narrow_singles_passed [OF this]] show ?thesis .
  qed
  {
    assume v: "validNarrow original src"
    obtain q r where e1: "narrow_pairs ?z src = Some (q, r)" using v by (cases "narrow_pairs ?z src") (auto simp: validNarrow_def)
    obtain p t where e2: "narrow_singles q r = Some (p, t)" using v e1 by (cases "narrow_singles q r") (auto simp: validNarrow_def)
    note e = e1 e2
    have c: "t = [] \<or> narrow_block p (take 16 (t @ replicate 16 0))" and sv: "std_Valid (drop (back_up original (length original - 1)) original)"
      using v unfolding validNarrow_def e option.case prod.case by (auto split: if_splits)
    obtain pre where l: "length p = 16" "src = pre @ t" "run16 ?z (pre @ t) = run16 p t" using p2 [OF e(1)] e(2) by (auto simp: passed_def)
    have "run16 p t"
      using c narrow_tail [OF l(1) narrow_singles_rest [OF e(2)]] run16_prefix by (cases "t = []") (auto simp: run16_def)
    then show "chk_run 0 0 0 src \<and> std_Valid (drop (back_up original (length original - 1)) original)" using l sv by (simp add: run16_zeros)
  next
    assume c: "\<And>n. chk_run 0 0 0 (src @ replicate n 0)" and sv: "std_Valid (drop (back_up original (length original - 1)) original)"
    have n: "\<not> passed ?z src None" using c [of 0] unfolding passed_def run16_zeros by (auto intro!: exI [of _ "[]"])
    obtain q r where e: "narrow_pairs ?z src = Some (q, r)" using p1 n by (cases "narrow_pairs ?z src") auto
    obtain p t where e2: "narrow_singles q r = Some (p, t)" using p2 [OF e] n by (cases "narrow_singles q r") auto
    obtain pre where l: "length p = 16" "src = pre @ t" "\<And>ys. run16 ?z (pre @ ys) = run16 p ys" using p2 [OF e] e2 by (auto simp: passed_def)
    have "run16 p (t @ replicate (16 - length t) 0)" using c [of "16 - length t"] l(2,3) by (simp add: run16_zeros)
    then have "narrow_block p (take 16 (t @ replicate 16 0))" using narrow_tail [OF l(1) narrow_singles_rest [OF e2]] by simp
    then show "validNarrow original src" using sv by (simp add: validNarrow_def e e2)
  }
qed

lemma trun_zeros: "trun accept (replicate n 0) = accept"
  by (rule trun_ascii) (simp add: list_all_iff)

lemma validNarrow_Valid:
  assumes "original \<noteq> []" "s \<le> length original" "trun accept (take s original) = accept"
  shows "validNarrow original (drop s original) \<longleftrightarrow> std_Valid original"
proof
  note f = final_check [OF assms, of "[]", unfolded append_Nil2]
  show "validNarrow original (drop s original) \<Longrightarrow> std_Valid original" using validNarrow_checks(1) f by blast
  assume v: "std_Valid original"
  have "trun accept original = trun accept (drop s original)" using assms(3) by (metis append_take_drop_id trun_simps(3))
  then have "trun accept (drop s original @ replicate n 0) = accept" for n using v trun_std_Valid [of original] trun_zeros by simp
  then have "chk_run 0 0 0 (drop s original @ replicate n 0)" for n
    using chk_run_trun [of accept 0 0 0 "drop s original @ replicate n 0"] by (simp add: seen_def)
  then show "validNarrow original (drop s original)" using validNarrow_checks(2) v f by blast
qed

section \<open>The 256-bit kernel\<close>

definition run32 :: "bytes \<Rightarrow> bytes \<Rightarrow> bool" where
  "run32 p bs \<longleftrightarrow> chk_run (p ! 29) (p ! 30) (p ! 31) bs"

lemma wide_loop_run:
  "length previous = 32 \<Longrightarrow>
    (case wide_loop previous src processed of
       None \<Rightarrow> \<not> run32 previous src
     | Some m \<Rightarrow> processed \<le> m \<and> m \<le> processed + length src \<and> run32 previous (take (m - processed) src))"
proof (induction previous src processed rule: wide_loop.induct)
  case (1 previous src processed)
  show ?case
  proof (cases "length src \<ge> 32")
    case False
    then show ?thesis by (subst wide_loop.simps) (simp add: run32_def)
  next
    case True
    define x z where "x = take 32 src" and "z = drop 32 src"
    have src: "src = x @ z" "length x = 32" using True by (simp_all add: x_def z_def)
    have e: "wide_loop previous src processed = (if \<not> wide_block previous x then None else wide_loop x z (processed + 32))"
      using True by (subst wide_loop.simps) (simp add: Let_def x_def z_def)
    have b: "wide_block previous x \<longleftrightarrow> run32 previous x" using wide_block_run [OF "1.prems" src(2)] by (simp add: run32_def)
    have r: "run32 previous (x @ ys) \<longleftrightarrow> run32 previous x \<and> run32 x ys" for ys
      using chk_run_block [of x 32 "previous ! 29" "previous ! 30" "previous ! 31" ys] src(2) by (simp add: run32_def)
    show ?thesis
    proof (cases "wide_block previous x")
      case ok: True
      have ih: "case wide_loop x z (processed + 32) of None \<Rightarrow> \<not> run32 x z
          | Some m \<Rightarrow> processed + 32 \<le> m \<and> m \<le> processed + 32 + length z \<and> run32 x (take (m - (processed + 32)) z)"
        using "1.IH" [OF True refl] ok src(2) unfolding x_def z_def by blast
      show ?thesis
      proof (cases "wide_loop x z (processed + 32)")
        case None
        then show ?thesis using ih e ok r src(1) by simp
      next
        case (Some m)
        then have m: "processed + 32 \<le> m" "m \<le> processed + 32 + length z" "run32 x (take (m - (processed + 32)) z)" using ih by simp_all
        have "take (m - processed) src = x @ take (m - (processed + 32)) z" using m(1) src by simp
        then show ?thesis using m e ok b r Some src by simp
      qed
    next
      case False
      then show ?thesis using e b r [of z] src(1) by simp
    qed
  qed
qed

lemma validWide_Valid:
  assumes "0 < s" "s \<le> length original" "trun accept (take s original) = accept"
  shows "validWide original (drop s original) s \<longleftrightarrow> std_Valid original"
proof -
  let ?z = "replicate 32 0 :: bytes"
  have z: "run32 ?z bs \<longleftrightarrow> chk_run 0 0 0 bs" for bs by (simp add: run32_def)
  have w: "case wide_loop ?z (drop s original) s of None \<Rightarrow> \<not> chk_run 0 0 0 (drop s original)
      | Some m \<Rightarrow> s \<le> m \<and> m \<le> s + length (drop s original) \<and> chk_run 0 0 0 (take (m - s) (drop s original))"
    using wide_loop_run [of ?z "drop s original" s] unfolding z by simp
  show ?thesis
  proof (cases "wide_loop ?z (drop s original) s")
    case None
    have "original \<noteq> []" using assms by auto
    from final_check [OF this assms(2,3), of "[]"] have "\<not> std_Valid original" using None w by simp
    then show ?thesis using None by (simp add: validWide_def)
  next
    case (Some m)
    then have m: "s \<le> m" "m \<le> length original" "chk_run 0 0 0 (take (m - s) (drop s original))" using w assms(2) by simp_all
    let ?P = "take m original"
    have P: "?P \<noteq> []" "s \<le> length ?P" "trun accept (take s ?P) = accept" "length ?P = m" "drop s ?P = take (m - s) (drop s original)"
      using m assms by (auto simp: drop_take min_def)
    show ?thesis using final_check [OF P(1-3), of "drop m original"] m(3) Some unfolding P(4,5) append_take_drop_id by (simp add: validWide_def)
  qed
qed

section \<open>Equivalence\<close>

lemma DecodeRune_ok:
  assumes "src \<noteq> []" "DecodeRune src = (r, n)"
  shows "if r = RuneError \<and> n = 1 then \<not> std_Valid src
         else 0 < n \<and> n \<le> length src \<and> trun accept (take n src) = accept"
proof (cases src)
  case (Cons b bs)
  show ?thesis unfolding trun_std_Valid
  proof (cases "b < 0x80")
    case True
    then have "unat b < 0x80" by (simp add: word_less_nat_alt)
    then show "if r = RuneError \<and> n = 1 then \<not> std_Valid src else 0 < n \<and> n \<le> length src \<and> std_Valid (take n src)"
      using assms(2) Cons True by (auto simp: DecodeRune_def RuneError_def)
  next
    case False
    then show "if r = RuneError \<and> n = 1 then \<not> std_Valid src else 0 < n \<and> n \<le> length src \<and> std_Valid (take n src)"
      using assms(2) unfolding Cons DecodeRune_def by (auto split: if_splits list.splits)
  qed
qed (use assms in simp)

lemma ascii_drop: "Valid (drop (asciiPrefix src) src) \<longleftrightarrow> Valid src"
proof -
  have "ascii (take (asciiPrefix src) src)" using asciiPrefix_max(1) [of src] by (simp add: ascii_upto_def)
  then have "trun accept src = trun accept (drop (asciiPrefix src) src)" using trun_ascii by (metis append_take_drop_id ascii_def trun_simps(3))
  then show ?thesis using trun_std_Valid [of src] trun_std_Valid [of "drop (asciiPrefix src) src"] by (simp add: Valid_std_Valid)
qed

text \<open>C21: on a machine with or without AVX2, the vector \<open>Valid\<close> of the SIMD build accepts exactly what the
  table-driven \<open>Valid\<close> of the portable build accepts.\<close>

theorem simd_Valid_equiv: "simd_Valid avx2 src \<longleftrightarrow> Valid src"
proof -
  define o' where "o' = drop (asciiPrefix src) src"
  obtain r s where d: "DecodeRune o' = (r, s)" by (cases "DecodeRune o'")
  have e: "simd_Valid avx2 src \<longleftrightarrow>
    (if asciiPrefix src = length src then True else if length o' < 32 then std_Valid o' else if r = RuneError \<and> s = 1 then False
     else if length o' \<ge> wideThreshold \<and> avx2 then validWide o' (drop s o') s else validNarrow o' (drop s o'))"
    unfolding simd_Valid_def Let_def o'_def [symmetric] d prod.case ..
  have v: "std_Valid o' \<longleftrightarrow> Valid src" using ascii_drop [of src] by (simp add: o'_def Valid_std_Valid)
  show ?thesis
  proof (cases "asciiPrefix src = length src \<or> length o' < 32")
    case True
    then show ?thesis using v unfolding e by (auto simp: o'_def)
  next
    case False
    then have n: "o' \<noteq> []" by auto
    note k = DecodeRune_ok [OF n d]
    show ?thesis
    proof (cases "r = RuneError \<and> s = 1")
      case True
      then show ?thesis using False k v unfolding e by simp
    next
      case ok: False
      then have k: "0 < s" "s \<le> length o'" "trun accept (take s o') = accept" using k by auto
      show ?thesis using False ok v validWide_Valid [OF k] validNarrow_Valid [OF n k(2,3)] unfolding e by auto
    qed
  qed
qed

end
