(* ===== verification/Spec2Isabelle.thy ===== *)
theory Spec2Isabelle
  imports ConnTunnel Utf8_Simd_Thm
begin

text \<open>
  A verification library for ews, a WebSocket implementation in Go (\<^verbatim>\<open>src/\<close>).
\<close>

end
